(* ===== verification/ATC_Prelude.thy ===== *)
theory ATC_Prelude
  imports Main "HOL-Library.Word" "HOL-Library.Sublist"
begin

text \<open>
  The prelude of the ATCortex library: the machine types of the C sources, the result
  monad in which every C function is written, its total-correctness predicate
  \<open>runs\<close>, the memory and string primitives of the C standard library the sources call
  (\<open>memcpy\<close>, \<open>memset\<close>, \<open>strlen\<close>, \<open>strncmp\<close>, \<open>strncat\<close>), and the lemmas on words
  and lists that the components share.

  The target is ILP32: \<open>unsigned int\<close>, \<open>uint32_t\<close>, \<open>size_t\<close> and pointers are
  32 bits wide, as on the microcontrollers the library is written for.  A C \<open>int\<close> is
  an unbounded \<open>int\<close> wherever the code itself guards its range.
\<close>

text \<open>The rules by which a function is followed down to its calls of the injected interface.\<close>

named_theorems within_os \<open>what a function does behind the interface, following its structure\<close>

text \<open>The definitions that run a call on the sample platform of the witnesses.\<close>

named_theorems sample_run \<open>definitions to evaluate a call on the sample platform\<close>

section \<open>Machine types\<close>

type_synonym u8 = "8 word"
type_synonym u32 = "32 word"
type_synonym size_t = "32 word"
type_synonym addr = "32 word"

abbreviation NULL :: addr where
  "NULL \<equiv> 0"

section \<open>Results of C functions\<close>

text \<open>
  A call either returns a value, or has undefined behaviour (\<open>fail\<close>, with what went
  wrong), or never returns (\<open>None\<close>).  Error codes of the C functions are ordinary
  return values.
\<close>

datatype fault =
    NullDeref      \<comment> \<open>access through a null pointer\<close>
  | BadDeref       \<comment> \<open>access through a dangling pointer or to an object of another type\<close>
  | OutOfBounds    \<comment> \<open>access outside an array\<close>
  | DivZero        \<comment> \<open>division or remainder by zero\<close>
  | NullCall       \<comment> \<open>call through a null function pointer\<close>
  | BadFree        \<comment> \<open>\<open>free\<close> of an address that is not allocated\<close>
  | Uninit         \<comment> \<open>read of an indeterminate value\<close>
  | BadItem        \<comment> \<open>a queue item of the wrong type\<close>

type_synonym 'a res = "(fault + 'a) option"

abbreviation ok :: "'a \<Rightarrow> 'a res" where
  "ok x \<equiv> Some (Inr x)"

abbreviation fail :: "fault \<Rightarrow> 'a res" where
  "fail e \<equiv> Some (Inl e)"

definition rbind :: "'a res \<Rightarrow> ('a \<Rightarrow> 'b res) \<Rightarrow> 'b res" where
  "rbind m f = Option.bind m (\<lambda>r. case r of Inl e \<Rightarrow> Some (Inl e) | Inr x \<Rightarrow> f x)"

lemma rbind_simps [simp]:
  "rbind (ok x) f = f x" "rbind (fail e) f = fail e" "rbind None f = None"
  by (simp_all add: rbind_def)

lemma rbind_assoc [simp]: "rbind (rbind m f) g = rbind m (\<lambda>x. rbind (f x) g)"
  by (auto simp: rbind_def split: sum.splits Option.bind_split)

lemma rbind_ok_right [simp]: "rbind m ok = m"
  by (auto simp: rbind_def split: sum.splits Option.bind_split)

lemma rbind_eq_ok:
  "rbind m f = ok y \<longleftrightarrow> (\<exists>x. m = ok x \<and> f x = ok y)"
  by (auto simp: rbind_def split: sum.splits Option.bind_split)

lemma rbind_cong [fundef_cong]:
  "m = m' \<Longrightarrow> (\<And>x. m' = ok x \<Longrightarrow> f x = g x) \<Longrightarrow> rbind m f = rbind m' g"
  by (auto simp: rbind_def split: sum.splits Option.bind_split)

text \<open>Recursive calls under \<open>rbind\<close> are accepted in \<open>partial_function (option)\<close>.\<close>

lemma rbind_mono [partial_function_mono]:
  assumes "mono_option B" and "\<And>y. mono_option (\<lambda>f. C y f)"
  shows "mono_option (\<lambda>f. rbind (B f) (\<lambda>y. C y f))"
  unfolding rbind_def
proof (rule bind_mono [OF assms(1)])
  fix y
  show "mono_option (\<lambda>f. case y of Inl e \<Rightarrow> Some (Inl e) | Inr x \<Rightarrow> C x f)"
    using assms(2) by (cases y) (auto intro: monotoneI option.leq_refl)
qed

subsection \<open>Total correctness\<close>

text \<open>
  \<open>runs m P\<close>: the call \<open>m\<close> returns, without undefined behaviour, a value that
  satisfies \<open>P\<close>.  The equations below compute it backwards through \<open>rbind\<close>, as a
  weakest precondition.
\<close>

definition runs :: "'a res \<Rightarrow> ('a \<Rightarrow> bool) \<Rightarrow> bool" where
  "runs m P \<longleftrightarrow> (case m of Some (Inr x) \<Rightarrow> P x | _ \<Rightarrow> False)"

lemma runs_simps [simp]:
  "runs (ok x) P \<longleftrightarrow> P x" "\<not> runs (fail e) P" "\<not> runs None P"
  by (simp_all add: runs_def)

lemma runs_rbind [simp]: "runs (rbind m f) P \<longleftrightarrow> runs m (\<lambda>x. runs (f x) P)"
  by (auto simp: runs_def rbind_def split: sum.splits option.splits Option.bind_split)

lemma runs_iff: "runs m P \<longleftrightarrow> (\<exists>x. m = ok x \<and> P x)"
  by (auto simp: runs_def split: option.splits sum.splits)

lemma runsI: "m = ok x \<Longrightarrow> P x \<Longrightarrow> runs m P"
  by simp

lemma runsE:
  assumes "runs m P" obtains x where "m = ok x" "P x"
  using assms by (auto simp: runs_iff)

lemma runs_mono: "runs m P \<Longrightarrow> (\<And>x. P x \<Longrightarrow> Q x) \<Longrightarrow> runs m Q"
  by (auto simp: runs_iff)

lemma runs_conj: "runs m P \<Longrightarrow> runs m Q \<Longrightarrow> runs m (\<lambda>x. P x \<and> Q x)"
  by (auto simp: runs_iff)

lemma runs_if [simp]: "runs (if b then m else n) P \<longleftrightarrow> (if b then runs m P else runs n P)"
  by simp

lemma runs_case_prod [simp]: "runs (case p of (a, b) \<Rightarrow> f a b) P \<longleftrightarrow> (case p of (a, b) \<Rightarrow> runs (f a b) P)"
  by (simp split: prod.split)

section \<open>Memory and string primitives\<close>

definition arr_get :: "'a list \<Rightarrow> nat \<Rightarrow> 'a res" where
  "arr_get xs i = (if i < length xs then ok (xs ! i) else fail OutOfBounds)"

definition arr_set :: "'a list \<Rightarrow> nat \<Rightarrow> 'a \<Rightarrow> 'a list res" where
  "arr_set xs i x = (if i < length xs then ok (xs[i := x]) else fail OutOfBounds)"

lemma arr_get_ok [simp]: "i < length xs \<Longrightarrow> arr_get xs i = ok (xs ! i)"
  by (simp add: arr_get_def)

lemma arr_set_ok [simp]: "i < length xs \<Longrightarrow> arr_set xs i x = ok (xs[i := x])"
  by (simp add: arr_set_def)

definition mem_read :: "'a list \<Rightarrow> nat \<Rightarrow> 'a list res" where
  "mem_read xs n = (if n \<le> length xs then ok (take n xs) else fail OutOfBounds)"

definition mem_write :: "'a list \<Rightarrow> nat \<Rightarrow> 'a list \<Rightarrow> 'a list res" where
  "mem_write xs off ys =
     (if off + length ys \<le> length xs then ok (take off xs @ ys @ drop (off + length ys) xs)
      else fail OutOfBounds)"

definition the_init :: "'a option \<Rightarrow> 'a res" where
  "the_init x = (case x of None \<Rightarrow> fail Uninit | Some v \<Rightarrow> ok v)"

lemma the_init_Some [simp]: "the_init (Some v) = ok v"
  by (simp add: the_init_def)

text \<open>C strings: the bytes before the first NUL; reading past the array is undefined.\<close>

definition cstr :: "u8 list \<Rightarrow> u8 list" where
  "cstr = takeWhile (\<lambda>b. b \<noteq> 0)"

fun c_strlen :: "u8 list \<Rightarrow> nat res" where
  "c_strlen [] = fail OutOfBounds"
| "c_strlen (b # bs) = (if b = 0 then ok 0 else rbind (c_strlen bs) (\<lambda>n. ok (Suc n)))"

text \<open>\<open>strncmp(a, b, n) == 0\<close>.\<close>

fun c_strncmp_eq :: "u8 list \<Rightarrow> u8 list \<Rightarrow> nat \<Rightarrow> bool res" where
  "c_strncmp_eq xs ys 0 = ok True"
| "c_strncmp_eq (x # xs) (y # ys) (Suc n) =
     (if x \<noteq> y then ok False else if x = 0 then ok True else c_strncmp_eq xs ys n)"
| "c_strncmp_eq xs ys (Suc n) = fail OutOfBounds"

text \<open>The characters \<open>strncat\<close> takes from its source: at most \<open>n\<close>, up to a NUL.\<close>

fun strn_chars :: "u8 list \<Rightarrow> nat \<Rightarrow> u8 list res" where
  "strn_chars xs 0 = ok []"
| "strn_chars [] (Suc n) = fail OutOfBounds"
| "strn_chars (x # xs) (Suc n) = (if x = 0 then ok [] else rbind (strn_chars xs n) (\<lambda>r. ok (x # r)))"

definition c_strncat :: "u8 list \<Rightarrow> u8 list \<Rightarrow> nat \<Rightarrow> u8 list res" where
  "c_strncat dest src n =
     rbind (c_strlen dest) (\<lambda>k.
     rbind (strn_chars src n) (\<lambda>s. mem_write dest k (s @ [0])))"

lemma c_strlen_cstr: "0 \<in> set xs \<Longrightarrow> c_strlen xs = ok (length (cstr xs))"
  by (induction xs) (auto simp: cstr_def)

lemma cstr_append_nul [simp]: "0 \<notin> set s \<Longrightarrow> cstr (s @ 0 # r) = s"
  unfolding cstr_def by (subst takeWhile_append2) auto

lemma length_cstr: "0 \<in> set xs \<Longrightarrow> length (cstr xs) < length xs"
  by (induction xs) (auto simp: cstr_def)

lemma length_cstr_le: "length (cstr xs) \<le> length xs"
  by (simp add: cstr_def length_takeWhile_le)

lemma nul_notin_cstr [simp]: "0 \<notin> set (cstr xs)"
  by (auto simp: cstr_def dest: set_takeWhileD)

lemma cstr_take: "take (length (cstr xs)) xs = cstr xs"
  by (simp add: cstr_def flip: takeWhile_eq_take)

lemma c_strncmp_eq_prefix:
  "0 \<in> set xs \<Longrightarrow> 0 \<in> set ys \<Longrightarrow>
   c_strncmp_eq xs ys (length (cstr ys)) = ok (prefix (cstr ys) (cstr xs))"
proof (induction ys arbitrary: xs)
  case Nil
  then show ?case by simp
next
  case (Cons y ys)
  then show ?case by (cases xs) (auto simp: cstr_def)
qed

lemma strn_chars_all: "n \<le> length xs \<Longrightarrow> strn_chars xs n = ok (cstr (take n xs))"
  by (induction xs n rule: strn_chars.induct) (auto simp: cstr_def)

lemma length_cstr_take: "length (cstr (take n xs)) \<le> n"
  by (rule order_trans [OF length_cstr_le]) simp

lemma c_strncat_ok:
  assumes "0 \<in> set dest" and "n \<le> length src"
    and "length (cstr dest) + length (cstr (take n src)) < length dest"
  shows "c_strncat dest src n =
    ok (cstr dest @ cstr (take n src) @ 0 # drop (Suc (length (cstr dest) + length (cstr (take n src)))) dest)"
  using assms by (simp add: c_strncat_def c_strlen_cstr strn_chars_all mem_write_def cstr_take)

section \<open>Words\<close>

lemma unat_Suc_lt:
  fixes x y :: "'a::len word"
  assumes "unat x < unat y"
  shows "unat (x + 1) = Suc (unat x)"
proof -
  have "Suc (unat x) < 2 ^ LENGTH('a)"
    using assms unsigned_less [of y, where ?'a = nat] by linarith
  then show ?thesis by (simp add: unat_word_ariths)
qed


lemma unat_sub_le: "unat b \<le> unat a \<Longrightarrow> unat (a - b :: 'a::len word) = unat a - unat b"
  by (simp add: unat_sub word_le_nat_alt)

section \<open>The last elements of a list\<close>

definition last_n :: "nat \<Rightarrow> 'a list \<Rightarrow> 'a list" where
  "last_n k xs = drop (length xs - k) xs"

lemma length_last_n [simp]: "length (last_n k xs) = min k (length xs)"
  by (auto simp: last_n_def)

lemma last_n_all: "length xs \<le> k \<Longrightarrow> last_n k xs = xs"
  by (simp add: last_n_def)

lemma last_n_snoc: "last_n k (last_n k xs @ [x]) = last_n k (xs @ [x])"
  by (cases "length xs \<le> k") (auto simp: last_n_def Suc_diff_le)

lemma suffix_last_n: "suffix (last_n k xs) xs"
  by (simp add: last_n_def suffix_drop)

lemma suffix_last_n_iff: "length p \<le> k \<Longrightarrow> suffix p (last_n k xs) \<longleftrightarrow> suffix p xs"
  using suffix_length_suffix [of p xs "last_n k xs"] suffix_last_n [of k xs]
  by (auto dest: suffix_length_le intro: suffix_order.trans)

lemma prefix_iff_nth:
  "prefix p xs \<longleftrightarrow> length p \<le> length xs \<and> (\<forall>i < length p. xs ! i = p ! i)"
proof
  assume r: "length p \<le> length xs \<and> (\<forall>i < length p. xs ! i = p ! i)"
  then have "take (length p) xs = p" by (intro nth_equalityI) auto
  then show "prefix p xs" by (metis take_is_prefix)
qed (auto simp: prefix_def nth_append)

lemma suffix_iff_nth_rev:
  "suffix p xs \<longleftrightarrow> length p \<le> length xs \<and> (\<forall>i < length p. rev xs ! i = rev p ! i)"
  by (simp add: suffix_to_prefix prefix_iff_nth)

end
