(* ===== verification/Ring_Buffer.thy ===== *)
theory Ring_Buffer
  imports ATC_Prelude
begin

text \<open>
  \<open>ring_buffer.c\<close>: the byte ring between the UART interrupt and the event loop.  The
  array the handle points to is carried by the handle itself (\<open>rb_buffer\<close>, \<open>None\<close>
  for a null pointer); a null handle is \<open>None\<close>.  Indices are 32-bit words and wrap as
  \<open>unsigned int\<close> does.  The ring implements a bounded FIFO of \<open>capacity - 1\<close> bytes.
\<close>

section \<open>State and operations\<close>

record ring_buffer =
  rb_buffer :: "u8 list option"
  rb_capacity :: u32
  rb_read_index :: u32
  rb_write_index :: u32

definition ring_buffer_init ::
  "ring_buffer option \<Rightarrow> u8 list option \<Rightarrow> u32 \<Rightarrow> int \<times> ring_buffer option" where
  "ring_buffer_init handle buffer capacity =
     (if handle = None \<or> buffer = None \<or> capacity < 2 then (0, handle)
      else (1, Some \<lparr>rb_buffer = buffer, rb_capacity = capacity,
                     rb_read_index = 0, rb_write_index = 0\<rparr>))"

definition ring_buffer_deinit :: "ring_buffer option \<Rightarrow> ring_buffer option" where
  "ring_buffer_deinit handle =
     map_option (\<lambda>_. \<lparr>rb_buffer = None, rb_capacity = 0,
                      rb_read_index = 0, rb_write_index = 0\<rparr>) handle"

text \<open>\<open>x % capacity\<close>, undefined for a zero capacity.\<close>

definition u32_mod :: "u32 \<Rightarrow> u32 \<Rightarrow> u32 res" where
  "u32_mod x y = (if y = 0 then fail DivZero else ok (x mod y))"

definition ring_buffer_write ::
  "ring_buffer option \<Rightarrow> u8 \<Rightarrow> (int \<times> ring_buffer option) res" where
  "ring_buffer_write handle data =
     (case handle of
        None \<Rightarrow> ok (0, handle)
      | Some h \<Rightarrow>
          (case rb_buffer h of
             None \<Rightarrow> ok (0, handle)
           | Some buf \<Rightarrow>
               rbind (u32_mod (rb_write_index h + 1) (rb_capacity h)) (\<lambda>next_write.
               if next_write = rb_read_index h then ok (0, handle)
               else rbind (arr_set buf (unat (rb_write_index h)) data) (\<lambda>buf'.
                    ok (1, Some (h\<lparr>rb_buffer := Some buf', rb_write_index := next_write\<rparr>))))))"

text \<open>
  \<open>ring_buffer_read\<close> stores the byte through its out-pointer: the result carries
  \<open>Some b\<close> when \<open>*data = b\<close> was executed, and \<open>data_ok\<close> says that the pointer is
  not null.
\<close>

definition ring_buffer_read ::
  "ring_buffer option \<Rightarrow> bool \<Rightarrow> (int \<times> u8 option \<times> ring_buffer option) res" where
  "ring_buffer_read handle data_ok =
     (case handle of
        None \<Rightarrow> ok (0, None, handle)
      | Some h \<Rightarrow>
          (case rb_buffer h of
             None \<Rightarrow> ok (0, None, handle)
           | Some buf \<Rightarrow>
               if \<not> data_ok then ok (0, None, handle)
               else if rb_read_index h = rb_write_index h then ok (0, None, handle)
               else rbind (arr_get buf (unat (rb_read_index h))) (\<lambda>b.
                    rbind (u32_mod (rb_read_index h + 1) (rb_capacity h)) (\<lambda>r.
                    ok (1, Some b, Some (h\<lparr>rb_read_index := r\<rparr>))))))"

text \<open>The \<open>unsigned\<close> count is returned as an \<open>int\<close>: two's complement conversion.\<close>

definition ring_buffer_data_count :: "ring_buffer option \<Rightarrow> int res" where
  "ring_buffer_data_count handle =
     (case handle of
        None \<Rightarrow> ok (-1)
      | Some h \<Rightarrow>
          if rb_buffer h = None then ok (-1)
          else rbind (u32_mod (rb_write_index h - rb_read_index h + rb_capacity h) (rb_capacity h))
                 (\<lambda>n. ok (sint n)))"

section \<open>Invariant and abstraction\<close>

definition rb_inv :: "ring_buffer \<Rightarrow> bool" where
  "rb_inv h \<longleftrightarrow>
     (\<exists>buf. rb_buffer h = Some buf \<and> length buf = unat (rb_capacity h)) \<and>
     2 \<le> unat (rb_capacity h) \<and>
     unat (rb_read_index h) < unat (rb_capacity h) \<and>
     unat (rb_write_index h) < unat (rb_capacity h)"

text \<open>The number of stored bytes and the bytes in the order they will be read.\<close>

definition rb_count :: "ring_buffer \<Rightarrow> nat" where
  "rb_count h =
     (unat (rb_write_index h) + unat (rb_capacity h) - unat (rb_read_index h)) mod unat (rb_capacity h)"

definition rb_contents :: "ring_buffer \<Rightarrow> u8 list" where
  "rb_contents h =
     map (\<lambda>i. the (rb_buffer h) ! ((unat (rb_read_index h) + i) mod unat (rb_capacity h)))
         [0..<rb_count h]"

lemma length_rb_contents [simp]: "length (rb_contents h) = rb_count h"
  by (simp add: rb_contents_def)

text \<open>Index arithmetic of the ring, over natural numbers.\<close>

lemma ring_dist_le:
  fixes r w c :: nat
  assumes "r \<le> w" "w < c"
  shows "(w + c - r) mod c = w - r"
proof -
  have "w + c - r = (w - r) + c" using assms by simp
  then show ?thesis using assms(2) by (metis less_imp_diff_less mod_add_self2 mod_less)
qed

lemma ring_dist_gt:
  fixes r w c :: nat
  assumes "w < r" "r < c"
  shows "(w + c - r) mod c = w + c - r"
  using assms by simp

lemma ring_count_succ:
  fixes r w c :: nat
  assumes "r < c" "w < c" "Suc w mod c \<noteq> r"
  shows "(Suc w mod c + c - r) mod c = Suc ((w + c - r) mod c)"
    and "(r + (w + c - r) mod c) mod c = w"
    and "Suc ((w + c - r) mod c) < c"
proof -
  consider "r \<le> w" "Suc w < c" | "w < r" "Suc w < r" | "Suc w = c" "0 < r" "r \<le> w"
    using assms by (metis Suc_lessI le_less_linear mod_less mod_self neq0_conv order_less_trans less_Suc_eq_le)
  then have "(Suc w mod c + c - r) mod c = Suc ((w + c - r) mod c) \<and>
    (r + (w + c - r) mod c) mod c = w \<and> Suc ((w + c - r) mod c) < c"
  proof cases
    case 1
    then show ?thesis using ring_dist_le [of r w c] ring_dist_le [of r "Suc w" c] by auto
  next
    case 2
    then show ?thesis using ring_dist_gt [of w r c] ring_dist_gt [of "Suc w" r c] assms by auto
  next
    case 3
    then show ?thesis using ring_dist_le [of r w c] ring_dist_gt [of 0 r c] assms by auto
  qed
  then show "(Suc w mod c + c - r) mod c = Suc ((w + c - r) mod c)"
    and "(r + (w + c - r) mod c) mod c = w"
    and "Suc ((w + c - r) mod c) < c" by auto
qed

lemma ring_count_pred:
  fixes r w c :: nat
  assumes "r < c" "w < c" "r \<noteq> w"
  shows "(w + c - r) mod c = Suc ((w + c - Suc r mod c) mod c)"
proof -
  consider "r < w" | "w < r" "Suc r < c" | "w < r" "Suc r = c" using assms by linarith
  then show ?thesis
  proof cases
    case 1
    then show ?thesis using ring_dist_le [of r w c] ring_dist_le [of "Suc r" w c] assms by auto
  next
    case 2
    then show ?thesis using ring_dist_gt [of w r c] ring_dist_gt [of w "Suc r" c] assms by auto
  next
    case 3
    then show ?thesis using ring_dist_gt [of w r c] ring_dist_le [of 0 w c] assms by auto
  qed
qed

lemma ring_index_neq:
  fixes r i j c :: nat
  assumes "i < c" "j < c" "i \<noteq> j"
  shows "(r + i) mod c \<noteq> (r + j) mod c"
  using assms by (simp add: nat_mod_eq_iff) (metis add_left_cancel mod_less nat_mod_eq_iff)


section \<open>Functional behaviour\<close>

lemma u32_mod_ok [simp]: "y \<noteq> 0 \<Longrightarrow> u32_mod x y = ok (x mod y)"
  by (simp add: u32_mod_def)

lemma rb_inv_capacity_nz: "rb_inv h \<Longrightarrow> rb_capacity h \<noteq> 0"
  by (auto simp: rb_inv_def)

lemma unat_next_index:
  assumes "unat i < unat c"
  shows "unat ((i + 1) mod c :: u32) = Suc (unat i) mod unat c"
  using assms by (simp add: unat_mod_distrib unat_Suc_lt)

lemma rb_count_lt: "rb_inv h \<Longrightarrow> rb_count h < unat (rb_capacity h)"
  by (simp add: rb_count_def rb_inv_def)

lemma ring_buffer_init_inv:
  assumes "length buf = unat cap" and "2 \<le> unat cap"
  shows "\<exists>h'. ring_buffer_init (Some h) (Some buf) cap = (1, Some h') \<and> rb_inv h' \<and>
           rb_contents h' = [] \<and> rb_capacity h' = cap"
  using assms by (auto simp: ring_buffer_init_def rb_inv_def rb_contents_def rb_count_def word_less_nat_alt)

text \<open>A byte offered to a ring that is not full is appended; a full ring is left alone.\<close>

lemma rb_full_iff:
  assumes "rb_inv h"
  shows "(rb_write_index h + 1) mod rb_capacity h = rb_read_index h \<longleftrightarrow>
         Suc (rb_count h) = unat (rb_capacity h)"
proof -
  let ?r = "unat (rb_read_index h)" and ?w = "unat (rb_write_index h)" and ?c = "unat (rb_capacity h)"
  have b: "?r < ?c" "?w < ?c" using assms by (auto simp: rb_inv_def)
  have "(rb_write_index h + 1) mod rb_capacity h = rb_read_index h \<longleftrightarrow> Suc ?w mod ?c = ?r"
    using b by (simp add: word_unat_eq_iff unat_next_index)
  also have "\<dots> \<longleftrightarrow> Suc (rb_count h) = ?c"
  proof
    assume e: "Suc ?w mod ?c = ?r"
    show "Suc (rb_count h) = ?c"
    proof (cases "Suc ?w = ?c")
      case True
      then show ?thesis using e b ring_dist_le [of 0 ?w ?c] by (simp add: rb_count_def)
    next
      case False
      then show ?thesis using e b by (simp add: rb_count_def)
    qed
  next
    assume "Suc (rb_count h) = ?c"
    then show "Suc ?w mod ?c = ?r"
      using ring_count_succ(3) [OF b] by (auto simp: rb_count_def)
  qed
  finally show ?thesis .
qed

lemma ring_buffer_write_full:
  assumes "rb_inv h" and "Suc (rb_count h) = unat (rb_capacity h)"
  shows "ring_buffer_write (Some h) b = ok (0, Some h)"
  using assms rb_full_iff [OF assms(1)] rb_inv_capacity_nz [OF assms(1)]
  by (auto simp: ring_buffer_write_def rb_inv_def)

lemma rb_contents_append:
  fixes b :: u8
  assumes inv: "rb_inv h" and room: "Suc (rb_count h) < unat (rb_capacity h)"
    and buf: "rb_buffer h = Some buf"
  defines "h' \<equiv> h\<lparr>rb_buffer := Some (buf[unat (rb_write_index h) := b]),
                 rb_write_index := (rb_write_index h + 1) mod rb_capacity h\<rparr>"
  shows "rb_inv h'" and "rb_contents h' = rb_contents h @ [b]"
proof -
  let ?r = "unat (rb_read_index h)" and ?w = "unat (rb_write_index h)" and ?c = "unat (rb_capacity h)"
  have b: "?r < ?c" "?w < ?c" "length buf = ?c" using inv buf by (auto simp: rb_inv_def)
  have ne: "Suc ?w mod ?c \<noteq> ?r"
    using rb_full_iff [OF inv] room b by (simp add: word_unat_eq_iff unat_next_index)
  note succ = ring_count_succ [OF b(1,2) ne]
  show "rb_inv h'" using inv b by (auto simp: rb_inv_def h'_def unat_next_index)
  have cnt: "rb_count h' = Suc (rb_count h)"
    using b succ(1) by (simp add: rb_count_def h'_def unat_next_index)
  have "buf[?w := b] ! ((?r + i) mod ?c) = (if i = rb_count h then b else buf ! ((?r + i) mod ?c))"
    if "i \<le> rb_count h" for i
    using that succ(2,3) b ring_index_neq [of i ?c "rb_count h" ?r] by (auto simp: rb_count_def nth_list_update)
  then show "rb_contents h' = rb_contents h @ [b]"
    using buf unfolding rb_contents_def cnt by (auto simp: h'_def)
qed

lemma ring_buffer_write_room:
  assumes "rb_inv h" and "Suc (rb_count h) < unat (rb_capacity h)"
  shows "\<exists>h'. ring_buffer_write (Some h) b = ok (1, Some h') \<and> rb_inv h' \<and>
           rb_contents h' = rb_contents h @ [b] \<and> rb_capacity h' = rb_capacity h"
proof -
  obtain buf where buf: "rb_buffer h = Some buf" "length buf = unat (rb_capacity h)"
    using assms by (auto simp: rb_inv_def)
  have "unat (rb_write_index h) < unat (rb_capacity h)" using assms by (simp add: rb_inv_def)
  then show ?thesis
    using assms rb_full_iff [OF assms(1)] rb_inv_capacity_nz [OF assms(1)] buf
      rb_contents_append [OF assms buf(1), of b]
    by (simp add: ring_buffer_write_def)
qed

lemma rb_empty_iff: "rb_inv h \<Longrightarrow> rb_read_index h = rb_write_index h \<longleftrightarrow> rb_count h = 0"
  using ring_count_pred [of "unat (rb_read_index h)" "unat (rb_capacity h)" "unat (rb_write_index h)"]
  by (cases "unat (rb_read_index h) = unat (rb_write_index h)")
    (simp_all add: rb_count_def rb_inv_def word_unat_eq_iff)

lemma ring_buffer_read_empty:
  "rb_inv h \<Longrightarrow> rb_contents h = [] \<Longrightarrow> ring_buffer_read (Some h) d = ok (0, None, Some h)"
  using rb_empty_iff [of h]
  by (auto simp: ring_buffer_read_def rb_contents_def split: option.splits)

lemma ring_buffer_read_cons:
  assumes "rb_inv h" and "rb_contents h = b # bs"
  shows "\<exists>h'. ring_buffer_read (Some h) True = ok (1, Some b, Some h') \<and> rb_inv h' \<and>
           rb_contents h' = bs \<and> rb_capacity h' = rb_capacity h"
proof -
  let ?r = "unat (rb_read_index h)" and ?w = "unat (rb_write_index h)" and ?c = "unat (rb_capacity h)"
  obtain buf where buf: "rb_buffer h = Some buf" "length buf = ?c"
    using assms by (auto simp: rb_inv_def)
  have b: "?r < ?c" "?w < ?c" using assms by (auto simp: rb_inv_def)
  have "rb_count h \<noteq> 0" using assms(2) length_rb_contents [of h] by auto
  then have ne: "rb_read_index h \<noteq> rb_write_index h" using rb_empty_iff [OF assms(1)] by simp
  define h' where "h' = h\<lparr>rb_read_index := (rb_read_index h + 1) mod rb_capacity h\<rparr>"
  have cnt: "rb_count h = Suc (rb_count h')"
    using ring_count_pred [OF b] ne b
    by (simp add: rb_count_def h'_def unat_next_index word_unat_eq_iff)
  have "rb_contents h = buf ! ?r # rb_contents h'"
    using b buf unfolding rb_contents_def cnt
    by (simp add: upt_conv_Cons map_Suc_upt [symmetric] h'_def unat_next_index mod_simps del: upt_Suc)
  then have "b = buf ! ?r" "rb_contents h' = bs" using assms(2) by auto
  moreover have "rb_inv h'" using assms b by (auto simp: rb_inv_def h'_def unat_next_index)
  ultimately show ?thesis
    using ne buf b rb_inv_capacity_nz [OF assms(1)] by (auto simp: ring_buffer_read_def h'_def)
qed


section \<open>The data count and its 32-bit arithmetic\<close>

lemma unat_count_word:
  assumes "rb_inv h" and "unat (rb_capacity h) \<le> 2 ^ 31"
  shows "unat (rb_write_index h - rb_read_index h + rb_capacity h) =
    unat (rb_write_index h) + unat (rb_capacity h) - unat (rb_read_index h)"
proof -
  let ?r = "rb_read_index h" and ?w = "rb_write_index h" and ?c = "rb_capacity h"
  have b: "unat ?r < unat ?c" "unat ?w < unat ?c" using assms by (auto simp: rb_inv_def)
  have sum: "unat (?w + ?c) = unat ?w + unat ?c" using b assms(2) by (simp add: unat_word_ariths)
  then have "?r \<le> ?w + ?c" using b by (simp add: word_le_nat_alt)
  then have "unat (?w + ?c - ?r) = unat ?w + unat ?c - unat ?r" using sum by (simp add: unat_sub)
  then show ?thesis by (simp add: algebra_simps)
qed

lemma sint_small_word:
  assumes "unat (x::u32) < 2 ^ 31"
  shows "sint x = int (unat x)"
proof -
  have i: "int (unat x) = uint x" by simp
  have "unat x < 2147483648" using assms by simp
  then have u: "uint x < 2147483648" "- 2147483648 \<le> uint x" using i by linarith+
  have "signed_take_bit 31 (uint x) = uint x"
    by (rule signed_take_bit_int_eq_self) (use u in simp_all)
  then show ?thesis unfolding sint_uint i by simp
qed

lemma data_count_word:
  assumes "rb_inv h"
  shows "ring_buffer_data_count (Some h) =
    ok (sint ((rb_write_index h - rb_read_index h + rb_capacity h) mod rb_capacity h))"
  using assms rb_inv_capacity_nz [OF assms] by (auto simp: ring_buffer_data_count_def rb_inv_def)

section \<open>The FIFO interface\<close>

text \<open>
  What the interrupt side and the event loop rely on.  \<open>write_loop\<close> is the loop by which
  a client offers several elements and stops at the first refusal.
\<close>

fun write_loop ::
  "('q \<Rightarrow> 'a \<Rightarrow> (int \<times> 'q) res) \<Rightarrow> 'q \<Rightarrow> 'a list \<Rightarrow> int \<Rightarrow> (bool \<times> int \<times> 'q) res" where
  "write_loop enq q [] count = ok (True, count, q)"
| "write_loop enq q (x # xs) count =
     rbind (enq q x) (\<lambda>(r, q').
     if r = 0 then ok (False, count, q') else write_loop enq q' xs (count + 1))"

locale bounded_fifo =
  fixes enq :: "'q \<Rightarrow> 'a \<Rightarrow> (int \<times> 'q) res"
    and deq :: "'q \<Rightarrow> (int \<times> 'a option \<times> 'q) res"
    and contents :: "'q \<Rightarrow> 'a list"
    and room :: "'q \<Rightarrow> nat"
    and inv :: "'q \<Rightarrow> bool"
  assumes bounded: "inv q \<Longrightarrow> length (contents q) \<le> room q"
    and enq_room: "inv q \<Longrightarrow> length (contents q) < room q \<Longrightarrow>
      runs (enq q x) (\<lambda>(r, q'). r = 1 \<and> inv q' \<and> contents q' = contents q @ [x] \<and> room q' = room q)"
    and enq_full: "inv q \<Longrightarrow> length (contents q) = room q \<Longrightarrow> enq q x = ok (0, q)"
    and deq_empty: "inv q \<Longrightarrow> contents q = [] \<Longrightarrow> deq q = ok (0, None, q)"
    and deq_cons: "inv q \<Longrightarrow> contents q = x # xs \<Longrightarrow>
      runs (deq q) (\<lambda>(r, y, q'). r = 1 \<and> y = Some x \<and> inv q' \<and> contents q' = xs \<and> room q' = room q)"
begin

text \<open>Every offer either appends or leaves the queue unchanged, and is never undefined.\<close>

lemma enq_cases:
  assumes "inv q"
  shows "runs (enq q x) (\<lambda>(r, q'). inv q' \<and> room q' = room q \<and>
    contents q' = contents q @ (if r = 0 then [] else [x]) \<and>
    (r = 0 \<longleftrightarrow> length (contents q) = room q) \<and> (r = 0 \<or> r = 1))"
proof (cases "length (contents q) = room q")
  case True
  then show ?thesis using enq_full assms by simp
next
  case False
  then have "length (contents q) < room q" using bounded [OF assms] by simp
  from enq_room [OF assms this, of x] show ?thesis using False by (auto elim!: runs_mono)
qed

lemma write_loop_spec:
  assumes "inv q"
  shows "runs (write_loop enq q xs n) (\<lambda>(done, n', q').
    inv q' \<and> room q' = room q \<and>
    contents q' = contents q @ take (room q - length (contents q)) xs \<and>
    n' = n + int (min (length xs) (room q - length (contents q))) \<and>
    (done \<longleftrightarrow> length xs \<le> room q - length (contents q)))"
  using assms
proof (induction xs arbitrary: q n)
  case Nil
  then show ?case by simp
next
  case (Cons x xs)
  show ?case
  proof (cases "length (contents q) = room q")
    case True
    then show ?thesis using Cons.prems by (simp add: enq_full)
  next
    case False
    then have lt: "length (contents q) < room q" using bounded [OF Cons.prems] by simp
    from enq_room [OF Cons.prems lt, of x] obtain q1 where
      q1: "enq q x = ok (1, q1)" "inv q1" "contents q1 = contents q @ [x]" "room q1 = room q"
      by (auto simp: runs_iff)
    obtain d where d: "room q - length (contents q) = Suc d" using lt by (metis Suc_diff_Suc)
    with q1 have d1: "room q1 - length (contents q1) = d" by simp
    show ?thesis using Cons.IH [OF q1(2), of "n + 1"] q1 d unfolding d1
      by (auto elim!: runs_mono)
  qed
qed

text \<open>What goes in comes out, in order: a write followed by enough reads.\<close>

lemma deq_after_enq:
  assumes "inv q" and "contents q = []" and "0 < room q"
  shows "runs (rbind (enq q x) (\<lambda>(r, q'). deq q')) (\<lambda>(r, y, q'). r = 1 \<and> y = Some x \<and> contents q' = [])"
proof -
  from enq_room [OF assms(1), of x] assms obtain q1 where
    "enq q x = ok (1, q1)" "inv q1" "contents q1 = [x]" by (auto simp: runs_iff)
  then show ?thesis using deq_cons [of q1 x "[]"] by (auto elim!: runs_mono)
qed

end

definition rb_option_inv :: "ring_buffer option \<Rightarrow> bool" where
  "rb_option_inv ho \<longleftrightarrow> (\<exists>h. ho = Some h \<and> rb_inv h)"

definition rb_room :: "ring_buffer option \<Rightarrow> nat" where
  "rb_room ho = unat (rb_capacity (the ho)) - 1"

interpretation ring: bounded_fifo ring_buffer_write "\<lambda>q. ring_buffer_read q True"
  "\<lambda>q. rb_contents (the q)" rb_room rb_option_inv
proof unfold_locales
  fix q :: "ring_buffer option" and x :: u8 and xs
  assume inv: "rb_option_inv q"
  then obtain h where h: "q = Some h" "rb_inv h" by (auto simp: rb_option_inv_def)
  show "length (rb_contents (the q)) \<le> rb_room q"
    using rb_count_lt [OF h(2)] h by (simp add: rb_room_def)
  show "length (rb_contents (the q)) < rb_room q \<Longrightarrow> runs (ring_buffer_write q x)
      (\<lambda>(r, q'). r = 1 \<and> rb_option_inv q' \<and> rb_contents (the q') = rb_contents (the q) @ [x] \<and>
        rb_room q' = rb_room q)"
    using ring_buffer_write_room [of h x] h
    by (cases "Suc (rb_count h) < unat (rb_capacity h)") (auto simp: rb_room_def rb_option_inv_def runs_iff)
  show "length (rb_contents (the q)) = rb_room q \<Longrightarrow> ring_buffer_write q x = ok (0, q)"
    using ring_buffer_write_full [of h x] rb_count_lt [OF h(2)] h by (auto simp: rb_room_def)
  show "rb_contents (the q) = [] \<Longrightarrow> ring_buffer_read q True = ok (0, None, q)"
    using ring_buffer_read_empty h by simp
  show "rb_contents (the q) = x # xs \<Longrightarrow> runs (ring_buffer_read q True)
      (\<lambda>(r, y, q'). r = 1 \<and> y = Some x \<and> rb_option_inv q' \<and> rb_contents (the q') = xs \<and>
        rb_room q' = rb_room q)"
    using ring_buffer_read_cons [of h x xs] h by (auto simp: rb_room_def rb_option_inv_def runs_iff)
qed


section \<open>Properties\<close>

text \<open>
  C17: The ring is a bounded FIFO.  On a well-formed ring \<open>ring_buffer_write\<close> is defined,
  refuses the byte exactly when \<open>capacity - 1\<close> bytes are stored (and then changes
  nothing), and otherwise appends it.
\<close>

theorem ring_write_refines_fifo:
  assumes "rb_inv h"
  shows "\<exists>r h'. ring_buffer_write (Some h) b = ok (r, Some h') \<and> rb_inv h' \<and>
    rb_capacity h' = rb_capacity h \<and>
    (if length (rb_contents h) = unat (rb_capacity h) - 1
     then r = 0 \<and> h' = h
     else r = 1 \<and> rb_contents h' = rb_contents h @ [b])"
proof (cases "Suc (rb_count h) = unat (rb_capacity h)")
  case True
  then show ?thesis using ring_buffer_write_full [OF assms] assms by auto
next
  case False
  then show ?thesis
    using ring_buffer_write_room [OF assms, of b] rb_count_lt [OF assms] by fastforce
qed

definition demo_ring :: ring_buffer where
  "demo_ring = \<lparr>rb_buffer = Some [7, 8, 9], rb_capacity = 3, rb_read_index = 2, rb_write_index = 0\<rparr>"

theorem ring_write_refines_fifo_witness:
  "\<exists>r h'. ring_buffer_write (Some demo_ring) 5 = ok (r, Some h') \<and> r = 1 \<and>
     rb_contents h' = [9, 5]"
proof -
  have "rb_inv demo_ring" by (simp add: rb_inv_def demo_ring_def)
  moreover have "rb_contents demo_ring = [9]"
    by (simp add: rb_contents_def rb_count_def demo_ring_def)
  ultimately show ?thesis using ring_write_refines_fifo [of demo_ring 5] by (auto simp: demo_ring_def)
qed

text \<open>
  C20: \<open>ring_buffer_read\<close> is the FIFO's dequeue: it returns 0 and changes nothing on an
  empty ring, and otherwise delivers the oldest byte and removes exactly that byte.
\<close>

theorem ring_read_refines_fifo:
  assumes "rb_inv h"
  shows "case rb_contents h of
      [] \<Rightarrow> ring_buffer_read (Some h) True = ok (0, None, Some h)
    | b # bs \<Rightarrow> \<exists>h'. ring_buffer_read (Some h) True = ok (1, Some b, Some h') \<and> rb_inv h' \<and>
                  rb_contents h' = bs \<and> rb_capacity h' = rb_capacity h"
  using ring_buffer_read_empty [OF assms] ring_buffer_read_cons [OF assms]
  by (auto split: list.split)

theorem ring_read_refines_fifo_witness:
  "\<exists>h'. ring_buffer_read (Some demo_ring) True = ok (1, Some 9, Some h') \<and> rb_contents h' = []"
proof -
  have "rb_inv demo_ring" by (simp add: rb_inv_def demo_ring_def)
  moreover have "rb_contents demo_ring = [9]"
    by (simp add: rb_contents_def rb_count_def demo_ring_def)
  ultimately show ?thesis using ring_read_refines_fifo [of demo_ring] by auto
qed

text \<open>
  The 32-bit expression \<open>(write - read + capacity) % capacity\<close>, with its intermediate
  wrap-around and the conversion to \<open>int\<close>, is the number of stored bytes for every
  capacity up to \<open>2^31\<close>.
\<close>

theorem data_count_correct:
  assumes "rb_inv h" and "unat (rb_capacity h) \<le> 2 ^ 31"
  shows "ring_buffer_data_count (Some h) = ok (int (length (rb_contents h)))"
proof -
  let ?n = "(rb_write_index h - rb_read_index h + rb_capacity h) mod rb_capacity h"
  have n: "unat ?n = rb_count h"
    by (simp add: unat_mod_distrib unat_count_word [OF assms] rb_count_def)
  then have "unat ?n < 2 ^ 31" using rb_count_lt [OF assms(1)] assms(2) by simp
  then show ?thesis using data_count_word [OF assms(1)] n by (simp add: sint_small_word)
qed

theorem data_count_correct_witness: "ring_buffer_data_count (Some demo_ring) = ok 1"
proof -
  have "rb_inv demo_ring" by (simp add: rb_inv_def demo_ring_def)
  moreover have "length (rb_contents demo_ring) = 1"
    by (simp add: rb_count_def demo_ring_def)
  ultimately show ?thesis using data_count_correct [of demo_ring] by (simp add: demo_ring_def)
qed

definition huge_ring :: ring_buffer where
  "huge_ring = \<lparr>rb_buffer = Some (replicate 3221225472 0), rb_capacity = 3221225472,
                rb_read_index = 0, rb_write_index = 1073741824\<rparr>"

text \<open>
  The bound of the count is needed.  \<open>ring_buffer_init\<close> accepts every capacity, but
  a ring of \<open>3 * 2^30\<close> cells that holds \<open>2^30\<close> bytes reports that it is empty, because
  the 32-bit sum wraps to zero.
\<close>

theorem data_count_wraps:
  "rb_inv huge_ring \<and> length (rb_contents huge_ring) = 1073741824 \<and>
   ring_buffer_data_count (Some huge_ring) = ok 0"
  by (simp add: rb_inv_def huge_ring_def rb_count_def ring_buffer_data_count_def)

end
