(* ===== verification/Ring_Buffer_Spsc.thy ===== *)
theory Ring_Buffer_Spsc
  imports Ring_Buffer
begin

text \<open>
  The ring under concurrency.  \<open>ring_buffer_write\<close> runs in the UART interrupt and
  \<open>ring_buffer_read\<close> in the thread of the event loop, without a lock.  Here each of the
  two functions is cut at its accesses to the shared \<open>volatile\<close> indices and to the
  buffer, and the two are interleaved arbitrarily (sequentially consistent, one producer,
  one consumer).  The theorems state that no interleaving loses, duplicates, reorders or
  tears a byte, and that neither side ever leaves the array.
\<close>

section \<open>The interleaved system\<close>

text \<open>Program points of the two functions, with the values held in local variables.\<close>

datatype producer =
    P_Idle
  | P_Check u8 u32    \<comment> \<open>\<open>next_write\<close> computed; about to compare it with \<open>read_index\<close>\<close>
  | P_Store u8 u32    \<comment> \<open>not full; about to store the byte\<close>
  | P_Commit u8 u32   \<comment> \<open>stored; about to publish \<open>write_index\<close>\<close>

datatype consumer =
    C_Idle
  | C_Load            \<comment> \<open>not empty; about to load the byte\<close>
  | C_Commit u8       \<comment> \<open>loaded; about to publish \<open>read_index\<close>\<close>

record spsc =
  sp_ring :: ring_buffer
  sp_prod :: producer
  sp_cons :: consumer
  sp_sent :: "u8 list"   \<comment> \<open>history: bytes whose write returned 1\<close>
  sp_recv :: "u8 list"   \<comment> \<open>history: bytes whose read returned 1\<close>

inductive spsc_step :: "spsc \<Rightarrow> spsc \<Rightarrow> bool" where
  p_begin: "sp_prod s = P_Idle \<Longrightarrow>
    u32_mod (rb_write_index (sp_ring s) + 1) (rb_capacity (sp_ring s)) = ok nw \<Longrightarrow>
    spsc_step s (s\<lparr>sp_prod := P_Check b nw\<rparr>)"
| p_full: "sp_prod s = P_Check b nw \<Longrightarrow> nw = rb_read_index (sp_ring s) \<Longrightarrow>
    spsc_step s (s\<lparr>sp_prod := P_Idle\<rparr>)"
| p_room: "sp_prod s = P_Check b nw \<Longrightarrow> nw \<noteq> rb_read_index (sp_ring s) \<Longrightarrow>
    spsc_step s (s\<lparr>sp_prod := P_Store b nw\<rparr>)"
| p_store: "sp_prod s = P_Store b nw \<Longrightarrow> rb_buffer (sp_ring s) = Some buf \<Longrightarrow>
    arr_set buf (unat (rb_write_index (sp_ring s))) b = ok buf' \<Longrightarrow>
    spsc_step s (s\<lparr>sp_ring := (sp_ring s)\<lparr>rb_buffer := Some buf'\<rparr>, sp_prod := P_Commit b nw\<rparr>)"
| p_commit: "sp_prod s = P_Commit b nw \<Longrightarrow>
    spsc_step s (s\<lparr>sp_ring := (sp_ring s)\<lparr>rb_write_index := nw\<rparr>, sp_prod := P_Idle,
                   sp_sent := sp_sent s @ [b]\<rparr>)"
| c_empty: "sp_cons s = C_Idle \<Longrightarrow>
    rb_read_index (sp_ring s) = rb_write_index (sp_ring s) \<Longrightarrow> spsc_step s s"
| c_begin: "sp_cons s = C_Idle \<Longrightarrow>
    rb_read_index (sp_ring s) \<noteq> rb_write_index (sp_ring s) \<Longrightarrow>
    spsc_step s (s\<lparr>sp_cons := C_Load\<rparr>)"
| c_load: "sp_cons s = C_Load \<Longrightarrow> rb_buffer (sp_ring s) = Some buf \<Longrightarrow>
    arr_get buf (unat (rb_read_index (sp_ring s))) = ok b \<Longrightarrow>
    spsc_step s (s\<lparr>sp_cons := C_Commit b\<rparr>)"
| c_commit: "sp_cons s = C_Commit b \<Longrightarrow>
    u32_mod (rb_read_index (sp_ring s) + 1) (rb_capacity (sp_ring s)) = ok r \<Longrightarrow>
    spsc_step s (s\<lparr>sp_ring := (sp_ring s)\<lparr>rb_read_index := r\<rparr>, sp_cons := C_Idle,
                   sp_recv := sp_recv s @ [b]\<rparr>)"

text \<open>The start: a ring fresh from \<open>ring_buffer_init\<close>, both sides idle.\<close>

definition spsc_start :: "ring_buffer \<Rightarrow> spsc" where
  "spsc_start h = \<lparr>sp_ring = h, sp_prod = P_Idle, sp_cons = C_Idle, sp_sent = [], sp_recv = []\<rparr>"

inductive spsc_reachable :: "ring_buffer \<Rightarrow> spsc \<Rightarrow> bool" for h where
  start: "spsc_reachable h (spsc_start h)"
| step: "spsc_reachable h s \<Longrightarrow> spsc_step s t \<Longrightarrow> spsc_reachable h t"

section \<open>The invariant\<close>

definition prod_inv :: "ring_buffer \<Rightarrow> producer \<Rightarrow> bool" where
  "prod_inv h p \<longleftrightarrow>
     (case p of
        P_Idle \<Rightarrow> True
      | P_Check b nw \<Rightarrow> nw = (rb_write_index h + 1) mod rb_capacity h
      | P_Store b nw \<Rightarrow> nw = (rb_write_index h + 1) mod rb_capacity h \<and>
          Suc (rb_count h) < unat (rb_capacity h)
      | P_Commit b nw \<Rightarrow> nw = (rb_write_index h + 1) mod rb_capacity h \<and>
          Suc (rb_count h) < unat (rb_capacity h) \<and>
          the (rb_buffer h) ! unat (rb_write_index h) = b)"

definition cons_inv :: "ring_buffer \<Rightarrow> consumer \<Rightarrow> bool" where
  "cons_inv h c \<longleftrightarrow>
     (case c of
        C_Idle \<Rightarrow> True
      | C_Load \<Rightarrow> rb_count h \<noteq> 0
      | C_Commit b \<Rightarrow> rb_count h \<noteq> 0 \<and> the (rb_buffer h) ! unat (rb_read_index h) = b)"

definition spsc_inv :: "spsc \<Rightarrow> bool" where
  "spsc_inv s \<longleftrightarrow> rb_inv (sp_ring s) \<and> prod_inv (sp_ring s) (sp_prod s) \<and>
     cons_inv (sp_ring s) (sp_cons s) \<and> sp_sent s = sp_recv s @ rb_contents (sp_ring s)"

lemmas spsc_inv_defs = spsc_inv_def prod_inv_def cons_inv_def

text \<open>The store of the producer goes to a cell that holds no pending byte.\<close>

lemma rb_store_inv:
  assumes "rb_inv h" and "rb_buffer h = Some buf"
  shows "rb_inv (h\<lparr>rb_buffer := Some (buf[unat (rb_write_index h) := b])\<rparr>)"
    and "rb_count (h\<lparr>rb_buffer := Some (buf[unat (rb_write_index h) := b])\<rparr>) = rb_count h"
  using assms by (auto simp: rb_inv_def rb_count_def)

lemma rb_pending_cell:
  assumes "rb_inv h" and "Suc (rb_count h) < unat (rb_capacity h)" and "i < rb_count h"
  shows "(unat (rb_read_index h) + i) mod unat (rb_capacity h) \<noteq> unat (rb_write_index h)"
proof -
  have b: "unat (rb_read_index h) < unat (rb_capacity h)" "unat (rb_write_index h) < unat (rb_capacity h)"
    using assms(1) by (auto simp: rb_inv_def)
  have "Suc (unat (rb_write_index h)) mod unat (rb_capacity h) \<noteq> unat (rb_read_index h)"
    using rb_full_iff [OF assms(1)] assms(2) b by (simp add: word_unat_eq_iff unat_next_index)
  from ring_count_succ(2) [OF b this] show ?thesis
    using ring_index_neq [of i "unat (rb_capacity h)" "rb_count h" "unat (rb_read_index h)"] assms(2,3)
    by (auto simp: rb_count_def)
qed

lemma rb_store_contents:
  assumes "rb_inv h" and "Suc (rb_count h) < unat (rb_capacity h)" and "rb_buffer h = Some buf"
  shows "rb_contents (h\<lparr>rb_buffer := Some (buf[unat (rb_write_index h) := b])\<rparr>) = rb_contents h"
  using assms rb_pending_cell [OF assms(1,2), THEN not_sym]
  by (auto simp: rb_contents_def rb_store_inv(2) [OF assms(1,3)])

text \<open>The commit of the producer publishes the stored byte.\<close>

lemma rb_commit_write:
  assumes "rb_inv h" and "Suc (rb_count h) < unat (rb_capacity h)"
  defines "h' \<equiv> h\<lparr>rb_write_index := (rb_write_index h + 1) mod rb_capacity h\<rparr>"
  shows "rb_inv h'" and "rb_contents h' = rb_contents h @ [the (rb_buffer h) ! unat (rb_write_index h)]"
    and "rb_count h' = Suc (rb_count h)"
proof -
  obtain buf where buf: "rb_buffer h = Some buf" using assms(1) by (auto simp: rb_inv_def)
  then have "h' = h\<lparr>rb_buffer := Some (buf[unat (rb_write_index h) := buf ! unat (rb_write_index h)]),
    rb_write_index := (rb_write_index h + 1) mod rb_capacity h\<rparr>" by (simp add: h'_def)
  then show "rb_inv h'" "rb_contents h' = rb_contents h @ [the (rb_buffer h) ! unat (rb_write_index h)]"
    using rb_contents_append [OF assms(1,2) buf, of "buf ! unat (rb_write_index h)"] buf by simp_all
  then show "rb_count h' = Suc (rb_count h)" by (metis length_append_singleton length_rb_contents)
qed

text \<open>The commit of the consumer removes the oldest byte.\<close>

lemma rb_commit_read:
  assumes "rb_inv h" and "rb_count h \<noteq> 0"
  defines "h' \<equiv> h\<lparr>rb_read_index := (rb_read_index h + 1) mod rb_capacity h\<rparr>"
  shows "rb_inv h'" and "rb_contents h = the (rb_buffer h) ! unat (rb_read_index h) # rb_contents h'"
    and "rb_count h = Suc (rb_count h')"
proof -
  obtain buf where buf: "rb_buffer h = Some buf" "length buf = unat (rb_capacity h)"
    using assms(1) by (auto simp: rb_inv_def)
  have b: "unat (rb_read_index h) < unat (rb_capacity h)" using assms(1) by (simp add: rb_inv_def)
  obtain x xs where c: "rb_contents h = x # xs"
    using assms(2) length_rb_contents [of h] by (cases "rb_contents h") auto
  have ne: "rb_read_index h \<noteq> rb_write_index h" using rb_empty_iff assms(1,2) by auto
  have "ring_buffer_read (Some h) True = ok (1, Some (buf ! unat (rb_read_index h)), Some h')"
    using buf b ne rb_inv_capacity_nz [OF assms(1)] by (simp add: ring_buffer_read_def h'_def)
  then show "rb_inv h'" "rb_contents h = the (rb_buffer h) ! unat (rb_read_index h) # rb_contents h'"
    using ring_buffer_read_cons [OF assms(1) c] c buf by auto
  then show "rb_count h = Suc (rb_count h')" by (metis length_Cons length_rb_contents)
qed

text \<open>
  Every step keeps the invariant: the producer's steps do not disturb what the consumer
  knows (the ring stays non-empty, the cell being loaded keeps its byte), and the
  consumer's steps do not disturb what the producer knows (the ring stays non-full).
\<close>

lemma cons_inv_store:
  assumes "rb_inv h" and "Suc (rb_count h) < unat (rb_capacity h)" and "rb_buffer h = Some buf"
    and "cons_inv h c"
  shows "cons_inv (h\<lparr>rb_buffer := Some (buf[unat (rb_write_index h) := b])\<rparr>) c"
proof -
  have "unat (rb_read_index h) \<noteq> unat (rb_write_index h)" if "rb_count h \<noteq> 0"
    using rb_pending_cell [OF assms(1,2), of 0] that assms(1) by (simp add: rb_inv_def)
  then show ?thesis using assms rb_store_inv(2) [OF assms(1,3)]
    by (auto simp: cons_inv_def split: consumer.splits)
qed

lemma spsc_step_inv: "spsc_step s t \<Longrightarrow> spsc_inv s \<Longrightarrow> spsc_inv t"
proof (induction rule: spsc_step.induct)
  case (p_begin s nw b)
  then show ?case using rb_inv_capacity_nz by (auto simp: spsc_inv_defs)
next
  case (p_room s b nw)
  then show ?case using rb_full_iff [of "sp_ring s"] rb_count_lt [of "sp_ring s"]
    by (auto simp: spsc_inv_defs)
next
  case (p_store s b nw buf buf')
  then have r: "rb_inv (sp_ring s)" "Suc (rb_count (sp_ring s)) < unat (rb_capacity (sp_ring s))"
    and idx: "unat (rb_write_index (sp_ring s)) < length buf"
    and buf': "buf' = buf[unat (rb_write_index (sp_ring s)) := b]"
    by (auto simp: spsc_inv_defs rb_inv_def arr_set_def)
  show ?case
    using p_store idx rb_store_inv [OF r(1) p_store(2)] rb_store_contents [OF r p_store(2)]
      cons_inv_store [OF r p_store(2)] unfolding buf' by (auto simp: spsc_inv_def prod_inv_def)
next
  case (p_commit s b nw)
  then have r: "rb_inv (sp_ring s)" "Suc (rb_count (sp_ring s)) < unat (rb_capacity (sp_ring s))"
    by (auto simp: spsc_inv_defs)
  show ?case using p_commit rb_commit_write [OF r]
    by (auto simp: spsc_inv_defs split: consumer.splits)
next
  case (c_begin s)
  then show ?case using rb_empty_iff [of "sp_ring s"] by (auto simp: spsc_inv_defs)
next
  case (c_load s buf b)
  then show ?case by (auto simp: spsc_inv_defs arr_get_def split: if_splits)
next
  case (c_commit s b r)
  then have q: "rb_inv (sp_ring s)" "rb_count (sp_ring s) \<noteq> 0" by (auto simp: spsc_inv_defs)
  show ?case using c_commit rb_commit_read [OF q] rb_inv_capacity_nz [OF q(1)]
    by (auto simp: spsc_inv_defs split: producer.splits)
qed (auto simp: spsc_inv_defs)

lemma spsc_reachable_inv:
  assumes "rb_inv h" and "rb_contents h = []" and "spsc_reachable h s"
  shows "spsc_inv s"
  using assms(3)
proof (induction rule: spsc_reachable.induct)
  case start
  then show ?case using assms(1,2) by (simp add: spsc_inv_defs spsc_start_def)
next
  case (step s t)
  then show ?case by (blast intro: spsc_step_inv)
qed

lemma spsc_reachable_capacity:
  "spsc_reachable h s \<Longrightarrow> rb_capacity (sp_ring s) = rb_capacity h"
  by (induction rule: spsc_reachable.induct)
    (auto simp: spsc_start_def elim!: spsc_step.cases)

section \<open>Properties\<close>

text \<open>
  C21: Whatever the interleaving of the interrupt with the event loop, the bytes delivered
  so far followed by the bytes in the ring are exactly the bytes accepted so far, in
  order, and at most \<open>capacity - 1\<close> of them are pending.
\<close>

theorem spsc_no_loss:
  assumes "rb_inv h" and "rb_contents h = []" and "spsc_reachable h s"
  shows "sp_sent s = sp_recv s @ rb_contents (sp_ring s) \<and>
    length (rb_contents (sp_ring s)) < unat (rb_capacity h)"
  using spsc_reachable_inv [OF assms] spsc_reachable_capacity [OF assms(3)] rb_count_lt [of "sp_ring s"]
  by (simp add: spsc_inv_def)

definition spsc_demo_ring :: ring_buffer where
  "spsc_demo_ring = \<lparr>rb_buffer = Some [0, 0], rb_capacity = 2, rb_read_index = 0, rb_write_index = 0\<rparr>"

lemma spsc_demo_ring_ok: "rb_inv spsc_demo_ring" "rb_contents spsc_demo_ring = []"
  by (simp_all add: rb_inv_def rb_contents_def rb_count_def spsc_demo_ring_def)

text \<open>The interrupt alone, from idle to idle: it does what \<open>ring_buffer_write\<close> does.\<close>

lemma spsc_write_run:
  assumes h: "sp_ring s = h" "rb_inv h" and idle: "sp_prod s = P_Idle"
    and w: "ring_buffer_write (Some h) b = ok (r, Some h')"
  shows "spsc_step\<^sup>*\<^sup>* s (s\<lparr>sp_ring := h', sp_sent := sp_sent s @ (if r = 1 then [b] else [])\<rparr>)"
proof -
  let ?nw = "(rb_write_index h + 1) mod rb_capacity h"
  obtain buf where buf: "rb_buffer h = Some buf" "length buf = unat (rb_capacity h)"
    using h by (auto simp: rb_inv_def)
  have idx: "unat (rb_write_index h) < length buf" using h buf by (simp add: rb_inv_def)
  have "spsc_step s (s\<lparr>sp_prod := P_Check b ?nw\<rparr>)"
    using h idle rb_inv_capacity_nz by (auto intro: p_begin)
  then have 1: "spsc_step\<^sup>*\<^sup>* (s\<lparr>sp_prod := P_Check b ?nw\<rparr>) t \<Longrightarrow> spsc_step\<^sup>*\<^sup>* s t" for t
    by (rule converse_rtranclp_into_rtranclp)
  show ?thesis
  proof (cases "?nw = rb_read_index h")
    case True
    have "spsc_step (s\<lparr>sp_prod := P_Check b ?nw\<rparr>) s"
      using spsc_step.p_full [of "s\<lparr>sp_prod := P_Check b ?nw\<rparr>" b ?nw] True h idle by (cases s) simp
    then have "spsc_step\<^sup>*\<^sup>* s s" by blast
    moreover have "r = 0 \<and> h' = h" using w True buf idx rb_inv_capacity_nz [OF h(2)]
      by (simp add: ring_buffer_write_def)
    ultimately show ?thesis using h by (cases s) simp
  next
    case False
    let ?s2 = "s\<lparr>sp_prod := P_Store b ?nw\<rparr>"
    let ?s3 = "s\<lparr>sp_ring := h\<lparr>rb_buffer := Some (buf[unat (rb_write_index h) := b])\<rparr>,
                sp_prod := P_Commit b ?nw\<rparr>"
    have 2: "spsc_step (s\<lparr>sp_prod := P_Check b ?nw\<rparr>) ?s2"
      using spsc_step.p_room [of "s\<lparr>sp_prod := P_Check b ?nw\<rparr>" b ?nw] False h by simp
    have 3: "spsc_step ?s2 ?s3"
      using spsc_step.p_store [of ?s2 b ?nw buf] h buf idx by simp
    have h': "r = 1 \<and> h' = h\<lparr>rb_buffer := Some (buf[unat (rb_write_index h) := b]), rb_write_index := ?nw\<rparr>"
      using w False buf idx rb_inv_capacity_nz [OF h(2)] by (simp add: ring_buffer_write_def)
    have 4: "spsc_step ?s3 (s\<lparr>sp_ring := h', sp_sent := sp_sent s @ [b]\<rparr>)"
      using spsc_step.p_commit [of ?s3 b ?nw] h' idle by (cases s) simp
    have "spsc_step\<^sup>*\<^sup>* s (s\<lparr>sp_ring := h', sp_sent := sp_sent s @ [b]\<rparr>)"
      by (rule 1, rule converse_rtranclp_into_rtranclp, rule 2,
          rule converse_rtranclp_into_rtranclp, rule 3, rule r_into_rtranclp, rule 4)
    then show ?thesis using h' by simp
  qed
qed

text \<open>The event loop alone, from idle to idle: it does what \<open>ring_buffer_read\<close> does.\<close>

lemma spsc_read_run:
  assumes h: "sp_ring s = h" "rb_inv h" and idle: "sp_cons s = C_Idle"
    and r: "ring_buffer_read (Some h) True = ok (n, x, Some h')"
  shows "spsc_step\<^sup>*\<^sup>* s (s\<lparr>sp_ring := h', sp_recv := sp_recv s @ (case x of None \<Rightarrow> [] | Some b \<Rightarrow> [b])\<rparr>)"
proof -
  let ?nr = "(rb_read_index h + 1) mod rb_capacity h"
  obtain buf where buf: "rb_buffer h = Some buf" "length buf = unat (rb_capacity h)"
    using h by (auto simp: rb_inv_def)
  have idx: "unat (rb_read_index h) < length buf" using h buf by (simp add: rb_inv_def)
  show ?thesis
  proof (cases "rb_read_index h = rb_write_index h")
    case True
    then have "x = None \<and> h' = h" using r buf by (simp add: ring_buffer_read_def)
    then show ?thesis using h by (cases s) simp
  next
    case False
    let ?b = "buf ! unat (rb_read_index h)"
    let ?s1 = "s\<lparr>sp_cons := C_Load\<rparr>" and ?s2 = "s\<lparr>sp_cons := C_Commit ?b\<rparr>"
    have 1: "spsc_step s ?s1" by (rule c_begin) (use False h idle in simp_all)
    have 2: "spsc_step ?s1 ?s2" using spsc_step.c_load [of ?s1 buf ?b] h buf idx by (simp add: arr_get_def)
    have h': "x = Some ?b \<and> h' = h\<lparr>rb_read_index := ?nr\<rparr>"
      using r False buf idx rb_inv_capacity_nz [OF h(2)] by (simp add: ring_buffer_read_def)
    have 3: "spsc_step ?s2 (s\<lparr>sp_ring := h', sp_recv := sp_recv s @ [?b]\<rparr>)"
      using spsc_step.c_commit [of ?s2 ?b ?nr] h h' idle rb_inv_capacity_nz [OF h(2)] by (cases s) simp
    have "spsc_step\<^sup>*\<^sup>* s (s\<lparr>sp_ring := h', sp_recv := sp_recv s @ [?b]\<rparr>)"
      by (rule converse_rtranclp_into_rtranclp, rule 1, rule converse_rtranclp_into_rtranclp, rule 2, rule r_into_rtranclp, rule 3)
    then show ?thesis using h' by simp
  qed
qed

lemma spsc_reachable_rtrancl:
  "spsc_step\<^sup>*\<^sup>* s t \<Longrightarrow> spsc_reachable h s \<Longrightarrow> spsc_reachable h t"
  by (induction rule: rtranclp_induct) (auto intro: spsc_reachable.step)

text \<open>
  The witness: the interrupt has published one byte and stored a second one that it has
  not published yet, while the event loop is about to load.
\<close>

definition spsc_demo_state :: spsc where
  "spsc_demo_state = (spsc_start spsc_demo_ring)\<lparr>
     sp_ring := \<lparr>rb_buffer = Some [42, 0], rb_capacity = 2, rb_read_index = 0, rb_write_index = 1\<rparr>,
     sp_sent := [42]\<rparr>"

lemma spsc_demo_reachable: "spsc_reachable spsc_demo_ring (spsc_demo_state\<lparr>sp_cons := C_Load\<rparr>)"
proof -
  have "ring_buffer_write (Some spsc_demo_ring) 42 = ok (1, Some (sp_ring spsc_demo_state))"
    by (simp add: ring_buffer_write_def spsc_demo_ring_def spsc_demo_state_def)
  then have "spsc_step\<^sup>*\<^sup>* (spsc_start spsc_demo_ring) spsc_demo_state"
    using spsc_write_run [of "spsc_start spsc_demo_ring" spsc_demo_ring 42 1] spsc_demo_ring_ok
    by (simp add: spsc_start_def spsc_demo_state_def)
  then have "spsc_reachable spsc_demo_ring spsc_demo_state"
    by (rule spsc_reachable_rtrancl) (rule spsc_reachable.start)
  moreover have "spsc_step spsc_demo_state (spsc_demo_state\<lparr>sp_cons := C_Load\<rparr>)"
    by (rule spsc_step.c_begin) (simp_all add: spsc_demo_state_def spsc_start_def)
  ultimately show ?thesis by (rule spsc_reachable.step)
qed

theorem spsc_no_loss_witness:
  "sp_sent spsc_demo_state = [42] \<and> [42] = [] @ rb_contents (sp_ring spsc_demo_state)"
  using spsc_no_loss [OF spsc_demo_ring_ok spsc_demo_reachable]
  by (simp add: spsc_start_def spsc_demo_state_def)

text \<open>
  Neither side is ever stuck.  In every reachable state of the interleaved system,
  a producer or consumer that is inside its function can take its next step: the modulus
  is by a non-zero capacity and every store and load is inside the array.
\<close>

theorem spsc_progress:
  assumes "rb_inv h" and "rb_contents h = []" and "spsc_reachable h s"
  shows "(\<exists>t. spsc_step s t \<and> sp_prod t \<noteq> sp_prod s) \<and>
    (sp_cons s \<noteq> C_Idle \<longrightarrow> (\<exists>t. spsc_step s t \<and> sp_cons t \<noteq> sp_cons s))"
proof -
  note inv = spsc_reachable_inv [OF assms]
  then obtain buf where ring: "rb_inv (sp_ring s)" "rb_buffer (sp_ring s) = Some buf"
      "unat (rb_write_index (sp_ring s)) < length buf" "unat (rb_read_index (sp_ring s)) < length buf"
    by (auto simp: spsc_inv_def rb_inv_def)
  have "\<exists>t. spsc_step s t \<and> sp_prod t \<noteq> sp_prod s"
  proof (cases "sp_prod s")
    case P_Idle
    then have "spsc_step s (s\<lparr>sp_prod := P_Check 0 ((rb_write_index (sp_ring s) + 1) mod rb_capacity (sp_ring s))\<rparr>)"
      using ring rb_inv_capacity_nz by (auto intro: p_begin)
    then show ?thesis using P_Idle by (metis producer.distinct(1) spsc.select_convs(2) spsc.surjective spsc.update_convs(2))
  next
    case (P_Check b nw)
    then show ?thesis using p_full [OF P_Check] p_room [OF P_Check]
      by (cases "nw = rb_read_index (sp_ring s)") fastforce+
  next
    case (P_Store b nw)
    then show ?thesis using p_store [OF P_Store ring(2) arr_set_ok [OF ring(3)]] by fastforce
  next
    case (P_Commit b nw)
    then show ?thesis using p_commit [OF P_Commit] by fastforce
  qed
  moreover have "\<exists>t. spsc_step s t \<and> sp_cons t \<noteq> sp_cons s" if "sp_cons s \<noteq> C_Idle"
  proof (cases "sp_cons s")
    case C_Load
    then show ?thesis using c_load [OF C_Load ring(2) arr_get_ok [OF ring(4)]] by fastforce
  next
    case (C_Commit b)
    then show ?thesis
      using c_commit [OF C_Commit u32_mod_ok [OF rb_inv_capacity_nz [OF ring(1)]]] by fastforce
  qed (use that in simp)
  ultimately show ?thesis by blast
qed

theorem spsc_progress_witness:
  "\<exists>t. spsc_step (spsc_demo_state\<lparr>sp_cons := C_Load\<rparr>) t \<and> sp_cons t \<noteq> C_Load"
  using spsc_progress [OF spsc_demo_ring_ok spsc_demo_reachable] by auto

end
