(* ===== verification/ATC_Types.thy ===== *)
theory ATC_Types
  imports Ring_Buffer
begin

text \<open>
  The data of the program: the enumerations and structs of the headers and of
  \<open>extern_msg_handle.c\<close>, the typed heap the code allocates from, and the world a C
  function runs in.  A pointer is a 32-bit address; a function pointer that can only be
  one of the functions of the sources, or a function of the application, is a datatype.
\<close>

section \<open>Constants\<close>

definition ATC_RX_BUFFER_SIZE :: u32 where "ATC_RX_BUFFER_SIZE = 256"
definition ATC_RX_LINE_MAX_SIZE :: u32 where "ATC_RX_LINE_MAX_SIZE = 256"
definition ATC_RX_RESPONSE_MAX :: size_t where "ATC_RX_RESPONSE_MAX = 512"
definition ATC_PROMPT_STACK_MAX_DEPTH :: size_t where "ATC_PROMPT_STACK_MAX_DEPTH = 20"
definition ATC_TIMEOUT_MAX :: u32 where "ATC_TIMEOUT_MAX = 0xFFFFFFFF"
definition INT_MAX :: int where "INT_MAX = 2147483647"

lemmas atc_constants = ATC_RX_BUFFER_SIZE_def ATC_RX_LINE_MAX_SIZE_def
  ATC_RX_RESPONSE_MAX_def ATC_PROMPT_STACK_MAX_DEPTH_def ATC_TIMEOUT_MAX_def INT_MAX_def

text \<open>Sizes of the allocated structs on the ILP32 target.\<close>

definition sizeof_ptr :: size_t where "sizeof_ptr = 4"
definition sizeof_Stack :: size_t where "sizeof_Stack = 12"
definition sizeof_slist_node :: size_t where "sizeof_slist_node = 8"
definition sizeof_slist :: size_t where "sizeof_slist = 16"
definition sizeof_urc_handler_entry :: size_t where "sizeof_urc_handler_entry = 40"
definition sizeof_urc_register_msg :: size_t where "sizeof_urc_register_msg = 44"
definition sizeof_urc_unregister_msg :: size_t where "sizeof_urc_unregister_msg = 8"
definition sizeof_msg :: size_t where "sizeof_msg = 16"
definition sizeof_send_task :: size_t where "sizeof_send_task = 52"

section \<open>Enumerations and structs\<close>

datatype atc_result = ATC_SUCCESS | ATC_ERROR | ATC_TIMEOUT | ATC_HARDWARE_ERROR

fun result_code :: "atc_result \<Rightarrow> int" where
  "result_code ATC_SUCCESS = 0"
| "result_code ATC_ERROR = -1"
| "result_code ATC_TIMEOUT = -2"
| "result_code ATC_HARDWARE_ERROR = -3"

datatype send_task_status =
    SEND_TASK_STATUS_LINE_RECV
  | SEND_TASK_STATUS_PROMPT
  | SEND_TASK_STATUS_BINARY

datatype msg_type = MSG_TYPE_URC_REGISTER | MSG_TYPE_URC_UNREGISTER
  | MSG_TYPE_OTHER nat   \<comment> \<open>any other value of the enum's integer type\<close>

fun msg_type_code :: "msg_type \<Rightarrow> int" where
  "msg_type_code MSG_TYPE_URC_REGISTER = 0"
| "msg_type_code MSG_TYPE_URC_UNREGISTER = 1"
| "msg_type_code (MSG_TYPE_OTHER n) = int n + 2"

text \<open>\<open>atc_cmd_response_handler_t\<close>: the handler of the sources or one of the application.\<close>

datatype response_handler = Sync_Response_Handler | App_Response_Handler addr

text \<open>\<open>slist_free_cb\<close>: \<open>urc_free\<close>, or a function of the application.\<close>

datatype free_fn = Urc_Free | App_Free addr

text \<open>\<open>msg.free_fn\<close>: only \<open>msg_free\<close> is ever stored.\<close>

datatype msg_free_fn = Msg_Free

record slist_node =
  nd_data :: addr
  nd_next :: addr

record slist =
  ls_head :: addr
  ls_tail :: addr
  ls_len :: size_t
  ls_free_fn :: "free_fn option"

record stack =
  sk_items :: addr
  sk_capacity :: size_t
  sk_top :: size_t

text \<open>
  \<open>ue_id\<close> is \<open>None\<close> while it is indeterminate; \<open>ue_prefix\<close> is the initialised part of
  the array \<open>char prefix[32]\<close>, its terminating NUL included.
\<close>

record urc_handler_entry =
  ue_id :: "int option"
  ue_prefix :: "u8 list"
  ue_handler :: addr

record send_task =
  tk_data :: addr
  tk_length :: size_t
  tk_response_handler :: "response_handler option"
  tk_timeout :: u32
  tk_timestamp :: u32
  tk_semaphore :: addr
  tk_sync_send_result :: addr
  tk_sync_response_buf :: addr
  tk_sync_response_length :: addr
  tk_prompt :: addr
  tk_prompt_len :: size_t
  tk_need_recv_len :: size_t
  tk_status :: send_task_status

record urc_register_msg =
  rg_entry :: urc_handler_entry
  rg_out_id :: addr

record urc_unregister_msg =
  un_id :: int
  un_out_result :: addr

record msg =
  ms_type :: msg_type
  ms_data :: addr
  ms_free_fn :: "msg_free_fn option"
  ms_semaphore :: addr

text \<open>\<open>struct send_task task = {0}\<close>.\<close>

definition zero_task :: send_task where
  "zero_task = \<lparr>tk_data = NULL, tk_length = 0, tk_response_handler = None, tk_timeout = 0,
     tk_timestamp = 0, tk_semaphore = NULL, tk_sync_send_result = NULL,
     tk_sync_response_buf = NULL, tk_sync_response_length = NULL, tk_prompt = NULL,
     tk_prompt_len = 0, tk_need_recv_len = 0, tk_status = SEND_TASK_STATUS_LINE_RECV\<rparr>"

section \<open>The heap\<close>

text \<open>
  Allocated objects.  The last four are variables of blocked callers that the event loop
  writes through pointers (\<open>assigned_id\<close>, \<open>*send_result\<close>, \<open>*response_length\<close> and
  the array \<open>response_buf\<close>).
\<close>

datatype obj =
    O_Node slist_node
  | O_List slist
  | O_Entry urc_handler_entry
  | O_Stack stack
  | O_Items "addr option list"
  | O_Task send_task
  | O_Bytes "u8 list"
  | O_Reg urc_register_msg
  | O_Unreg urc_unregister_msg
  | O_Int int
  | O_Result atc_result
  | O_Size size_t
  | O_Buf "u8 list"

type_synonym store = "addr \<rightharpoonup> obj"

datatype qitem = Q_Task send_task | Q_Msg msg

section \<open>The context and the world\<close>

record atc_context =
  rx_buffer :: ring_buffer
  external_api_queue :: addr
  send_queue :: addr
  urc_handler_list :: addr
  urc_next_id :: int
  current_send_task :: addr
  line_buffer :: "u8 list"
  line_buffer_index :: u32
  response :: "u8 list"
  response_length :: size_t
  byte_stack :: addr
  wake_semaphore :: addr

text \<open>
  What is visible outside: calls of application code and of the interface functions that
  transmit, wake or delete, in the order they are made.
\<close>

datatype event =
    Ev_Response addr atc_result "u8 list" size_t
  | Ev_Urc addr "u8 list"
  | Ev_App_Free addr addr
  | Ev_Send "u8 list" atc_result
  | Ev_Give addr
  | Ev_Give_Isr addr
  | Ev_Take addr u32
  | Ev_Delete addr

text \<open>
  \<open>'os\<close> is the state behind the injected interface (allocator, queues, semaphores, clock,
  UART); \<open>trace\<close> is a history variable.
\<close>

record 'os world =
  heap :: store
  os :: 'os
  ctx :: atc_context
  trace :: "event list"

definition put :: "addr \<Rightarrow> obj \<Rightarrow> 'os world \<Rightarrow> 'os world" where
  "put a x w = w\<lparr>heap := (heap w)(a \<mapsto> x)\<rparr>"

definition emit :: "event \<Rightarrow> 'os world \<Rightarrow> 'os world" where
  "emit e w = w\<lparr>trace := trace w @ [e]\<rparr>"

definition upd_ctx :: "(atc_context \<Rightarrow> atc_context) \<Rightarrow> 'os world \<Rightarrow> 'os world" where
  "upd_ctx f w = w\<lparr>ctx := f (ctx w)\<rparr>"

lemma put_simps [simp]:
  "heap (put a x w) = (heap w)(a \<mapsto> x)" "os (put a x w) = os w" "ctx (put a x w) = ctx w"
  "trace (put a x w) = trace w"
  by (simp_all add: put_def)

lemma emit_simps [simp]:
  "heap (emit e w) = heap w" "os (emit e w) = os w" "ctx (emit e w) = ctx w"
  "trace (emit e w) = trace w @ [e]"
  by (simp_all add: emit_def)

lemma upd_ctx_simps [simp]:
  "heap (upd_ctx f w) = heap w" "os (upd_ctx f w) = os w" "ctx (upd_ctx f w) = f (ctx w)"
  "trace (upd_ctx f w) = trace w"
  by (simp_all add: upd_ctx_def)

section \<open>Typed access\<close>

fun sel_node where "sel_node (O_Node x) = Some x" | "sel_node _ = None"
fun sel_list where "sel_list (O_List x) = Some x" | "sel_list _ = None"
fun sel_entry where "sel_entry (O_Entry x) = Some x" | "sel_entry _ = None"
fun sel_stack where "sel_stack (O_Stack x) = Some x" | "sel_stack _ = None"
fun sel_items where "sel_items (O_Items x) = Some x" | "sel_items _ = None"
fun sel_task where "sel_task (O_Task x) = Some x" | "sel_task _ = None"
fun sel_bytes where "sel_bytes (O_Bytes x) = Some x" | "sel_bytes _ = None"
fun sel_reg where "sel_reg (O_Reg x) = Some x" | "sel_reg _ = None"
fun sel_unreg where "sel_unreg (O_Unreg x) = Some x" | "sel_unreg _ = None"
fun sel_int where "sel_int (O_Int x) = Some x" | "sel_int _ = None"
fun sel_result where "sel_result (O_Result x) = Some x" | "sel_result _ = None"
fun sel_size where "sel_size (O_Size x) = Some x" | "sel_size _ = None"
fun sel_buf where "sel_buf (O_Buf x) = Some x" | "sel_buf _ = None"

text \<open>\<open>load sel p w\<close>: the object of the selected type at \<open>p\<close>.\<close>

definition load :: "(obj \<Rightarrow> 'b option) \<Rightarrow> addr \<Rightarrow> 'os world \<Rightarrow> 'b res" where
  "load sel p w =
     (if p = NULL then fail NullDeref
      else case Option.bind (heap w p) sel of None \<Rightarrow> fail BadDeref | Some x \<Rightarrow> ok x)"

lemma load_ok [simp]: "p \<noteq> NULL \<Longrightarrow> heap w p = Some ob \<Longrightarrow> sel ob = Some x \<Longrightarrow> load sel p w = ok x"
  by (simp add: load_def)

lemma load_NULL [simp]: "load sel NULL w = fail NullDeref"
  by (simp add: load_def)

lemma load_eq_ok: "load sel p w = ok x \<longleftrightarrow> p \<noteq> NULL \<and> (\<exists>ob. heap w p = Some ob \<and> sel ob = Some x)"
  by (auto simp: load_def split: option.splits Option.bind_splits)

text \<open>A store through a pointer to a caller's variable; the variable must be of that type.\<close>

definition store_as :: "(obj \<Rightarrow> 'b option) \<Rightarrow> addr \<Rightarrow> obj \<Rightarrow> 'os world \<Rightarrow> 'os world res" where
  "store_as sel p x w = rbind (load sel p w) (\<lambda>_. ok (put p x w))"

lemma store_as_ok [simp]:
  "p \<noteq> NULL \<Longrightarrow> heap w p = Some ob \<Longrightarrow> sel ob = Some y \<Longrightarrow> store_as sel p x w = ok (put p x w)"
  by (simp add: store_as_def)

section \<open>Frames\<close>

text \<open>Only the heap cells in \<open>A\<close> differ.\<close>

definition only_heap :: "addr set \<Rightarrow> 'os world \<Rightarrow> 'os world \<Rightarrow> bool" where
  "only_heap A w w' \<longleftrightarrow> (\<forall>p. p \<notin> A \<longrightarrow> heap w' p = heap w p) \<and> os w' = os w \<and> ctx w' = ctx w \<and>
     trace w' = trace w"

lemma only_heap_refl [simp]: "only_heap A w w"
  by (simp add: only_heap_def)

lemma only_heap_put [simp]: "a \<in> A \<Longrightarrow> only_heap A w (put a x w)"
  by (auto simp: only_heap_def)

lemma only_heap_trans: "only_heap A u v \<Longrightarrow> only_heap B v w \<Longrightarrow> only_heap (A \<union> B) u w"
  by (auto simp: only_heap_def)

lemma only_heap_mono: "only_heap A v w \<Longrightarrow> A \<subseteq> B \<Longrightarrow> only_heap B v w"
  by (auto simp: only_heap_def)


text \<open>The same, for operations that also advance the state behind the interface.\<close>

definition frame :: "addr set \<Rightarrow> 'os world \<Rightarrow> 'os world \<Rightarrow> bool" where
  "frame A w w' \<longleftrightarrow> (\<forall>p. p \<notin> A \<longrightarrow> heap w' p = heap w p) \<and> ctx w' = ctx w \<and> trace w' = trace w"

lemma frame_refl [simp]: "frame A w w"
  by (simp add: frame_def)

lemma frame_os [simp]: "frame A w (w'\<lparr>os := s\<rparr>) = frame A w w'"
  by (simp add: frame_def)

lemma frame_put: "a \<in> A \<Longrightarrow> frame A w w' \<Longrightarrow> frame A w (put a x w')"
  by (auto simp: frame_def)

lemma frame_trans: "frame A u v \<Longrightarrow> frame B v w \<Longrightarrow> frame (A \<union> B) u w"
  by (auto simp: frame_def)

lemma frame_mono: "frame A v w \<Longrightarrow> A \<subseteq> B \<Longrightarrow> frame B v w"
  by (auto simp: frame_def)

lemma frame_heap: "frame A w w' \<Longrightarrow> p \<notin> A \<Longrightarrow> heap w' p = heap w p"
  by (simp add: frame_def)

lemma only_heap_frame: "only_heap A w w' \<Longrightarrow> frame A w w'"
  by (simp add: only_heap_def frame_def)

text \<open>Distinct non-null addresses are fewer than \<open>2^32\<close>.\<close>

lemma distinct_addr_length:
  assumes "distinct (xs :: addr list)" and "NULL \<notin> set xs"
  shows "length xs < 2 ^ 32"
proof -
  have "length xs = card (set xs)" using assms(1) by (simp add: distinct_card)
  also have "\<dots> < card (UNIV :: addr set)"
    by (rule psubset_card_mono) (use assms(2) in auto)
  finally show ?thesis by (simp add: card_word)
qed

end
