(* ===== verification/ATC_Interface.thy ===== *)
theory ATC_Interface
  imports ATC_Types
begin

text \<open>
  \<open>struct atc_interface\<close> and \<open>interface.c\<close>.  The functions of the interface are supplied
  by the application, so they are parameters of the model: a record of functions over the
  state \<open>'os\<close> behind them, each \<open>None\<close> while its pointer is null.  The wrappers are the
  calls \<open>g_atc_interface.f(...)\<close>; calling a null pointer is undefined.
\<close>

section \<open>The injected interface\<close>

text \<open>
  \<open>atc_malloc\<close> sees which addresses are live; \<open>atc_semaphore_give\<close> sees the whole store, since
  the thread it wakes may run at once and read its variables: what is in them at that moment, and
  not only after the caller has gone on, makes a difference to the state behind the interface.
  \<open>atc_queue_recv\<close> answers \<open>Some item\<close> for
  \<open>ATC_SUCCESS\<close> with the item stored through its out-pointer, \<open>None\<close> for
  \<open>ATC_ERROR\<close>; \<open>atc_send\<close> is given the bytes its pointer refers to.  \<open>atc_log\<close> is given
  the format and its arguments, a string as the array its pointer refers to; it does not
  change the state behind the other functions.
\<close>

datatype log_arg =
    Log_Int int             \<comment> \<open>\<open>%d\<close>, \<open>%zu\<close>, \<open>%02X\<close>, \<open>%c\<close>\<close>
  | Log_Ptr addr            \<comment> \<open>\<open>%p\<close>\<close>
  | Log_Str "u8 list"       \<comment> \<open>\<open>%s\<close>\<close>
  | Log_Prec int "u8 list"  \<comment> \<open>\<open>%.*s\<close>: the precision and the string\<close>

record 'os atc_interface =
  atc_malloc :: "(size_t \<Rightarrow> store \<Rightarrow> 'os \<Rightarrow> addr \<times> 'os) option"
  atc_free :: "(addr \<Rightarrow> 'os \<Rightarrow> 'os) option"
  atc_queue_create :: "(size_t \<Rightarrow> size_t \<Rightarrow> 'os \<Rightarrow> addr \<times> 'os) option"
  atc_queue_send :: "(addr \<Rightarrow> qitem \<Rightarrow> u32 \<Rightarrow> 'os \<Rightarrow> int \<times> 'os) option"
  atc_queue_recv :: "(addr \<Rightarrow> u32 \<Rightarrow> 'os \<Rightarrow> qitem option \<times> 'os) option"
  atc_log :: "(string \<Rightarrow> log_arg list \<Rightarrow> int) option"
  atc_send :: "(u8 list \<Rightarrow> size_t \<Rightarrow> 'os \<Rightarrow> atc_result \<times> 'os) option"
  atc_semaphore_create_binary :: "('os \<Rightarrow> addr \<times> 'os) option"
  atc_semaphore_take :: "(addr \<Rightarrow> u32 \<Rightarrow> 'os \<Rightarrow> int \<times> 'os) option"
  atc_semaphore_give :: "(addr \<Rightarrow> store \<Rightarrow> 'os \<Rightarrow> int \<times> 'os) option"
  atc_semaphore_delete :: "(addr \<Rightarrow> 'os \<Rightarrow> 'os) option"
  atc_semaphore_give_isr :: "(addr \<Rightarrow> 'os \<Rightarrow> int \<times> 'os) option"
  atc_get_tick_ms :: "('os \<Rightarrow> u32 \<times> 'os) option"

text \<open>\<open>struct atc_interface g_atc_interface = {0}\<close>.\<close>

definition zero_interface :: "'os atc_interface" where
  "zero_interface = \<lparr>atc_malloc = None, atc_free = None, atc_queue_create = None,
     atc_queue_send = None, atc_queue_recv = None, atc_log = None, atc_send = None,
     atc_semaphore_create_binary = None, atc_semaphore_take = None, atc_semaphore_give = None,
     atc_semaphore_delete = None, atc_semaphore_give_isr = None, atc_get_tick_ms = None\<rparr>"

text \<open>\<open>atc_interface_register\<close>: the result and the new value of \<open>g_atc_interface\<close>.\<close>

definition atc_interface_register ::
  "'os atc_interface option \<Rightarrow> 'os atc_interface \<Rightarrow> atc_result \<times> 'os atc_interface" where
  "atc_interface_register interface g =
     (case interface of
        None \<Rightarrow> (ATC_ERROR, g)
      | Some i \<Rightarrow>
          if atc_malloc i = None \<or> atc_free i = None \<or> atc_log i = None \<or> atc_send i = None
          then (ATC_ERROR, g)
          else if atc_queue_create i = None \<or> atc_queue_send i = None \<or> atc_queue_recv i = None
          then (ATC_ERROR, g)
          else if atc_semaphore_create_binary i = None \<or> atc_semaphore_take i = None \<or>
                  atc_semaphore_give i = None \<or> atc_semaphore_delete i = None \<or>
                  atc_semaphore_give_isr i = None
          then (ATC_ERROR, g)
          else if atc_get_tick_ms i = None then (ATC_ERROR, g)
          else (ATC_SUCCESS, i))"

text \<open>Every function is there.\<close>

definition complete :: "'os atc_interface \<Rightarrow> bool" where
  "complete i \<longleftrightarrow> atc_malloc i \<noteq> None \<and> atc_free i \<noteq> None \<and> atc_queue_create i \<noteq> None \<and>
     atc_queue_send i \<noteq> None \<and> atc_queue_recv i \<noteq> None \<and> atc_log i \<noteq> None \<and> atc_send i \<noteq> None \<and>
     atc_semaphore_create_binary i \<noteq> None \<and> atc_semaphore_take i \<noteq> None \<and>
     atc_semaphore_give i \<noteq> None \<and> atc_semaphore_delete i \<noteq> None \<and>
     atc_semaphore_give_isr i \<noteq> None \<and> atc_get_tick_ms i \<noteq> None"

lemma complete_fields [simp]:
  "complete \<lparr>atc_malloc = Some f1, atc_free = Some f2, atc_queue_create = Some f3, atc_queue_send = Some f4,
     atc_queue_recv = Some f5, atc_log = Some f6, atc_send = Some f7, atc_semaphore_create_binary = Some f8,
     atc_semaphore_take = Some f9, atc_semaphore_give = Some f10, atc_semaphore_delete = Some f11,
     atc_semaphore_give_isr = Some f12, atc_get_tick_ms = Some f13\<rparr>"
  by (simp add: complete_def)

text \<open>
  Registration is all or nothing: it succeeds exactly for a non-null interface with
  every function set, and a failed registration leaves the registered interface as it was.
\<close>

theorem interface_register_complete:
  "case atc_interface_register interface g of (r, g') \<Rightarrow>
     (r = ATC_SUCCESS \<longleftrightarrow> (\<exists>i. interface = Some i \<and> complete i)) \<and>
     (if r = ATC_SUCCESS then interface = Some g' \<and> complete g' else r = ATC_ERROR \<and> g' = g)"
  by (auto simp: atc_interface_register_def complete_def split: option.splits)

section \<open>Calls through the interface\<close>

definition call :: "'f option \<Rightarrow> 'f res" where
  "call f = (case f of None \<Rightarrow> fail NullCall | Some g \<Rightarrow> ok g)"

lemma call_Some [simp]: "call (Some g) = ok g"
  by (simp add: call_def)

definition os_malloc :: "'os atc_interface \<Rightarrow> size_t \<Rightarrow> 'os world \<Rightarrow> (addr \<times> 'os world) res" where
  "os_malloc I n w =
     rbind (call (atc_malloc I)) (\<lambda>f.
     case f n (heap w) (os w) of (a, s) \<Rightarrow> ok (a, w\<lparr>os := s\<rparr>))"

definition os_free :: "'os atc_interface \<Rightarrow> addr \<Rightarrow> 'os world \<Rightarrow> 'os world res" where
  "os_free I p w =
     rbind (call (atc_free I)) (\<lambda>f.
     if heap w p = None then fail BadFree
     else ok (w\<lparr>heap := (heap w)(p := None), os := f p (os w)\<rparr>))"

definition os_queue_create ::
  "'os atc_interface \<Rightarrow> size_t \<Rightarrow> size_t \<Rightarrow> 'os world \<Rightarrow> (addr \<times> 'os world) res" where
  "os_queue_create I n m w =
     rbind (call (atc_queue_create I)) (\<lambda>f.
     case f n m (os w) of (a, s) \<Rightarrow> ok (a, w\<lparr>os := s\<rparr>))"

definition os_queue_send ::
  "'os atc_interface \<Rightarrow> addr \<Rightarrow> qitem \<Rightarrow> u32 \<Rightarrow> 'os world \<Rightarrow> (int \<times> 'os world) res" where
  "os_queue_send I q x timeout w =
     rbind (call (atc_queue_send I)) (\<lambda>f.
     case f q x timeout (os w) of (r, s) \<Rightarrow> ok (r, w\<lparr>os := s\<rparr>))"

definition os_queue_recv ::
  "'os atc_interface \<Rightarrow> addr \<Rightarrow> u32 \<Rightarrow> 'os world \<Rightarrow> (qitem option \<times> 'os world) res" where
  "os_queue_recv I q timeout w =
     rbind (call (atc_queue_recv I)) (\<lambda>f.
     case f q timeout (os w) of (x, s) \<Rightarrow> ok (x, w\<lparr>os := s\<rparr>))"

definition os_send ::
  "'os atc_interface \<Rightarrow> u8 list \<Rightarrow> size_t \<Rightarrow> 'os world \<Rightarrow> (atc_result \<times> 'os world) res" where
  "os_send I data len w =
     rbind (call (atc_send I)) (\<lambda>f.
     case f data len (os w) of (r, s) \<Rightarrow> ok (r, emit (Ev_Send data r) (w\<lparr>os := s\<rparr>)))"

definition os_sem_create :: "'os atc_interface \<Rightarrow> 'os world \<Rightarrow> (addr \<times> 'os world) res" where
  "os_sem_create I w =
     rbind (call (atc_semaphore_create_binary I)) (\<lambda>f.
     case f (os w) of (a, s) \<Rightarrow> ok (a, w\<lparr>os := s\<rparr>))"

definition os_sem_take :: "'os atc_interface \<Rightarrow> addr \<Rightarrow> u32 \<Rightarrow> 'os world \<Rightarrow> (int \<times> 'os world) res" where
  "os_sem_take I sem timeout w =
     rbind (call (atc_semaphore_take I)) (\<lambda>f.
     case f sem timeout (os w) of (r, s) \<Rightarrow> ok (r, emit (Ev_Take sem timeout) (w\<lparr>os := s\<rparr>)))"

definition os_sem_give :: "'os atc_interface \<Rightarrow> addr \<Rightarrow> 'os world \<Rightarrow> 'os world res" where
  "os_sem_give I sem w =
     rbind (call (atc_semaphore_give I)) (\<lambda>f.
     case f sem (heap w) (os w) of (r, s) \<Rightarrow> ok (emit (Ev_Give sem) (w\<lparr>os := s\<rparr>)))"

definition os_sem_delete :: "'os atc_interface \<Rightarrow> addr \<Rightarrow> 'os world \<Rightarrow> 'os world res" where
  "os_sem_delete I sem w =
     rbind (call (atc_semaphore_delete I)) (\<lambda>f.
     ok (emit (Ev_Delete sem) (w\<lparr>os := f sem (os w)\<rparr>)))"

definition os_sem_give_isr :: "'os atc_interface \<Rightarrow> addr \<Rightarrow> 'os world \<Rightarrow> 'os world res" where
  "os_sem_give_isr I sem w =
     rbind (call (atc_semaphore_give_isr I)) (\<lambda>f.
     case f sem (os w) of (r, s) \<Rightarrow> ok (emit (Ev_Give_Isr sem) (w\<lparr>os := s\<rparr>)))"

definition atc_time_get :: "'os atc_interface \<Rightarrow> 'os world \<Rightarrow> (u32 \<times> 'os world) res" where
  "atc_time_get I w =
     rbind (call (atc_get_tick_ms I)) (\<lambda>f.
     case f (os w) of (t, s) \<Rightarrow> ok (t, w\<lparr>os := s\<rparr>))"

section \<open>Behaviour of complete interfaces\<close>

text \<open>With every pointer set, a call only changes the state behind the interface.\<close>

lemma os_malloc_ok: "complete I \<Longrightarrow> \<exists>a s. os_malloc I n w = ok (a, w\<lparr>os := s\<rparr>)"
  by (auto simp: os_malloc_def complete_def split: prod.split)

lemma os_free_ok:
  "complete I \<Longrightarrow> heap w p = Some x \<Longrightarrow> \<exists>s. os_free I p w = ok (w\<lparr>heap := (heap w)(p := None), os := s\<rparr>)"
  by (auto simp: os_free_def complete_def)

lemma os_queue_create_ok: "complete I \<Longrightarrow> \<exists>a s. os_queue_create I n m w = ok (a, w\<lparr>os := s\<rparr>)"
  by (auto simp: os_queue_create_def complete_def split: prod.split)

lemma os_sem_create_ok: "complete I \<Longrightarrow> \<exists>a s. os_sem_create I w = ok (a, w\<lparr>os := s\<rparr>)"
  by (auto simp: os_sem_create_def complete_def split: prod.split)

lemma os_sem_give_ok: "complete I \<Longrightarrow> \<exists>s. os_sem_give I sem w = ok (emit (Ev_Give sem) (w\<lparr>os := s\<rparr>))"
  by (auto simp: os_sem_give_def complete_def split: prod.split)

lemma os_sem_give_isr_ok:
  "complete I \<Longrightarrow> \<exists>s. os_sem_give_isr I sem w = ok (emit (Ev_Give_Isr sem) (w\<lparr>os := s\<rparr>))"
  by (auto simp: os_sem_give_isr_def complete_def split: prod.split)

lemma os_sem_delete_ok: "complete I \<Longrightarrow> \<exists>s. os_sem_delete I sem w = ok (emit (Ev_Delete sem) (w\<lparr>os := s\<rparr>))"
  by (auto simp: os_sem_delete_def complete_def)

lemma os_send_ok: "complete I \<Longrightarrow> \<exists>r s. os_send I d n w = ok (r, emit (Ev_Send d r) (w\<lparr>os := s\<rparr>))"
  by (auto simp: os_send_def complete_def split: prod.split)

lemma atc_time_get_ok: "complete I \<Longrightarrow> \<exists>t s. atc_time_get I w = ok (t, w\<lparr>os := s\<rparr>)"
  by (auto simp: atc_time_get_def complete_def split: prod.split)

text \<open>
  The contract of \<open>atc_malloc\<close>: null, or an address that is not in use; and, as no object is
  larger than \<open>PTRDIFF_MAX\<close> bytes, a request with the top bit set is refused.
\<close>

definition malloc_fresh :: "'os atc_interface \<Rightarrow> bool" where
  "malloc_fresh I \<longleftrightarrow>
     (\<forall>f n h s. atc_malloc I = Some f \<longrightarrow> fst (f n h s) = NULL \<or> h (fst (f n h s)) = None \<and> n < 0x80000000)"

lemma os_malloc_cases:
  assumes "complete I" "malloc_fresh I"
  obtains (fails) s where "os_malloc I n w = ok (NULL, w\<lparr>os := s\<rparr>)"
    | (fresh) a s where "os_malloc I n w = ok (a, w\<lparr>os := s\<rparr>)" "a \<noteq> NULL" "heap w a = None"
      "n < 0x80000000"
proof -
  obtain f where f: "atc_malloc I = Some f" using assms(1) by (auto simp: complete_def)
  obtain a s where r: "f n (heap w) (os w) = (a, s)" by (cases "f n (heap w) (os w)")
  then have "a = NULL \<or> heap w a = None \<and> n < 0x80000000"
    using assms(2) f unfolding malloc_fresh_def by (metis fst_conv)
  moreover have "os_malloc I n w = ok (a, w\<lparr>os := s\<rparr>)" using f r by (simp add: os_malloc_def)
  ultimately show thesis using that by (cases "a = NULL") auto
qed


section \<open>A sample platform\<close>

lemma sizeof_small [simp]:
  "sizeof_Stack < 0x80000000" "sizeof_slist_node < 0x80000000" "sizeof_slist < 0x80000000"
  "sizeof_urc_handler_entry < 0x80000000" "sizeof_urc_register_msg < 0x80000000"
  "sizeof_urc_unregister_msg < 0x80000000" "sizeof_send_task < 0x80000000"
  by (simp_all add: sizeof_Stack_def sizeof_slist_node_def sizeof_slist_def sizeof_urc_handler_entry_def
      sizeof_urc_register_msg_def sizeof_urc_unregister_msg_def sizeof_send_task_def)

text \<open>
  An instance of the interface for the witnesses: an allocator that counts upwards and
  answers null when its next address is taken or the request is too large, FIFO queues of depth 6, semaphores without
  effect, and a clock that stands still until it is set.
\<close>

record platform =
  pl_next :: addr
  pl_queues :: "addr \<Rightarrow> qitem list"
  pl_tick :: u32

definition pl_malloc :: "size_t \<Rightarrow> store \<Rightarrow> platform \<Rightarrow> addr \<times> platform" where
  "pl_malloc n h s =
     (if h (pl_next s) = None \<and> n < 0x80000000 then (pl_next s, s\<lparr>pl_next := pl_next s + 1\<rparr>) else (NULL, s))"

definition pl_queue_send :: "addr \<Rightarrow> qitem \<Rightarrow> u32 \<Rightarrow> platform \<Rightarrow> int \<times> platform" where
  "pl_queue_send q x t s =
     (if length (pl_queues s q) < 6
      then (0, s\<lparr>pl_queues := (pl_queues s)(q := pl_queues s q @ [x])\<rparr>) else (-1, s))"

definition pl_queue_recv :: "addr \<Rightarrow> u32 \<Rightarrow> platform \<Rightarrow> qitem option \<times> platform" where
  "pl_queue_recv q t s =
     (case pl_queues s q of [] \<Rightarrow> (None, s)
      | x # xs \<Rightarrow> (Some x, s\<lparr>pl_queues := (pl_queues s)(q := xs)\<rparr>))"

definition platform_interface :: "platform atc_interface" where
  "platform_interface = \<lparr>atc_malloc = Some pl_malloc, atc_free = Some (\<lambda>p s. s),
     atc_queue_create = Some (\<lambda>n m s. (pl_next s, s\<lparr>pl_next := pl_next s + 1\<rparr>)),
     atc_queue_send = Some pl_queue_send, atc_queue_recv = Some pl_queue_recv,
     atc_log = Some (\<lambda>fmt args. 0), atc_send = Some (\<lambda>d n s. (ATC_SUCCESS, s)),
     atc_semaphore_create_binary = Some (\<lambda>s. (pl_next s, s\<lparr>pl_next := pl_next s + 1\<rparr>)),
     atc_semaphore_take = Some (\<lambda>p t s. (0, s)), atc_semaphore_give = Some (\<lambda>p h s. (0, s)),
     atc_semaphore_delete = Some (\<lambda>p s. s), atc_semaphore_give_isr = Some (\<lambda>p s. (0, s)),
     atc_get_tick_ms = Some (\<lambda>s. (pl_tick s, s))\<rparr>"

definition platform_start :: platform where
  "platform_start = \<lparr>pl_next = 100, pl_queues = (\<lambda>q. []), pl_tick = 0\<rparr>"

lemma platform_complete [simp]: "complete platform_interface"
  by (simp add: complete_def platform_interface_def)

lemma platform_malloc_fresh [simp]: "malloc_fresh platform_interface"
  by (simp add: malloc_fresh_def platform_interface_def pl_malloc_def)


lemmas platform_calls [sample_run] = platform_interface_def pl_malloc_def pl_queue_send_def pl_queue_recv_def os_malloc_def
  os_queue_create_def os_queue_send_def os_queue_recv_def os_sem_create_def os_sem_give_def os_sem_take_def os_sem_delete_def
  os_send_def atc_time_get_def mem_read_def Let_def

text \<open>A zeroed context and an empty world.\<close>

definition demo_context :: atc_context where
  "demo_context = \<lparr>rx_buffer = \<lparr>rb_buffer = None, rb_capacity = 0, rb_read_index = 0, rb_write_index = 0\<rparr>,
     external_api_queue = NULL, send_queue = NULL, urc_handler_list = NULL, urc_next_id = 0,
     current_send_task = NULL, line_buffer = replicate 256 0, line_buffer_index = 0,
     response = replicate 512 0, response_length = 0, byte_stack = NULL, wake_semaphore = NULL\<rparr>"

definition platform_world :: "platform world" where
  "platform_world = \<lparr>heap = Map.empty, os = platform_start, ctx = demo_context, trace = []\<rparr>"

end
