(* ===== verification/Stack.thy ===== *)
theory Stack
  imports ATC_Interface
begin

text \<open>
  \<open>stack.c\<close>: the stack of pointers of fixed capacity that holds the last received bytes
  while a prompt is awaited.  The struct and its item array are two heap objects; an item
  that was never pushed is indeterminate.  The operations refine a window that keeps the
  last \<open>capacity\<close> elements pushed.
\<close>

section \<open>Operations\<close>

abbreviation get_stack where "get_stack \<equiv> load sel_stack"
abbreviation get_items where "get_items \<equiv> load sel_items"

text \<open>\<open>items[i]\<close> and \<open>items[i] = data\<close>.\<close>

definition item_get :: "addr \<Rightarrow> size_t \<Rightarrow> 'os world \<Rightarrow> addr res" where
  "item_get p i w = rbind (get_items p w) (\<lambda>xs. rbind (arr_get xs (unat i)) the_init)"

definition item_set :: "addr \<Rightarrow> size_t \<Rightarrow> addr \<Rightarrow> 'os world \<Rightarrow> 'os world res" where
  "item_set p i d w =
     rbind (get_items p w) (\<lambda>xs. rbind (arr_set xs (unat i) (Some d)) (\<lambda>xs'. ok (put p (O_Items xs') w)))"

text \<open>
  The array has as many cells as the allocated bytes hold: the product
  \<open>sizeof(void*) * capacity\<close> is computed in \<open>size_t\<close>.
\<close>

definition stack_create :: "'os atc_interface \<Rightarrow> size_t \<Rightarrow> 'os world \<Rightarrow> (addr \<times> 'os world) res" where
  "stack_create I capacity w =
     (if capacity = 0 then ok (NULL, w)
      else rbind (os_malloc I sizeof_Stack w) (\<lambda>(s, w).
        if s = NULL then ok (NULL, w)
        else rbind (os_malloc I (sizeof_ptr * capacity)
                     (put s (O_Stack \<lparr>sk_items = NULL, sk_capacity = capacity, sk_top = 0\<rparr>) w))
          (\<lambda>(items, w).
            if items = NULL then rbind (os_free I s w) (\<lambda>w. ok (NULL, w))
            else ok (s, put s (O_Stack \<lparr>sk_items = items, sk_capacity = capacity, sk_top = 0\<rparr>)
                          (put items (O_Items (replicate (unat (sizeof_ptr * capacity) div unat sizeof_ptr) None)) w)))))"

definition stack_destroy :: "'os atc_interface \<Rightarrow> addr \<Rightarrow> 'os world \<Rightarrow> 'os world res" where
  "stack_destroy I s w =
     (if s = NULL then ok w
      else rbind (get_stack s w) (\<lambda>k.
        if sk_items k \<noteq> NULL then rbind (os_free I (sk_items k) w) (os_free I s)
        else os_free I s w))"

definition stack_push :: "addr \<Rightarrow> addr \<Rightarrow> 'os world \<Rightarrow> (bool \<times> 'os world) res" where
  "stack_push s data w =
     (if s = NULL then ok (False, w)
      else rbind (get_stack s w) (\<lambda>k.
        if sk_top k \<ge> sk_capacity k then ok (False, w)
        else rbind (item_set (sk_items k) (sk_top k) data w) (\<lambda>w.
          ok (True, put s (O_Stack (k\<lparr>sk_top := sk_top k + 1\<rparr>)) w))))"

text \<open>\<open>memmove(&items[0], &items[1], n * sizeof(void*))\<close>.\<close>

definition items_shift :: "addr \<Rightarrow> nat \<Rightarrow> 'os world \<Rightarrow> 'os world res" where
  "items_shift p n w =
     rbind (get_items p w) (\<lambda>xs.
     if n < length xs then ok (put p (O_Items (take n (drop 1 xs) @ drop n xs)) w) else fail OutOfBounds)"

text \<open>
  \<open>free_func\<close> is a null pointer or a function of the caller, here any transformer of the
  world.
\<close>

definition stack_push_overwrite ::
  "addr \<Rightarrow> addr \<Rightarrow> (addr \<Rightarrow> 'os world \<Rightarrow> 'os world res) option \<Rightarrow> 'os world \<Rightarrow> (bool \<times> 'os world) res" where
  "stack_push_overwrite s data free_func w =
     (if s = NULL then ok (False, w)
      else rbind (get_stack s w) (\<lambda>k.
        if sk_capacity k = 0 then ok (False, w)
        else if sk_top k < sk_capacity k
        then rbind (item_set (sk_items k) (sk_top k) data w) (\<lambda>w.
             ok (True, put s (O_Stack (k\<lparr>sk_top := sk_top k + 1\<rparr>)) w))
        else
          rbind (case free_func of
                   None \<Rightarrow> ok w
                 | Some f \<Rightarrow> rbind (item_get (sk_items k) 0 w) (\<lambda>x. if x \<noteq> NULL then f x w else ok w))
            (\<lambda>w. rbind (if sk_capacity k > 1 then items_shift (sk_items k) (unat (sk_capacity k - 1)) w else ok w)
            (\<lambda>w. rbind (item_set (sk_items k) (sk_capacity k - 1) data w)
            (\<lambda>w. ok (True, w))))))"

definition stack_pop :: "addr \<Rightarrow> 'os world \<Rightarrow> (addr \<times> 'os world) res" where
  "stack_pop s w =
     (if s = NULL then ok (NULL, w)
      else rbind (get_stack s w) (\<lambda>k.
        if sk_top k = 0 then ok (NULL, w)
        else let w = put s (O_Stack (k\<lparr>sk_top := sk_top k - 1\<rparr>)) w
             in rbind (item_get (sk_items k) (sk_top k - 1) w) (\<lambda>x. ok (x, w))))"

definition stack_peek :: "addr \<Rightarrow> 'os world \<Rightarrow> addr res" where
  "stack_peek s w =
     (if s = NULL then ok NULL
      else rbind (get_stack s w) (\<lambda>k.
        if sk_top k = 0 then ok NULL else item_get (sk_items k) (sk_top k - 1) w))"

definition stack_peek_at :: "addr \<Rightarrow> size_t \<Rightarrow> 'os world \<Rightarrow> addr res" where
  "stack_peek_at s index w =
     (if s = NULL then ok NULL
      else rbind (get_stack s w) (\<lambda>k.
        if index \<ge> sk_top k then ok NULL else item_get (sk_items k) (sk_top k - 1 - index) w))"

definition stack_is_empty :: "addr \<Rightarrow> 'os world \<Rightarrow> bool res" where
  "stack_is_empty s w =
     (if s = NULL then ok True else rbind (get_stack s w) (\<lambda>k. ok (sk_top k = 0)))"

definition stack_is_full :: "addr \<Rightarrow> 'os world \<Rightarrow> bool res" where
  "stack_is_full s w =
     (if s = NULL then ok False else rbind (get_stack s w) (\<lambda>k. ok (sk_top k = sk_capacity k)))"

definition stack_size :: "addr \<Rightarrow> 'os world \<Rightarrow> size_t res" where
  "stack_size s w = (if s = NULL then ok 0 else rbind (get_stack s w) (\<lambda>k. ok (sk_top k)))"

definition stack_capacity :: "addr \<Rightarrow> 'os world \<Rightarrow> size_t res" where
  "stack_capacity s w = (if s = NULL then ok 0 else rbind (get_stack s w) (\<lambda>k. ok (sk_capacity k)))"

text \<open>The loop that frees the items; the bound \<open>s->top\<close> is read again on each round.\<close>

partial_function (option) stack_clear_loop ::
  "(addr \<Rightarrow> 'os world \<Rightarrow> 'os world res) \<Rightarrow> addr \<Rightarrow> size_t \<Rightarrow> 'os world \<Rightarrow> 'os world res" where
  "stack_clear_loop f s i w =
     rbind (get_stack s w) (\<lambda>k.
     if i < sk_top k
     then rbind (item_get (sk_items k) i w) (\<lambda>x.
          rbind (if x \<noteq> NULL then f x w else ok w) (\<lambda>w. stack_clear_loop f s (i + 1) w))
     else ok w)"

definition stack_clear ::
  "addr \<Rightarrow> (addr \<Rightarrow> 'os world \<Rightarrow> 'os world res) option \<Rightarrow> 'os world \<Rightarrow> 'os world res" where
  "stack_clear s free_func w =
     (if s = NULL then ok w
      else rbind (case free_func of None \<Rightarrow> ok w | Some f \<Rightarrow> stack_clear_loop f s 0 w) (\<lambda>w.
           rbind (get_stack s w) (\<lambda>k. ok (put s (O_Stack (k\<lparr>sk_top := 0\<rparr>)) w))))"

section \<open>Representation\<close>

text \<open>
  \<open>stack_rep w s ip cap xs\<close>: at \<open>s\<close> there is a stack of capacity \<open>cap\<close> whose items
  are at \<open>ip\<close>, and which holds \<open>xs\<close>, bottom first.
\<close>

definition stack_rep :: "'os world \<Rightarrow> addr \<Rightarrow> addr \<Rightarrow> size_t \<Rightarrow> addr list \<Rightarrow> bool" where
  "stack_rep w s ip cap xs \<longleftrightarrow>
     s \<noteq> NULL \<and> ip \<noteq> NULL \<and>
     heap w s = Some (O_Stack \<lparr>sk_items = ip, sk_capacity = cap, sk_top = of_nat (length xs)\<rparr>) \<and>
     (\<exists>its. heap w ip = Some (O_Items its) \<and> length its = unat cap \<and>
        length xs \<le> unat cap \<and> take (length xs) its = map Some xs)"

lemma stack_rep_neq: "stack_rep w s ip cap xs \<Longrightarrow> s \<noteq> ip"
  by (auto simp: stack_rep_def)

lemma stack_rep_unat: "stack_rep w s ip cap xs \<Longrightarrow> unat (of_nat (length xs) :: size_t) = length xs"
  using unsigned_less [of cap, where ?'a = nat]
  by (auto simp: stack_rep_def unat_of_nat)

lemma stack_rep_frame:
  "stack_rep w s ip cap xs \<Longrightarrow> heap w' s = heap w s \<Longrightarrow> heap w' ip = heap w ip \<Longrightarrow> stack_rep w' s ip cap xs"
  by (simp add: stack_rep_def)

lemma stack_rep_top_cmp:
  assumes "stack_rep w s ip cap xs"
  shows "(of_nat (length xs) < cap) = (length xs < unat cap)"
    and "(of_nat (length xs) \<ge> cap) = (length xs = unat cap)"
    and "(of_nat (length xs) = (0 :: size_t)) = (xs = [])"
  using stack_rep_unat [OF assms] assms
  by (auto simp: word_less_nat_alt word_le_nat_alt stack_rep_def word_unat_eq_iff)


section \<open>Functional behaviour\<close>

lemma stack_rep_get:
  "stack_rep w s ip cap xs \<Longrightarrow>
   get_stack s w = ok \<lparr>sk_items = ip, sk_capacity = cap, sk_top = of_nat (length xs)\<rparr>"
  by (simp add: stack_rep_def)

lemma stack_rep_item:
  assumes "stack_rep w s ip cap xs" and "unat i < length xs"
  shows "item_get ip i w = ok (xs ! unat i)"
proof -
  obtain its where its: "heap w ip = Some (O_Items its)" "ip \<noteq> NULL" "length its = unat cap"
      "length xs \<le> unat cap" "take (length xs) its = map Some xs"
    using assms(1) by (auto simp: stack_rep_def)
  have "its ! unat i = Some (xs ! unat i)"
    using assms(2) its by (metis nth_map nth_take)
  then show ?thesis using its assms(2) by (simp add: item_get_def)
qed

lemma item_get_frame: "heap w' p = heap w p \<Longrightarrow> item_get p i w' = item_get p i w"
  by (simp add: item_get_def load_def)

text \<open>Storing at the top of a stack that is not full.\<close>

lemma stack_rep_store:
  assumes rep: "stack_rep w s ip cap xs" and room: "length xs < unat cap"
  shows "\<exists>w1. item_set ip (of_nat (length xs)) d w = ok w1 \<and> heap w1 s = heap w s \<and> only_heap {s, ip} w w1 \<and>
    stack_rep (put s (O_Stack \<lparr>sk_items = ip, sk_capacity = cap, sk_top = of_nat (length xs) + 1\<rparr>) w1)
      s ip cap (xs @ [d])"
proof -
  obtain its where its: "heap w ip = Some (O_Items its)" "length its = unat cap"
      "take (length xs) its = map Some xs"
    using rep by (auto simp: stack_rep_def)
  note neq = stack_rep_neq [OF rep]
  have u: "unat (of_nat (length xs) :: size_t) = length xs" using stack_rep_unat [OF rep] .
  have "take (Suc (length xs)) (its[length xs := Some d]) = map Some (xs @ [d])"
    using its room by (simp add: take_Suc_conv_app_nth)
  then show ?thesis
    using its room neq rep u by (auto simp: item_set_def stack_rep_def only_heap_def add.commute)
qed

lemma stack_push_room:
  assumes "stack_rep w s ip cap xs" and "length xs < unat cap"
  shows "\<exists>w'. stack_push s d w = ok (True, w') \<and> stack_rep w' s ip cap (xs @ [d]) \<and> only_heap {s, ip} w w'"
  using stack_rep_store [OF assms, of d] stack_rep_get [OF assms(1)] stack_rep_top_cmp [OF assms(1)] assms
  by (auto simp: stack_push_def stack_rep_def only_heap_def)

lemma stack_push_full:
  assumes "stack_rep w s ip cap xs" and "length xs = unat cap"
  shows "stack_push s d w = ok (False, w)"
  using stack_rep_get [OF assms(1)] stack_rep_top_cmp(2) [OF assms(1)] assms
  by (simp add: stack_push_def)

text \<open>The forced push of a full stack: shift down, store at the last cell.\<close>

lemma stack_shift_store:
  assumes rep: "stack_rep w s ip cap xs" and full: "length xs = unat cap" and pos: "0 < unat cap"
  shows "\<exists>w'. rbind (if cap > 1 then items_shift ip (unat (cap - 1)) w else ok w)
      (\<lambda>w. item_set ip (cap - 1) d w) = ok w' \<and> stack_rep w' s ip cap (tl xs @ [d]) \<and> only_heap {ip} w w'"
proof -
  obtain its where its: "heap w ip = Some (O_Items its)" "length its = unat cap" "its = map Some xs"
    using rep full by (auto simp: stack_rep_def)
  note neq = stack_rep_neq [OF rep]
  have ip: "ip \<noteq> NULL" "s \<noteq> NULL" using rep by (auto simp: stack_rep_def)
  have c1: "unat (cap - 1) = unat cap - 1"
    using pos by (subst unat_sub_le) auto
  show ?thesis
  proof (cases "cap > 1")
    case True
    let ?n = "unat cap - 1"
    have its2: "take ?n (drop 1 its) @ drop ?n its = tl its @ [last its]"
    proof -
      have "take ?n (drop 1 its) = tl its" using its(2) by (simp add: drop_Suc)
      moreover have "drop ?n its = [last its]"
        using its(2) pos by (metis append_butlast_last_id append_eq_conv_conj length_butlast length_greater_0_conv)
      ultimately show ?thesis by simp
    qed
    have "(tl its @ [last its])[?n := Some d] = tl its @ [Some d]"
      using its(2) by (simp add: list_update_append)
    then have upd: "(tl its @ [last its])[?n := Some d] = map Some (tl xs @ [d])"
      using its(3) by (simp add: map_tl)
    have "length (tl xs @ [d]) = unat cap" using full pos by simp
    then show ?thesis
      using True its its2 upd ip neq c1 pos rep full
      by (auto simp: items_shift_def item_set_def stack_rep_def only_heap_def)
  next
    case False
    then have "unat cap = 1" using pos by (simp add: word_less_nat_alt)
    then have l: "length xs = 1" "cap = 1" using full by (auto simp: word_unat_eq_iff)
    then obtain x where x: "xs = [x]" by (auto simp: length_Suc_conv)
    then show ?thesis using l its ip neq rep full
      by (auto simp: item_set_def stack_rep_def only_heap_def)
  qed
qed

lemma stack_push_overwrite_rep:
  assumes rep: "stack_rep w s ip cap xs" and pos: "0 < unat cap"
  shows "\<exists>w'. stack_push_overwrite s d None w = ok (True, w') \<and>
    stack_rep w' s ip cap (last_n (unat cap) (xs @ [d])) \<and> only_heap {s, ip} w w'"
proof (cases "length xs < unat cap")
  case True
  then have "last_n (unat cap) (xs @ [d]) = xs @ [d]" by (simp add: last_n_all)
  then show ?thesis
    using True stack_rep_store [OF rep True, of d] stack_rep_get [OF rep] stack_rep_top_cmp [OF rep] rep pos
    by (auto simp: stack_push_overwrite_def stack_rep_def only_heap_def)
next
  case False
  then have full: "length xs = unat cap" using rep by (auto simp: stack_rep_def)
  then have "last_n (unat cap) (xs @ [d]) = tl xs @ [d]"
    using pos by (simp add: last_n_def drop_Suc)
  moreover obtain w' where w': "rbind (if cap > 1 then items_shift ip (unat (cap - 1)) w else ok w)
      (\<lambda>w. item_set ip (cap - 1) d w) = ok w'" "stack_rep w' s ip cap (tl xs @ [d])" "only_heap {ip} w w'"
    using stack_shift_store [OF rep full pos, of d] by blast
  moreover have "cap \<noteq> 0" using pos by auto
  moreover have "stack_push_overwrite s d None w =
      rbind (rbind (if cap > 1 then items_shift ip (unat (cap - 1)) w else ok w)
        (\<lambda>w. item_set ip (cap - 1) d w)) (\<lambda>w. ok (True, w))"
    using False full rep stack_rep_get [OF rep] stack_rep_top_cmp [OF rep] \<open>cap \<noteq> 0\<close>
    by (simp add: stack_push_overwrite_def stack_rep_def)
  ultimately show ?thesis by (auto intro: only_heap_mono)
qed

lemma stack_pop_cons:
  assumes rep: "stack_rep w s ip cap (xs @ [x])"
  shows "\<exists>w'. stack_pop s w = ok (x, w') \<and> stack_rep w' s ip cap xs \<and> only_heap {s} w w'"
proof -
  have u: "unat (of_nat (length xs) :: size_t) = length xs"
    using stack_rep_unat [OF rep] unsigned_less [of cap, where ?'a = nat] rep
    by (auto simp: stack_rep_def unat_of_nat)
  let ?w = "put s (O_Stack \<lparr>sk_items = ip, sk_capacity = cap, sk_top = of_nat (length xs)\<rparr>) w"
  have "item_get ip (of_nat (length xs)) w = ok x"
    using stack_rep_item [OF rep, of "of_nat (length xs)"] u by simp
  then have g: "item_get ip (of_nat (length xs)) ?w = ok x"
    using stack_rep_neq [OF rep] item_get_frame [of ?w ip w] by simp
  have nz: "(of_nat (length (xs @ [x])) = (0::size_t)) = False"
    using stack_rep_top_cmp(3) [OF rep] by simp
  have "stack_rep ?w s ip cap xs" using rep stack_rep_neq [OF rep]
    by (auto simp: stack_rep_def take_Suc_conv_app_nth)
  then show ?thesis using g nz rep stack_rep_get [OF rep]
    by (auto simp: stack_pop_def Let_def stack_rep_def)
qed

lemma stack_pop_empty: "stack_rep w s ip cap [] \<Longrightarrow> stack_pop s w = ok (NULL, w)"
  by (simp add: stack_pop_def stack_rep_def)

lemma stack_peek_at_in:
  assumes rep: "stack_rep w s ip cap xs" and i: "unat i < length xs"
  shows "stack_peek_at s i w = ok (rev xs ! unat i)"
proof -
  have u: "unat (of_nat (length xs) :: size_t) = length xs" using stack_rep_unat [OF rep] .
  have lt: "\<not> of_nat (length xs) \<le> i" using u i by (simp add: word_le_nat_alt)
  have "unat (of_nat (length xs) - 1 :: size_t) = length xs - 1"
    using u i by (subst unat_sub_le) auto
  then have "unat (of_nat (length xs) - 1 - i :: size_t) = length xs - 1 - unat i"
    using i by (subst unat_sub_le) auto
  then have "item_get ip (of_nat (length xs) - 1 - i) w = ok (xs ! (length xs - 1 - unat i))"
    using stack_rep_item [OF rep, of "of_nat (length xs) - 1 - i"] i by simp
  then show ?thesis using lt i rep stack_rep_get [OF rep]
    by (simp add: stack_peek_at_def rev_nth stack_rep_def)
qed

lemma stack_peek_at_out:
  assumes rep: "stack_rep w s ip cap xs" and "length xs \<le> unat i"
  shows "stack_peek_at s i w = ok NULL"
  using assms stack_rep_unat [OF rep] stack_rep_get [OF rep]
  by (simp add: stack_peek_at_def stack_rep_def word_le_nat_alt)

lemma stack_peek_top:
  assumes "stack_rep w s ip cap xs"
  shows "stack_peek s w = (if xs = [] then ok NULL else ok (last xs))"
proof (cases "xs = []")
  case False
  have "stack_peek s w = stack_peek_at s 0 w"
    using False assms stack_rep_top_cmp(3) [OF assms] stack_rep_get [OF assms] stack_rep_unat [OF assms]
    by (simp add: stack_peek_def stack_peek_at_def word_le_nat_alt)
  then show ?thesis using False stack_peek_at_in [OF assms, of 0] by (simp add: rev_nth last_conv_nth)
qed (use assms in \<open>simp add: stack_peek_def stack_rep_def\<close>)

lemma stack_clear_rep:
  assumes "stack_rep w s ip cap xs"
  shows "\<exists>w'. stack_clear s None w = ok w' \<and> stack_rep w' s ip cap [] \<and> only_heap {s} w w'"
  using assms stack_rep_neq [OF assms] stack_rep_get [OF assms]
  by (auto simp: stack_clear_def stack_rep_def)

lemma stack_create_rep:
  assumes I: "complete I" "malloc_fresh I" and cap: "cap \<noteq> 0" "unat cap < 2 ^ 30" and w: "heap w NULL = None"
  shows "(\<exists>w'. stack_create I cap w = ok (NULL, w') \<and> heap w' = heap w \<and> ctx w' = ctx w) \<or>
    (\<exists>w' s ip. stack_create I cap w = ok (s, w') \<and> stack_rep w' s ip cap [] \<and>
       heap w s = None \<and> heap w ip = None \<and> ctx w' = ctx w \<and> (\<forall>p. p \<noteq> s \<and> p \<noteq> ip \<longrightarrow> heap w' p = heap w p))"
  using I(1)
proof (cases rule: os_malloc_cases [OF I, of sizeof_Stack w, case_names fails fresh])
  case (fails s)
  then show ?thesis using cap by (auto simp: stack_create_def)
next
  case (fresh a s)
  let ?w1 = "put a (O_Stack \<lparr>sk_items = NULL, sk_capacity = cap, sk_top = 0\<rparr>) (w\<lparr>os := s\<rparr>)"
  have n: "unat (sizeof_ptr * cap) div 4 = unat cap"
    using cap(2) by (simp add: sizeof_ptr_def unat_word_ariths)
  show ?thesis
  proof (cases rule: os_malloc_cases [OF I, of "sizeof_ptr * cap" ?w1, case_names f2 s2])
    case (f2 t)
    obtain u where "os_free I a (?w1\<lparr>os := t\<rparr>) = ok (?w1\<lparr>os := t, heap := (heap ?w1)(a := None), os := u\<rparr>)"
      using os_free_ok [OF I(1), of "?w1\<lparr>os := t\<rparr>" a] by auto
    then show ?thesis using fresh f2 cap by (auto simp: stack_create_def fun_upd_idem)
  next
    case (s2 b t)
    then have "b \<noteq> a" "heap w b = None" by (auto split: if_splits)
    then show ?thesis using fresh s2 cap n
      by (intro disjI2) (auto simp: stack_create_def stack_rep_def sizeof_ptr_def)
  qed
qed


section \<open>The window interface\<close>

text \<open>
  What prompt matching relies on: a store of the last \<open>depth\<close> elements that can be read
  from the newest backwards, answers \<open>none\<close> beyond them, and can be emptied.
\<close>

locale window =
  fixes push :: "'a \<Rightarrow> 'w \<Rightarrow> (bool \<times> 'w) res"
    and peek_at :: "size_t \<Rightarrow> 'w \<Rightarrow> 'a res"
    and clear :: "'w \<Rightarrow> 'w res"
    and none :: 'a
    and depth :: nat
    and holds :: "'w \<Rightarrow> 'a list \<Rightarrow> bool"
  assumes push_holds: "holds w xs \<Longrightarrow> runs (push x w) (\<lambda>(b, w'). b \<and> holds w' (last_n depth (xs @ [x])))"
    and peek_in: "holds w xs \<Longrightarrow> unat i < length xs \<Longrightarrow> peek_at i w = ok (rev xs ! unat i)"
    and peek_out: "holds w xs \<Longrightarrow> length xs \<le> unat i \<Longrightarrow> peek_at i w = ok none"
    and clear_holds: "holds w xs \<Longrightarrow> runs (clear w) (\<lambda>w'. holds w' [])"
begin

text \<open>A window that holds the last elements of a sequence still does after a push.\<close>

lemma push_history:
  "holds w (last_n depth hist) \<Longrightarrow>
   runs (push x w) (\<lambda>(b, w'). b \<and> holds w' (last_n depth (hist @ [x])))"
  using push_holds [of w "last_n depth hist" x] by (simp add: last_n_snoc)

text \<open>Reading back: the \<open>i\<close>-th newest element of the sequence, as long as it is in the window.\<close>

lemma peek_history:
  assumes "holds w (last_n depth hist)" and "unat i < depth"
  shows "peek_at i w = ok (if unat i < length hist then rev hist ! unat i else none)"
proof (cases "unat i < length hist")
  case True
  then have "rev (last_n depth hist) ! unat i = rev hist ! unat i"
    using assms(2) by (simp add: last_n_def rev_drop)
  then show ?thesis using True peek_in [OF assms(1), of i] assms(2) by simp
next
  case False
  then show ?thesis using peek_out [OF assms(1), of i] by simp
qed

text \<open>Beyond the depth there is nothing to see.\<close>

lemma peek_beyond: "holds w (last_n depth hist) \<Longrightarrow> depth \<le> unat i \<Longrightarrow> peek_at i w = ok none"
  using peek_out [of w "last_n depth hist" i] by simp

end

definition stack_holds :: "addr \<Rightarrow> addr \<Rightarrow> size_t \<Rightarrow> 'os world \<Rightarrow> addr list \<Rightarrow> bool" where
  "stack_holds s ip cap w xs \<longleftrightarrow> cap \<noteq> 0 \<and> stack_rep w s ip cap xs"

interpretation prompt_window: window "\<lambda>x. stack_push_overwrite s x None" "stack_peek_at s"
  "stack_clear s None" NULL "unat cap" "stack_holds s ip cap"
  for s ip :: addr and cap :: size_t
proof unfold_locales
  fix w :: "'a world" and xs x and i :: size_t
  assume h: "stack_holds s ip cap w xs"
  then have rep: "stack_rep w s ip cap xs" and pos: "0 < unat cap"
    by (auto simp: stack_holds_def unat_gt_0)
  show "runs (stack_push_overwrite s x None w) (\<lambda>(b, w'). b \<and> stack_holds s ip cap w' (last_n (unat cap) (xs @ [x])))"
    using stack_push_overwrite_rep [OF rep pos, of x] h by (auto simp: stack_holds_def)
  show "unat i < length xs \<Longrightarrow> stack_peek_at s i w = ok (rev xs ! unat i)"
    by (rule stack_peek_at_in [OF rep])
  show "length xs \<le> unat i \<Longrightarrow> stack_peek_at s i w = ok NULL"
    by (rule stack_peek_at_out [OF rep])
  show "runs (stack_clear s None w) (\<lambda>w'. stack_holds s ip cap w' [])"
    using stack_clear_rep [OF rep] h by (auto simp: stack_holds_def)
qed

section \<open>Properties\<close>

text \<open>A world with one stack, for the witnesses.\<close>

definition demo_stack_world :: "unit world" where
  "demo_stack_world = \<lparr>heap = [8 \<mapsto> O_Stack \<lparr>sk_items = 9, sk_capacity = 2, sk_top = 2\<rparr>,
      9 \<mapsto> O_Items [Some 65, Some 66]], os = (), ctx = demo_context, trace = []\<rparr>"

lemma demo_stack_rep: "stack_rep demo_stack_world 8 9 2 [65, 66]"
  by (simp add: stack_rep_def demo_stack_world_def)

text \<open>
  C33: \<open>stack_push_overwrite\<close> without a free function always succeeds on a stack of positive
  capacity, never leaves the item array, and the stack then holds the last \<open>capacity\<close>
  elements ever pushed; nothing but the two objects of the stack changes.
\<close>

theorem stack_overwrite_keeps_window:
  assumes "stack_rep w s ip cap xs" and "0 < unat cap"
  shows "\<exists>w'. stack_push_overwrite s d None w = ok (True, w') \<and>
    stack_rep w' s ip cap (last_n (unat cap) (xs @ [d])) \<and> only_heap {s, ip} w w'"
  by (rule stack_push_overwrite_rep [OF assms])

theorem stack_overwrite_keeps_window_witness:
  "\<exists>w'. stack_push_overwrite 8 67 None demo_stack_world = ok (True, w') \<and> stack_rep w' 8 9 2 [66, 67]"
  using stack_overwrite_keeps_window [OF demo_stack_rep, of 67] by (auto simp: last_n_def)

text \<open>
  The stack is last-in first-out and bounded: a push onto a stack that is not full is
  undone by a pop that returns the pushed pointer, a push onto a full stack is refused
  without any change, and popping an empty stack returns a null pointer.
\<close>

theorem stack_lifo:
  assumes "stack_rep w s ip cap xs"
  shows "(if length xs < unat cap
     then runs (rbind (stack_push s d w) (\<lambda>(b, w1). rbind (stack_pop s w1) (\<lambda>(x, w2). ok (b, x, w2))))
            (\<lambda>(b, x, w2). b \<and> x = d \<and> stack_rep w2 s ip cap xs)
     else stack_push s d w = ok (False, w)) \<and>
    (xs = [] \<longrightarrow> stack_pop s w = ok (NULL, w))"
proof -
  have "runs (rbind (stack_push s d w) (\<lambda>(b, w1). rbind (stack_pop s w1) (\<lambda>(x, w2). ok (b, x, w2))))
      (\<lambda>(b, x, w2). b \<and> x = d \<and> stack_rep w2 s ip cap xs)" if room: "length xs < unat cap"
  proof -
    obtain w1 where w1: "stack_push s d w = ok (True, w1)" "stack_rep w1 s ip cap (xs @ [d])"
      using stack_push_room [OF assms room] by blast
    then show ?thesis using stack_pop_cons [OF w1(2)] by auto
  qed
  moreover have "stack_push s d w = ok (False, w)" if "\<not> length xs < unat cap"
    using that assms stack_push_full [OF assms] by (auto simp: stack_rep_def)
  ultimately show ?thesis using stack_pop_empty assms by auto
qed

theorem stack_lifo_witness: "stack_push 8 67 demo_stack_world = ok (False, demo_stack_world)"
  using stack_lifo [OF demo_stack_rep, of 67] by simp

text \<open>
  The product \<open>sizeof(void*) * capacity\<close> of \<open>stack_create\<close> is not checked.  For the
  capacity \<open>2^30 + 1\<close> it wraps to four bytes: whenever both allocations succeed, the
  stack that is returned has a single cell, and its second push writes outside the array.
\<close>

theorem stack_create_size_wraps:
  assumes "complete I" and "malloc_fresh I"
  shows "case stack_create I 0x40000001 w of
      Some (Inr (s, w')) \<Rightarrow> s = NULL \<or>
        rbind (stack_push s 1 w') (\<lambda>(b, w2). stack_push s 2 w2) = fail OutOfBounds
    | _ \<Rightarrow> False"
proof (cases rule: os_malloc_cases [OF assms, of sizeof_Stack w, case_names fails fresh])
  case (fails s)
  then show ?thesis by (simp add: stack_create_def)
next
  case (fresh a s)
  let ?w1 = "put a (O_Stack \<lparr>sk_items = NULL, sk_capacity = 0x40000001, sk_top = 0\<rparr>) (w\<lparr>os := s\<rparr>)"
  show ?thesis
  proof (cases rule: os_malloc_cases [OF assms, of "sizeof_ptr * 0x40000001" ?w1, case_names f2 s2])
    case (f2 t)
    then show ?thesis using fresh os_free_ok [OF assms(1), of "?w1\<lparr>os := t\<rparr>" a]
      by (auto simp: stack_create_def)
  next
    case (s2 b t)
    then have "b \<noteq> a" by (auto split: if_splits)
    then show ?thesis using fresh s2
      by (auto simp: stack_create_def sizeof_ptr_def stack_push_def item_set_def arr_set_def word_le_nat_alt)
  qed
qed


theorem stack_create_size_wraps_witness:
  "\<exists>s w'. stack_create platform_interface 0x40000001 platform_world = ok (s, w') \<and> s \<noteq> NULL \<and>
     rbind (stack_push s 1 w') (\<lambda>(b, w2). stack_push s 2 w2) = fail OutOfBounds"
proof -
  have "\<exists>w'. stack_create platform_interface 0x40000001 platform_world = ok (100, w')"
    by (simp add: sample_run stack_create_def sizeof_ptr_def platform_world_def platform_start_def)
  then show ?thesis
    using stack_create_size_wraps [OF platform_complete platform_malloc_fresh, of platform_world] by auto
qed

end
