(* ===== verification/Slist.thy ===== *)
theory Slist
  imports ATC_Interface
begin

text \<open>
  \<open>slist.c\<close>: the singly linked list that holds the URC handlers.  Nodes and the list
  struct are heap objects, links are addresses; the operations follow the pointer code and
  refine lists of data pointers.
\<close>

section \<open>Operations\<close>

abbreviation get_node where "get_node \<equiv> load sel_node"
abbreviation get_list where "get_list \<equiv> load sel_list"

text \<open>The free callbacks a list can hold: \<open>urc_free\<close> of \<open>urc_handle.c\<close>, or the application's.\<close>

definition urc_free :: "'os atc_interface \<Rightarrow> addr \<Rightarrow> 'os world \<Rightarrow> 'os world res" where
  "urc_free I data w = (if data \<noteq> NULL then os_free I data w else ok w)"

definition run_free_fn :: "'os atc_interface \<Rightarrow> free_fn \<Rightarrow> addr \<Rightarrow> 'os world \<Rightarrow> 'os world res" where
  "run_free_fn I f data w =
     (case f of Urc_Free \<Rightarrow> urc_free I data w | App_Free a \<Rightarrow> ok (emit (Ev_App_Free a data) w))"

definition slist_new_node :: "'os atc_interface \<Rightarrow> addr \<Rightarrow> 'os world \<Rightarrow> (addr \<times> 'os world) res" where
  "slist_new_node I data w =
     rbind (os_malloc I sizeof_slist_node w) (\<lambda>(node, w).
     if node \<noteq> NULL then ok (node, put node (O_Node \<lparr>nd_data = data, nd_next = NULL\<rparr>) w)
     else ok (node, w))"

definition slist_create :: "'os atc_interface \<Rightarrow> free_fn option \<Rightarrow> 'os world \<Rightarrow> (addr \<times> 'os world) res" where
  "slist_create I fn w =
     rbind (os_malloc I sizeof_slist w) (\<lambda>(l, w).
     if l \<noteq> NULL
     then ok (l, put l (O_List \<lparr>ls_head = NULL, ls_tail = NULL, ls_len = 0, ls_free_fn = fn\<rparr>) w)
     else ok (l, w))"

text \<open>\<open>if (list->free_fn && data) list->free_fn(data)\<close>.\<close>

definition free_data :: "'os atc_interface \<Rightarrow> addr \<Rightarrow> addr \<Rightarrow> 'os world \<Rightarrow> 'os world res" where
  "free_data I list data w =
     rbind (get_list list w) (\<lambda>l.
     case ls_free_fn l of
       None \<Rightarrow> ok w
     | Some f \<Rightarrow> if data \<noteq> NULL then run_free_fn I f data w else ok w)"

partial_function (option) slist_destroy_loop ::
  "'os atc_interface \<Rightarrow> addr \<Rightarrow> addr \<Rightarrow> 'os world \<Rightarrow> 'os world res" where
  "slist_destroy_loop I list cur w =
     (if cur = NULL then ok w
      else rbind (get_node cur w) (\<lambda>n.
           rbind (free_data I list (nd_data n) w) (\<lambda>w.
           rbind (os_free I cur w) (\<lambda>w. slist_destroy_loop I list (nd_next n) w))))"

definition slist_destroy :: "'os atc_interface \<Rightarrow> addr \<Rightarrow> 'os world \<Rightarrow> 'os world res" where
  "slist_destroy I list w =
     (if list = NULL then ok w
      else rbind (get_list list w) (\<lambda>l.
           rbind (slist_destroy_loop I list (ls_head l) w) (\<lambda>w. os_free I list w)))"

definition slist_append :: "'os atc_interface \<Rightarrow> addr \<Rightarrow> addr \<Rightarrow> 'os world \<Rightarrow> (int \<times> 'os world) res" where
  "slist_append I list data w =
     (if list = NULL then ok (-1, w)
      else rbind (slist_new_node I data w) (\<lambda>(node, w).
        if node = NULL then ok (-1, w)
        else rbind (get_list list w) (\<lambda>l.
          if ls_len l = 0
          then ok (0, put list (O_List (l\<lparr>ls_head := node, ls_tail := node, ls_len := ls_len l + 1\<rparr>)) w)
          else rbind (get_node (ls_tail l) w) (\<lambda>t.
               ok (0, put list (O_List (l\<lparr>ls_tail := node, ls_len := ls_len l + 1\<rparr>))
                        (put (ls_tail l) (O_Node (t\<lparr>nd_next := node\<rparr>)) w))))))"

definition slist_prepend :: "'os atc_interface \<Rightarrow> addr \<Rightarrow> addr \<Rightarrow> 'os world \<Rightarrow> (int \<times> 'os world) res" where
  "slist_prepend I list data w =
     (if list = NULL then ok (-1, w)
      else rbind (slist_new_node I data w) (\<lambda>(node, w).
        if node = NULL then ok (-1, w)
        else rbind (get_list list w) (\<lambda>l.
          if ls_len l = 0
          then ok (0, put list (O_List (l\<lparr>ls_head := node, ls_tail := node, ls_len := ls_len l + 1\<rparr>)) w)
          else rbind (get_node node w) (\<lambda>n.
               ok (0, put list (O_List (l\<lparr>ls_head := node, ls_len := ls_len l + 1\<rparr>))
                        (put node (O_Node (n\<lparr>nd_next := ls_head l\<rparr>)) w))))))"

definition slist_len :: "addr \<Rightarrow> 'os world \<Rightarrow> size_t res" where
  "slist_len list w = (if list \<noteq> NULL then rbind (get_list list w) (\<lambda>l. ok (ls_len l)) else ok 0)"

partial_function (option) slist_get_loop :: "size_t \<Rightarrow> addr \<Rightarrow> 'os world \<Rightarrow> addr res" where
  "slist_get_loop index cur w =
     (if index > 0 \<and> cur \<noteq> NULL
      then rbind (get_node cur w) (\<lambda>n. slist_get_loop (index - 1) (nd_next n) w)
      else if cur \<noteq> NULL then rbind (get_node cur w) (\<lambda>n. ok (nd_data n)) else ok NULL)"

definition slist_get :: "addr \<Rightarrow> size_t \<Rightarrow> 'os world \<Rightarrow> addr res" where
  "slist_get list index w =
     (if list = NULL then ok NULL
      else rbind (get_list list w) (\<lambda>l.
        if index \<ge> ls_len l then ok NULL
        else if index = ls_len l - 1 then rbind (get_node (ls_tail l) w) (\<lambda>t. ok (nd_data t))
        else slist_get_loop index (ls_head l) w))"

text \<open>
  The statements that take \<open>cur\<close> out of the list, the same in \<open>slist_remove\<close> and
  \<open>slist_remove_at\<close>: relink, fix head or tail, free the data and the node, decrement.
\<close>

definition slist_unlink ::
  "'os atc_interface \<Rightarrow> addr \<Rightarrow> addr \<Rightarrow> addr \<Rightarrow> 'os world \<Rightarrow> (int \<times> 'os world) res" where
  "slist_unlink I list prev cur w =
     rbind (get_list list w) (\<lambda>l.
     rbind (get_node cur w) (\<lambda>c.
     rbind (if prev \<noteq> NULL
            then rbind (get_node prev w) (\<lambda>p.
                 let w = put prev (O_Node (p\<lparr>nd_next := nd_next c\<rparr>)) w
                 in ok (if cur = ls_tail l then put list (O_List (l\<lparr>ls_tail := prev\<rparr>)) w else w))
            else ok (put list (O_List (l\<lparr>ls_head := nd_next c,
                                        ls_tail := if ls_len l = 1 then NULL else ls_tail l\<rparr>)) w))
       (\<lambda>w. rbind (free_data I list (nd_data c) w)
       (\<lambda>w. rbind (os_free I cur w)
       (\<lambda>w. rbind (get_list list w)
       (\<lambda>l. ok (0, put list (O_List (l\<lparr>ls_len := ls_len l - 1\<rparr>)) w)))))))"

partial_function (option) slist_remove_loop ::
  "'os atc_interface \<Rightarrow> addr \<Rightarrow> addr \<Rightarrow> addr \<Rightarrow> addr \<Rightarrow> 'os world \<Rightarrow> (int \<times> 'os world) res" where
  "slist_remove_loop I list data prev cur w =
     (if cur = NULL then ok (-1, w)
      else rbind (get_node cur w) (\<lambda>n.
        if nd_data n = data then slist_unlink I list prev cur w
        else slist_remove_loop I list data cur (nd_next n) w))"

definition slist_remove :: "'os atc_interface \<Rightarrow> addr \<Rightarrow> addr \<Rightarrow> 'os world \<Rightarrow> (int \<times> 'os world) res" where
  "slist_remove I list data w =
     (if list = NULL then ok (-1, w)
      else rbind (get_list list w) (\<lambda>l.
        if ls_len l = 0 then ok (-1, w) else slist_remove_loop I list data NULL (ls_head l) w))"

text \<open>The loop that finds the node at an index: the pair of \<open>prev\<close> and \<open>cur\<close>.\<close>

partial_function (option) slist_seek ::
  "size_t \<Rightarrow> size_t \<Rightarrow> addr \<Rightarrow> addr \<Rightarrow> 'os world \<Rightarrow> (addr \<times> addr) res" where
  "slist_seek i index prev cur w =
     (if i < index then rbind (get_node cur w) (\<lambda>n. slist_seek (i + 1) index cur (nd_next n) w)
      else ok (prev, cur))"

definition slist_remove_at :: "'os atc_interface \<Rightarrow> addr \<Rightarrow> size_t \<Rightarrow> 'os world \<Rightarrow> (int \<times> 'os world) res" where
  "slist_remove_at I list index w =
     (if list = NULL then ok (-1, w)
      else rbind (get_list list w) (\<lambda>l.
        if index \<ge> ls_len l then ok (-1, w)
        else rbind (slist_seek 0 index NULL (ls_head l) w) (\<lambda>(prev, cur). slist_unlink I list prev cur w)))"

partial_function (option) slist_reverse_loop :: "addr \<Rightarrow> addr \<Rightarrow> 'os world \<Rightarrow> (addr \<times> 'os world) res" where
  "slist_reverse_loop prev cur w =
     (if cur = NULL then ok (prev, w)
      else rbind (get_node cur w) (\<lambda>n.
           slist_reverse_loop cur (nd_next n) (put cur (O_Node (n\<lparr>nd_next := prev\<rparr>)) w)))"

definition slist_reverse :: "addr \<Rightarrow> 'os world \<Rightarrow> 'os world res" where
  "slist_reverse list w =
     (if list = NULL then ok w
      else rbind (get_list list w) (\<lambda>l.
        if ls_len l < 2 then ok w
        else rbind (slist_reverse_loop NULL (ls_head l) (put list (O_List (l\<lparr>ls_tail := ls_head l\<rparr>)) w))
               (\<lambda>(prev, w). rbind (get_list list w) (\<lambda>l. ok (put list (O_List (l\<lparr>ls_head := prev\<rparr>)) w)))))"

section \<open>Representation\<close>

text \<open>
  \<open>list_seg h p xs q\<close>: the nodes from \<open>p\<close> up to \<open>q\<close> are, in order, the pairs of node
  address and data pointer \<open>xs\<close>.
\<close>

fun list_seg :: "store \<Rightarrow> addr \<Rightarrow> (addr \<times> addr) list \<Rightarrow> addr \<Rightarrow> bool" where
  "list_seg h p [] q \<longleftrightarrow> p = q"
| "list_seg h p ((a, d) # xs) q \<longleftrightarrow> p = a \<and> a \<noteq> NULL \<and>
     (\<exists>n. h a = Some (O_Node \<lparr>nd_data = d, nd_next = n\<rparr>) \<and> list_seg h n xs q)"

definition slist_rep :: "'os world \<Rightarrow> addr \<Rightarrow> free_fn option \<Rightarrow> (addr \<times> addr) list \<Rightarrow> bool" where
  "slist_rep w list fn xs \<longleftrightarrow> list \<noteq> NULL \<and> distinct (map fst xs) \<and>
     (\<exists>h. heap w list = Some (O_List \<lparr>ls_head = h,
             ls_tail = (if xs = [] then NULL else fst (last xs)),
             ls_len = of_nat (length xs), ls_free_fn = fn\<rparr>) \<and>
          list_seg (heap w) h xs NULL)"

lemma list_seg_append:
  "list_seg h p (xs @ ys) q \<longleftrightarrow> (\<exists>r. list_seg h p xs r \<and> list_seg h r ys q)"
  by (induction xs arbitrary: p) (auto, blast+)

lemma list_seg_cong:
  "(\<And>a. a \<in> fst ` set xs \<Longrightarrow> h' a = h a) \<Longrightarrow> list_seg h' p xs q = list_seg h p xs q"
  by (induction xs arbitrary: p) (auto 0 3)

lemma list_seg_upd [simp]:
  "a \<notin> fst ` set xs \<Longrightarrow> list_seg (h(a := x)) p xs q = list_seg h p xs q"
  by (rule list_seg_cong) auto

lemma list_seg_NULL [simp]: "list_seg h NULL xs q \<longleftrightarrow> xs = [] \<and> q = NULL"
  by (cases xs) auto

lemma list_seg_nodes:
  "list_seg h p xs q \<Longrightarrow> (a, d) \<in> set xs \<Longrightarrow> a \<noteq> NULL \<and> (\<exists>n. h a = Some (O_Node \<lparr>nd_data = d, nd_next = n\<rparr>))"
  by (induction xs arbitrary: p) auto

text \<open>Well-formed lists are shorter than \<open>2^32\<close>, so the 32-bit length is exact.\<close>

lemma slist_rep_length:
  assumes "slist_rep w list fn xs"
  shows "length xs < 2 ^ 32" and "unat (of_nat (length xs) :: size_t) = length xs"
    and "(of_nat (length xs) = (0 :: size_t)) = (xs = [])"
    and "(of_nat (length xs) = (1 :: size_t)) = (length xs = 1)"
proof -
  have "NULL \<notin> set (map fst xs)" using assms list_seg_nodes by (fastforce simp: slist_rep_def)
  then have "length (map fst xs) < 2 ^ 32"
    using assms by (intro distinct_addr_length) (auto simp: slist_rep_def)
  then show l: "length xs < 2 ^ 32" by simp
  then show u: "unat (of_nat (length xs) :: size_t) = length xs" by (simp add: unat_of_nat)
  show "(of_nat (length xs) = (0 :: size_t)) = (xs = [])"
    and "(of_nat (length xs) = (1 :: size_t)) = (length xs = 1)"
    using u by (simp_all add: word_unat_eq_iff)
qed

lemma slist_rep_frame:
  assumes "slist_rep w list fn xs" and "heap w' list = heap w list"
    and "\<And>a. a \<in> fst ` set xs \<Longrightarrow> heap w' a = heap w a"
  shows "slist_rep w' list fn xs"
  using assms list_seg_cong [of xs "heap w'" "heap w"] by (simp add: slist_rep_def)

text \<open>What kinds of objects the list is made of.\<close>

lemma slist_rep_kinds:
  assumes "slist_rep w list fn xs"
  shows "\<exists>l. heap w list = Some (O_List l)" and "a \<in> fst ` set xs \<Longrightarrow> \<exists>n. heap w a = Some (O_Node n)"
  using assms list_seg_nodes by (fastforce simp: slist_rep_def)+

lemma slist_rep_list_notin: "slist_rep w list fn xs \<Longrightarrow> list \<notin> fst ` set xs"
  using slist_rep_kinds(1) [of w list fn xs] slist_rep_kinds(2) [of w list fn xs list] by (metis obj.distinct(1) option.inject)


section \<open>Functional behaviour\<close>

lemma slist_new_node_cases:
  assumes "complete I" "malloc_fresh I"
  obtains (fails) s where "slist_new_node I d w = ok (NULL, w\<lparr>os := s\<rparr>)"
    | (fresh) a s where "slist_new_node I d w = ok (a, put a (O_Node \<lparr>nd_data = d, nd_next = NULL\<rparr>) (w\<lparr>os := s\<rparr>))"
        "a \<noteq> NULL" "heap w a = None"
  by (cases rule: os_malloc_cases [OF assms, of sizeof_slist_node w])
    (auto simp: slist_new_node_def)

lemma slist_create_rep:
  assumes "complete I" "malloc_fresh I"
  shows "\<exists>l w'. slist_create I fn w = ok (l, w') \<and>
    (if l = NULL then frame {} w w' else heap w l = None \<and> frame {l} w w' \<and> slist_rep w' l fn [])"
  by (cases rule: os_malloc_cases [OF assms, of sizeof_slist w])
    (auto simp: slist_create_def slist_rep_def frame_def)

text \<open>Both inserts: a fresh node for the data, or \<open>-1\<close> and no visible change.\<close>

lemma slist_append_rep:
  assumes I: "complete I" "malloc_fresh I" and rep: "slist_rep w list fn xs"
  shows "\<exists>r w'. slist_append I list d w = ok (r, w') \<and>
    (if r = 0 then \<exists>a. a \<noteq> NULL \<and> heap w a = None \<and> slist_rep w' list fn (xs @ [(a, d)]) \<and>
                     frame ({list, a} \<union> fst ` set xs) w w'
     else r = -1 \<and> frame {} w w')"
proof (cases rule: slist_new_node_cases [OF I, of d w, case_names fails fresh])
  case (fails s)
  then show ?thesis using rep by (auto simp: slist_append_def slist_rep_def)
next
  case (fresh a s)
  obtain h where h: "list \<noteq> NULL" "heap w list = Some (O_List \<lparr>ls_head = h,
      ls_tail = (if xs = [] then NULL else fst (last xs)), ls_len = of_nat (length xs), ls_free_fn = fn\<rparr>)"
    "list_seg (heap w) h xs NULL" "distinct (map fst xs)"
    using rep by (auto simp: slist_rep_def)
  have fr: "a \<noteq> list" "a \<notin> fst ` set xs" using h fresh(3) by (auto dest!: list_seg_nodes)
  note len = slist_rep_length [OF rep]
  show ?thesis
  proof (cases "xs = []")
    case True
    then show ?thesis using h fresh fr
      by (auto simp: slist_append_def slist_rep_def frame_def)
  next
    case False
    then obtain ys t e where ys: "xs = ys @ [(t, e)]" by (metis prod.exhaust rev_exhaust)
    have seg: "list_seg (heap w) h ys t" "t \<noteq> NULL" "heap w t = Some (O_Node \<lparr>nd_data = e, nd_next = NULL\<rparr>)"
      using h(3) by (auto simp: ys list_seg_append)
    have tn: "t \<notin> fst ` set ys" "t \<noteq> list" "t \<noteq> a" "list \<notin> fst ` set ys" "a \<notin> fst ` set ys"
      using h(2,4) seg(3) fr slist_rep_list_notin [OF rep] by (auto simp: ys)
    show ?thesis using h fresh fr False seg tn len
      by (auto simp: slist_append_def slist_rep_def frame_def ys list_seg_append add.commute)
  qed
qed

lemma slist_prepend_rep:
  assumes I: "complete I" "malloc_fresh I" and rep: "slist_rep w list fn xs"
  shows "\<exists>r w'. slist_prepend I list d w = ok (r, w') \<and>
    (if r = 0 then \<exists>a. a \<noteq> NULL \<and> heap w a = None \<and> slist_rep w' list fn ((a, d) # xs) \<and>
                     frame {list, a} w w'
     else r = -1 \<and> frame {} w w')"
proof (cases rule: slist_new_node_cases [OF I, of d w, case_names fails fresh])
  case (fails s)
  then show ?thesis using rep by (auto simp: slist_prepend_def slist_rep_def)
next
  case (fresh a s)
  obtain h where h: "list \<noteq> NULL" "heap w list = Some (O_List \<lparr>ls_head = h,
      ls_tail = (if xs = [] then NULL else fst (last xs)), ls_len = of_nat (length xs), ls_free_fn = fn\<rparr>)"
    "list_seg (heap w) h xs NULL" "distinct (map fst xs)"
    using rep by (auto simp: slist_rep_def)
  have fr: "a \<noteq> list" "a \<notin> fst ` set xs" using h fresh(3) by (auto dest!: list_seg_nodes)
  show ?thesis using h fresh fr slist_rep_length [OF rep] slist_rep_list_notin [OF rep]
    by (cases "xs = []") (auto simp: slist_prepend_def slist_rep_def frame_def add.commute)
qed

lemma slist_len_rep: "slist_rep w list fn xs \<Longrightarrow> slist_len list w = ok (of_nat (length xs))"
  by (auto simp: slist_len_def slist_rep_def)

lemma slist_get_loop_seg:
  "list_seg (heap w) p xs NULL \<Longrightarrow> unat i < length xs \<Longrightarrow> slist_get_loop i p w = ok (snd (xs ! unat i))"
proof (induction xs arbitrary: p i)
  case (Cons x xs)
  obtain a d where x: "x = (a, d)" by (cases x)
  then obtain n where n: "p = a" "a \<noteq> NULL" "heap w a = Some (O_Node \<lparr>nd_data = d, nd_next = n\<rparr>)"
      "list_seg (heap w) n xs NULL"
    using Cons.prems by auto
  show ?case
  proof (cases "i = 0")
    case True
    then show ?thesis using n x by (simp add: slist_get_loop.simps)
  next
    case False
    then have u0: "0 < unat i" by (simp add: unat_gt_0)
    then have u: "unat (i - 1) = unat i - 1" by (subst unat_sub_le) auto
    have "slist_get_loop i p w = slist_get_loop (i - 1) n w"
      using False n by (subst slist_get_loop.simps) (simp add: word_gt_0)
    then show ?thesis using Cons.IH [OF n(4), of "i - 1"] u u0 Cons.prems(2) by (cases "unat i") (auto simp: x)
  qed
qed simp

text \<open>Indexing, fast path included.\<close>

lemma slist_get_rep:
  assumes rep: "slist_rep w list fn xs"
  shows "slist_get list i w = ok (if unat i < length xs then snd (xs ! unat i) else NULL)"
proof -
  obtain h where h: "list \<noteq> NULL" "heap w list = Some (O_List \<lparr>ls_head = h,
      ls_tail = (if xs = [] then NULL else fst (last xs)), ls_len = of_nat (length xs), ls_free_fn = fn\<rparr>)"
    "list_seg (heap w) h xs NULL"
    using rep by (auto simp: slist_rep_def)
  note len = slist_rep_length [OF rep]
  have ge: "(of_nat (length xs) \<le> i) = (length xs \<le> unat i)" using len(2) by (simp add: word_le_nat_alt)
  show ?thesis
  proof (cases "unat i < length xs \<and> i = of_nat (length xs) - 1")
    case True
    then have ne: "xs \<noteq> []" by auto
    then have "unat i = length xs - 1" using True len(2)
      by (metis One_nat_def Suc_leI length_greater_0_conv unat_1 unat_sub_le)
    moreover have "heap w (fst (last xs)) = Some (O_Node \<lparr>nd_data = snd (last xs), nd_next = NULL\<rparr>) \<and> fst (last xs) \<noteq> NULL"
    proof -
      obtain ys t e where "xs = ys @ [(t, e)]" using ne by (metis prod.exhaust rev_exhaust)
      then show ?thesis using h(3) by (auto simp: list_seg_append)
    qed
    moreover have "\<not> length xs \<le> length xs - Suc 0" using ne by (cases xs) auto
    ultimately show ?thesis using True ne h ge by (simp add: slist_get_def last_conv_nth)
  next
    case False
    then show ?thesis using h ge slist_get_loop_seg [OF h(3), of i] by (auto simp: slist_get_def)
  qed
qed


section \<open>Removal\<close>

text \<open>The node before a position.\<close>

definition prev_of :: "(addr \<times> addr) list \<Rightarrow> addr" where
  "prev_of ys = (if ys = [] then NULL else fst (last ys))"

lemma prev_of_snoc [simp]: "prev_of [] = NULL" "prev_of (ys @ [(a, d)]) = a"
  by (simp_all add: prev_of_def)

text \<open>The relinking part of \<open>slist_unlink\<close>.\<close>

definition slist_relink :: "addr \<Rightarrow> addr \<Rightarrow> addr \<Rightarrow> slist \<Rightarrow> slist_node \<Rightarrow> 'os world \<Rightarrow> 'os world res" where
  "slist_relink list prev cur l c w =
     (if prev \<noteq> NULL
      then rbind (get_node prev w) (\<lambda>p.
           let w = put prev (O_Node (p\<lparr>nd_next := nd_next c\<rparr>)) w
           in ok (if cur = ls_tail l then put list (O_List (l\<lparr>ls_tail := prev\<rparr>)) w else w))
      else ok (put list (O_List (l\<lparr>ls_head := nd_next c,
                                  ls_tail := if ls_len l = 1 then NULL else ls_tail l\<rparr>)) w))"

lemma slist_relink_seg:
  assumes rep: "slist_rep w list fn (ys @ (a, d) # vs)"
    and l: "get_list list w = ok l" and c: "get_node a w = ok c"
  shows "\<exists>w1 h. slist_relink list (prev_of ys) a l c w = ok w1 \<and>
    heap w1 list = Some (O_List \<lparr>ls_head = h, ls_tail = prev_of (ys @ vs),
      ls_len = of_nat (Suc (length ys + length vs)), ls_free_fn = fn\<rparr>) \<and>
    list_seg (heap w1) h (ys @ vs) NULL \<and> heap w1 a = heap w a \<and>
    only_heap ({list} \<union> fst ` set ys) w w1 \<and> nd_data c = d"
proof -
  obtain h where h: "list \<noteq> NULL" "heap w list = Some (O_List \<lparr>ls_head = h,
      ls_tail = fst (last (ys @ (a, d) # vs)), ls_len = of_nat (Suc (length ys + length vs)), ls_free_fn = fn\<rparr>)"
    "list_seg (heap w) h (ys @ (a, d) # vs) NULL" "distinct (map fst (ys @ (a, d) # vs))"
    using rep by (auto simp: slist_rep_def)
  obtain n where n: "list_seg (heap w) h ys a" "a \<noteq> NULL"
      "heap w a = Some (O_Node \<lparr>nd_data = d, nd_next = n\<rparr>)" "list_seg (heap w) n vs NULL"
    using h(3) by (auto simp: list_seg_append)
  have l': "l = \<lparr>ls_head = h, ls_tail = fst (last (ys @ (a, d) # vs)),
      ls_len = of_nat (Suc (length ys + length vs)), ls_free_fn = fn\<rparr>" using l h(1,2) by simp
  have c': "c = \<lparr>nd_data = d, nd_next = n\<rparr>" using c n(2,3) by simp
  have ln: "list \<notin> fst ` set ys" "list \<noteq> a" "list \<notin> fst ` set vs"
    using slist_rep_list_notin [OF rep] by auto
  have dis: "a \<notin> fst ` set ys" "a \<notin> fst ` set vs" "fst ` set ys \<inter> fst ` set vs = {}" using h(4) by auto
  have tail: "(a = fst (last (ys @ (a, d) # vs))) = (vs = [])"
    using dis(2) last_in_set [of vs] by (auto simp: image_iff)
  have l1: "((1 + (of_nat (length ys) + of_nat (length vs))) = (1 :: size_t)) = (ys = [] \<and> vs = [])"
    using slist_rep_length(4) [OF rep] by (simp add: add.assoc)
  show ?thesis
  proof (cases ys rule: rev_cases)
    case Nil
    then show ?thesis using h n ln dis l1 l' c'
      by (auto simp: slist_relink_def prev_of_def only_heap_def)
  next
    case (snoc zs z)
    obtain p e where z: "z = (p, e)" by (cases z)
    have p: "list_seg (heap w) h zs p" "p \<noteq> NULL" "heap w p = Some (O_Node \<lparr>nd_data = e, nd_next = a\<rparr>)"
      using n(1) by (auto simp: snoc z list_seg_append)
    have pn: "p \<notin> fst ` set zs" "p \<notin> fst ` set vs" "p \<noteq> a" "p \<noteq> list" "list \<notin> fst ` set zs"
      using h(4) ln by (auto simp: snoc z)
    show ?thesis
    proof (cases "vs = []")
      case True
      then show ?thesis using h n ln dis l' c' p pn
        by (auto simp: slist_relink_def prev_of_def only_heap_def Let_def snoc z list_seg_append)
    next
      case False
      then have "a \<noteq> fst (last vs)" using tail by auto
      then show ?thesis using False h n ln dis l' c' p pn
        by (auto simp: slist_relink_def prev_of_def only_heap_def Let_def snoc z list_seg_append)
    qed
  qed
qed

text \<open>When the free callback runs, the data pointer must be null or allocated outside the list.\<close>

definition freeable :: "'os world \<Rightarrow> addr \<Rightarrow> free_fn option \<Rightarrow> (addr \<times> addr) list \<Rightarrow> addr \<Rightarrow> bool" where
  "freeable w list fn xs d \<longleftrightarrow>
     fn = None \<or> fn = Some Urc_Free \<and> (d = NULL \<or> heap w d \<noteq> None \<and> d \<noteq> list \<and> d \<notin> fst ` set xs)"

definition freed_data :: "free_fn option \<Rightarrow> addr \<Rightarrow> addr set" where
  "freed_data fn d = (if fn = Some Urc_Free \<and> d \<noteq> NULL then {d} else {})"

lemma free_data_ok:
  assumes I: "complete I" and l: "get_list list w = ok l" "ls_free_fn l = fn"
    and f: "freeable w list fn xs d"
  shows "\<exists>s. free_data I list d w = ok (w\<lparr>heap := (heap w) |` (- freed_data fn d), os := s\<rparr>)"
proof (cases "fn = Some Urc_Free \<and> d \<noteq> NULL")
  case True
  then obtain ob where "heap w d = Some ob" using f by (auto simp: freeable_def)
  from os_free_ok [OF I this] obtain s where "os_free I d w = ok (w\<lparr>heap := (heap w)(d := None), os := s\<rparr>)" ..
  moreover have "(heap w)(d := None) = heap w |` (- {d})" by (auto simp: restrict_map_def)
  ultimately show ?thesis using True l
    by (auto simp: free_data_def run_free_fn_def urc_free_def freed_data_def)
next
  case False
  then have "free_data I list d w = ok w" "freed_data fn d = {}"
    using l f by (auto simp: free_data_def freeable_def freed_data_def run_free_fn_def split: option.split)
  moreover have "w = w\<lparr>heap := (heap w) |` (- {}), os := os w\<rparr>"
    by (cases w) (simp add: restrict_map_def)
  ultimately show ?thesis by metis
qed

lemma slist_unlink_rep:
  assumes I: "complete I" and rep: "slist_rep w list fn (ys @ (a, d) # vs)"
    and f: "freeable w list fn (ys @ (a, d) # vs) d"
  shows "\<exists>w'. slist_unlink I list (prev_of ys) a w = ok (0, w') \<and> slist_rep w' list fn (ys @ vs) \<and>
    heap w' a = None \<and> (\<forall>p \<in> freed_data fn d. heap w' p = None) \<and>
    frame ({list, a} \<union> fst ` set ys \<union> freed_data fn d) w w'"
proof -
  obtain l where l: "get_list list w = ok l" using rep by (auto simp: slist_rep_def)
  obtain h0 where "list_seg (heap w) h0 (ys @ (a, d) # vs) NULL" using rep by (auto simp: slist_rep_def)
  then have "a \<noteq> NULL \<and> (\<exists>n. heap w a = Some (O_Node \<lparr>nd_data = d, nd_next = n\<rparr>))"
    by (rule list_seg_nodes) simp
  then obtain c where c: "get_node a w = ok c" by auto
  from slist_relink_seg [OF rep l c] obtain w1 h where w1:
    "slist_relink list (prev_of ys) a l c w = ok w1"
    "heap w1 list = Some (O_List \<lparr>ls_head = h, ls_tail = prev_of (ys @ vs),
      ls_len = of_nat (Suc (length ys + length vs)), ls_free_fn = fn\<rparr>)"
    "list_seg (heap w1) h (ys @ vs) NULL" "heap w1 a = heap w a"
    "only_heap ({list} \<union> fst ` set ys) w w1" "nd_data c = d" by blast
  have nn: "list \<noteq> NULL" "a \<noteq> NULL" "heap w a \<noteq> None" "distinct (map fst (ys @ (a, d) # vs))"
    using rep c by (auto simp: slist_rep_def load_eq_ok)
  have ln: "list \<notin> fst ` set (ys @ vs)" "list \<noteq> a" using slist_rep_list_notin [OF rep] by auto
  have f1: "freeable w1 list fn (ys @ (a, d) # vs) d"
    using f w1(5) unfolding freeable_def only_heap_def by auto
  obtain s where s: "free_data I list d w1 = ok (w1\<lparr>heap := heap w1 |` (- freed_data fn d), os := s\<rparr>)"
    using free_data_ok [OF I _ _ f1] w1(2) nn(1) by auto
  let ?w2 = "w1\<lparr>heap := heap w1 |` (- freed_data fn d), os := s\<rparr>"
  have fd: "a \<notin> freed_data fn d" "list \<notin> freed_data fn d" "freed_data fn d \<inter> fst ` set (ys @ vs) = {}"
    using f by (auto simp: freeable_def freed_data_def)
  then have "heap ?w2 a = heap w a" using w1(4) by (simp add: restrict_map_def)
  then obtain ob where "heap ?w2 a = Some ob" using nn(3) by auto
  from os_free_ok [OF I this] obtain t where
    t: "os_free I a ?w2 = ok (?w2\<lparr>heap := (heap ?w2)(a := None), os := t\<rparr>)" ..
  let ?w3 = "?w2\<lparr>heap := (heap ?w2)(a := None), os := t\<rparr>"
  have l3: "heap ?w3 list = heap w1 list" using ln(2) fd(2) by (simp add: restrict_map_def)
  define w' where "w' = put list (O_List \<lparr>ls_head = h, ls_tail = prev_of (ys @ vs),
      ls_len = of_nat (length ys + length vs), ls_free_fn = fn\<rparr>) ?w3"
  have seg: "list_seg (heap w') h (ys @ vs) NULL"
  proof (rule list_seg_cong [THEN iffD2, OF _ w1(3)])
    fix b assume "b \<in> fst ` set (ys @ vs)"
    then show "heap w' b = heap w1 b" using ln fd nn(4) by (auto simp: w'_def restrict_map_def)
  qed
  have "slist_unlink I list (prev_of ys) a w = ok (0, w')"
    using l c w1 s t nn l3 by (simp add: slist_unlink_def slist_relink_def w'_def del: of_nat_Suc) (simp add: Let_def)
  moreover have "slist_rep w' list fn (ys @ vs)"
    using seg nn by (auto simp: slist_rep_def w'_def prev_of_def)
  moreover have "frame ({list, a} \<union> fst ` set ys \<union> freed_data fn d) w w'"
    using w1(5) by (auto simp: frame_def w'_def only_heap_def restrict_map_def)
  moreover have "heap w' a = None" "\<forall>p \<in> freed_data fn d. heap w' p = None"
    using ln fd by (auto simp: w'_def restrict_map_def)
  ultimately show ?thesis by blast
qed

text \<open>The two searches lead to the node and to the node before it.\<close>

lemma slist_remove_loop_found:
  assumes "list_seg (heap w) p (ys @ (a, d) # vs) NULL" and "d \<notin> snd ` set ys"
  shows "slist_remove_loop I list d (prev_of zs) p w =
    slist_unlink I list (prev_of (zs @ ys)) a w"
  using assms
proof (induction ys arbitrary: p zs)
  case Nil
  then show ?case by (auto simp: slist_remove_loop.simps)
next
  case (Cons y ys)
  obtain b e where y: "y = (b, e)" by (cases y)
  then obtain n where "p = b" "b \<noteq> NULL" "heap w b = Some (O_Node \<lparr>nd_data = e, nd_next = n\<rparr>)"
      "list_seg (heap w) n (ys @ (a, d) # vs) NULL" "e \<noteq> d"
    using Cons.prems by auto
  then show ?case
    using Cons.IH [of n "zs @ [y]"] Cons.prems y by (subst slist_remove_loop.simps) simp
qed

lemma slist_remove_loop_absent:
  "list_seg (heap w) p ys NULL \<Longrightarrow> d \<notin> snd ` set ys \<Longrightarrow> slist_remove_loop I list d q p w = ok (-1, w)"
proof (induction ys arbitrary: p q)
  case Nil
  then show ?case by (simp add: slist_remove_loop.simps)
next
  case (Cons y ys)
  then show ?case by (cases y) (subst slist_remove_loop.simps, auto)
qed

lemma slist_seek_found:
  "list_seg (heap w) p (ys @ (a, d) # vs) NULL \<Longrightarrow> unat index = unat i + length ys \<Longrightarrow>
   slist_seek i index (prev_of zs) p w = ok (prev_of (zs @ ys), a)"
proof (induction ys arbitrary: p i zs)
  case Nil
  then show ?case by (simp add: slist_seek.simps word_less_nat_alt)
next
  case (Cons y ys)
  obtain b e where y: "y = (b, e)" by (cases y)
  then obtain n where "p = b" "b \<noteq> NULL" "heap w b = Some (O_Node \<lparr>nd_data = e, nd_next = n\<rparr>)"
      "list_seg (heap w) n (ys @ (a, d) # vs) NULL"
    using Cons.prems by auto
  moreover have "unat (i + 1) = Suc (unat i)" "i < index"
    using Cons.prems(2) unat_Suc_lt [of i index] by (simp_all add: word_less_nat_alt)
  ultimately show ?case
    using Cons.IH [of n "i + 1" "zs @ [y]"] Cons.prems(2) y by (subst slist_seek.simps) simp
qed


lemma slist_remove_rep:
  assumes I: "complete I" and rep: "slist_rep w list fn (ys @ (a, d) # vs)" and d: "d \<notin> snd ` set ys"
    and f: "freeable w list fn (ys @ (a, d) # vs) d"
  shows "\<exists>w'. slist_remove I list d w = ok (0, w') \<and> slist_rep w' list fn (ys @ vs) \<and>
    heap w' a = None \<and> (\<forall>p \<in> freed_data fn d. heap w' p = None) \<and>
    frame ({list, a} \<union> fst ` set ys \<union> freed_data fn d) w w'"
proof -
  obtain h where "list_seg (heap w) h (ys @ (a, d) # vs) NULL" "list \<noteq> NULL" "heap w list = Some (O_List \<lparr>ls_head = h,
      ls_tail = fst (last (ys @ (a, d) # vs)), ls_len = of_nat (length (ys @ (a, d) # vs)), ls_free_fn = fn\<rparr>)"
    using rep by (auto simp: slist_rep_def)
  then have "slist_remove I list d w = slist_unlink I list (prev_of ys) a w"
    using slist_rep_length(3) [OF rep] slist_remove_loop_found [of w h ys a d vs I list "[]"] d
    by (simp add: slist_remove_def)
  then show ?thesis using slist_unlink_rep [OF I rep f] by simp
qed

lemma slist_remove_absent:
  assumes "slist_rep w list fn xs" and "d \<notin> snd ` set xs"
  shows "slist_remove I list d w = ok (-1, w)"
  using assms slist_remove_loop_absent [of w _ xs d I list NULL]
  by (auto simp: slist_remove_def slist_rep_def)

lemma slist_remove_at_rep:
  assumes I: "complete I" and rep: "slist_rep w list fn (ys @ (a, d) # vs)" and i: "unat i = length ys"
    and f: "freeable w list fn (ys @ (a, d) # vs) d"
  shows "\<exists>w'. slist_remove_at I list i w = ok (0, w') \<and> slist_rep w' list fn (ys @ vs) \<and>
    heap w' a = None \<and> (\<forall>p \<in> freed_data fn d. heap w' p = None) \<and>
    frame ({list, a} \<union> fst ` set ys \<union> freed_data fn d) w w'"
proof -
  obtain h where "list_seg (heap w) h (ys @ (a, d) # vs) NULL" "list \<noteq> NULL" "heap w list = Some (O_List \<lparr>ls_head = h,
      ls_tail = fst (last (ys @ (a, d) # vs)), ls_len = of_nat (length (ys @ (a, d) # vs)), ls_free_fn = fn\<rparr>)"
    using rep by (auto simp: slist_rep_def)
  moreover have "\<not> of_nat (length (ys @ (a, d) # vs)) \<le> i"
    using slist_rep_length(2) [OF rep] i by (simp add: word_le_nat_alt)
  ultimately have "slist_remove_at I list i w = slist_unlink I list (prev_of ys) a w"
    using slist_seek_found [of w h ys a d vs i 0 "[]"] i by (simp add: slist_remove_at_def)
  then show ?thesis using slist_unlink_rep [OF I rep f] by simp
qed

lemma slist_remove_at_out:
  assumes "slist_rep w list fn xs" and "length xs \<le> unat i"
  shows "slist_remove_at I list i w = ok (-1, w)"
  using assms slist_rep_length(2) [OF assms(1)]
  by (auto simp: slist_remove_at_def slist_rep_def word_le_nat_alt)

section \<open>Reversal and destruction\<close>

lemma slist_reverse_loop_seg:
  assumes "list_seg (heap w) p xs NULL" and "list_seg (heap w) q ys NULL"
    and "distinct (map fst (xs @ ys))"
  shows "\<exists>r w'. slist_reverse_loop q p w = ok (r, w') \<and> list_seg (heap w') r (rev xs @ ys) NULL \<and>
    only_heap (fst ` set xs) w w'"
  using assms
proof (induction xs arbitrary: p q ys w)
  case Nil
  then show ?case by (auto simp: slist_reverse_loop.simps)
next
  case (Cons x xs)
  obtain a d where x: "x = (a, d)" by (cases x)
  obtain n where n: "p = a" "a \<noteq> NULL" "heap w a = Some (O_Node \<lparr>nd_data = d, nd_next = n\<rparr>)"
      "list_seg (heap w) n xs NULL"
    using Cons.prems(1) x by auto
  let ?w = "put a (O_Node \<lparr>nd_data = d, nd_next = q\<rparr>) w"
  have "list_seg (heap ?w) n xs NULL" "list_seg (heap ?w) a (x # ys) NULL"
    "distinct (map fst (xs @ x # ys))"
    using n Cons.prems x by auto
  from Cons.IH [OF this] obtain r w' where w': "slist_reverse_loop a n ?w = ok (r, w')"
      "list_seg (heap w') r (rev xs @ x # ys) NULL" "only_heap (fst ` set xs) ?w w'" by blast
  moreover have "slist_reverse_loop q p w = slist_reverse_loop a n ?w"
    using n by (subst slist_reverse_loop.simps) simp
  moreover have "only_heap (fst ` set (x # xs)) w w'"
    using w'(3) by (auto simp: only_heap_def x)
  ultimately show ?case by auto
qed

lemma slist_reverse_rep:
  assumes rep: "slist_rep w list fn xs"
  shows "\<exists>w'. slist_reverse list w = ok w' \<and> slist_rep w' list fn (rev xs) \<and>
    only_heap ({list} \<union> fst ` set xs) w w'"
proof -
  obtain h where h: "list \<noteq> NULL" "heap w list = Some (O_List \<lparr>ls_head = h,
      ls_tail = (if xs = [] then NULL else fst (last xs)), ls_len = of_nat (length xs), ls_free_fn = fn\<rparr>)"
    "list_seg (heap w) h xs NULL" "distinct (map fst xs)"
    using rep by (auto simp: slist_rep_def)
  have lt: "(of_nat (length xs) < (2 :: size_t)) = (length xs < 2)"
    using slist_rep_length(2) [OF rep] by (simp add: word_less_nat_alt)
  show ?thesis
  proof (cases "length xs < 2")
    case True
    then have "rev xs = xs" by (cases xs) auto
    then show ?thesis using True lt h rep by (auto simp: slist_reverse_def)
  next
    case False
    then have ne: "xs \<noteq> []" by auto
    let ?l = "\<lparr>ls_head = h, ls_tail = h, ls_len = of_nat (length xs), ls_free_fn = fn\<rparr>"
    let ?w = "put list (O_List ?l) w"
    have ln: "list \<notin> fst ` set xs" using slist_rep_list_notin [OF rep] .
    have "list_seg (heap ?w) h xs NULL" using h(3) ln by simp
    from slist_reverse_loop_seg [OF this, of NULL "[]"] h(4) obtain r w' where
      w': "slist_reverse_loop NULL h ?w = ok (r, w')" "list_seg (heap w') r (rev xs) NULL"
        "only_heap (fst ` set xs) ?w w'" by auto
    have l': "heap w' list = Some (O_List ?l)" using w'(3) ln by (auto simp: only_heap_def)
    have hd: "h = fst (hd xs)" using h(3) ne by (cases xs) auto
    have "slist_reverse list w = ok (put list (O_List (?l\<lparr>ls_head := r\<rparr>)) w')"
      using h(1,2) False lt w'(1) l' ne by (simp add: slist_reverse_def)
    moreover have "slist_rep (put list (O_List (?l\<lparr>ls_head := r\<rparr>)) w') list fn (rev xs)"
      using h w'(2) ln ne hd by (auto simp: slist_rep_def last_rev rev_map [symmetric])
    moreover have "only_heap ({list} \<union> fst ` set xs) w (put list (O_List (?l\<lparr>ls_head := r\<rparr>)) w')"
      using w'(3) by (auto simp: only_heap_def)
    ultimately show ?thesis by blast
  qed
qed

text \<open>What destruction gives back: the nodes and, with a free callback, the data.\<close>

definition list_cells :: "free_fn option \<Rightarrow> (addr \<times> addr) list \<Rightarrow> addr set" where
  "list_cells fn xs = (\<Union>(a, d) \<in> set xs. {a} \<union> freed_data fn d)"

lemma list_cells_simps [simp]:
  "list_cells fn [] = {}" "list_cells fn ((a, d) # xs) = {a} \<union> freed_data fn d \<union> list_cells fn xs"
  by (auto simp: list_cells_def)

lemma slist_destroy_loop_cells:
  assumes "complete I" and "list_seg (heap w) p xs NULL" and "distinct (map fst xs)"
    and "\<And>d. d \<in> snd ` set xs \<Longrightarrow> freeable w list fn xs d"
    and "fn = Some Urc_Free \<Longrightarrow> distinct (filter (\<lambda>d. d \<noteq> NULL) (map snd xs))"
    and "get_list list w = ok l" and "ls_free_fn l = fn" and "list \<notin> fst ` set xs"
  shows "\<exists>w'. slist_destroy_loop I list p w = ok w' \<and> heap w' = heap w |` (- list_cells fn xs) \<and>
    ctx w' = ctx w \<and> trace w' = trace w"
  using assms(2-6,8)
proof (induction xs arbitrary: p w)
  case Nil
  then show ?case by (auto simp: slist_destroy_loop.simps restrict_map_def)
next
  case (Cons x xs)
  obtain a d where x: "x = (a, d)" by (cases x)
  obtain n where n: "p = a" "a \<noteq> NULL" "heap w a = Some (O_Node \<lparr>nd_data = d, nd_next = n\<rparr>)"
      "list_seg (heap w) n xs NULL"
    using Cons.prems(1) x by auto
  have fd: "freeable w list fn (x # xs) d" using Cons.prems(3) x by simp
  from free_data_ok [OF assms(1) Cons.prems(5) assms(7) fd] obtain s where
    s: "free_data I list d w = ok (w\<lparr>heap := heap w |` (- freed_data fn d), os := s\<rparr>)" ..
  let ?w2 = "w\<lparr>heap := heap w |` (- freed_data fn d), os := s\<rparr>"
  have out: "a \<notin> freed_data fn d" "list \<notin> freed_data fn d" "freed_data fn d \<inter> fst ` set xs = {}"
    using fd x by (auto simp: freeable_def freed_data_def)
  then have "heap ?w2 a = Some (O_Node \<lparr>nd_data = d, nd_next = n\<rparr>)" using n by simp
  from os_free_ok [OF assms(1) this] obtain t where
    t: "os_free I a ?w2 = ok (?w2\<lparr>heap := (heap ?w2)(a := None), os := t\<rparr>)" ..
  let ?w3 = "?w2\<lparr>heap := (heap ?w2)(a := None), os := t\<rparr>"
  have h3: "heap ?w3 q = heap w q" if "q \<noteq> a" "q \<notin> freed_data fn d" for q using that by simp
  have seg3: "list_seg (heap ?w3) n xs NULL"
  proof (rule list_seg_cong [THEN iffD2, OF _ n(4)])
    fix b assume "b \<in> fst ` set xs"
    then show "heap ?w3 b = heap w b" using Cons.prems(2) out x by (intro h3) auto
  qed
  have fr3: "freeable ?w3 list fn xs e" if e: "e \<in> snd ` set xs" for e
  proof -
    have f: "freeable w list fn (x # xs) e" using Cons.prems(3) e by auto
    have "e \<notin> freed_data fn d" if "fn = Some Urc_Free" "e \<noteq> NULL"
    proof -
      have "distinct (filter (\<lambda>d. d \<noteq> NULL) (d # map snd xs))" using Cons.prems(4) that(1) x by simp
      then show ?thesis using e that(2) by (auto simp: freed_data_def image_iff split: if_splits)
    qed
    then show ?thesis using f x by (auto simp: freeable_def)
  qed
  have gl3: "get_list list ?w3 = ok l"
    using Cons.prems(5,6) out x h3 [of list] by (auto simp: load_eq_ok)
  have dist: "distinct (map fst xs)" "list \<notin> fst ` set xs" using Cons.prems(2,6) by auto
  have dd3: "distinct (filter (\<lambda>d. d \<noteq> NULL) (map snd xs))" if "fn = Some Urc_Free"
    using Cons.prems(4) [OF that] by (auto split: if_splits)
  from Cons.IH [OF seg3 dist(1) fr3 dd3 gl3 dist(2)]
  obtain w' where w': "slist_destroy_loop I list n ?w3 = ok w'"
      "heap w' = heap ?w3 |` (- list_cells fn xs)" "ctx w' = ctx w" "trace w' = trace w"
    by auto
  have "slist_destroy_loop I list p w = slist_destroy_loop I list n ?w3"
    using n s t by (subst slist_destroy_loop.simps) simp
  moreover have "heap w' = heap w |` (- list_cells fn (x # xs))"
    unfolding w'(2) x by (auto simp: restrict_map_def fun_eq_iff)
  ultimately show ?case using w' by auto
qed


lemma slist_destroy_rep:
  assumes I: "complete I" and rep: "slist_rep w list fn xs"
    and f: "\<And>d. d \<in> snd ` set xs \<Longrightarrow> freeable w list fn xs d"
    and dd: "fn = Some Urc_Free \<Longrightarrow> distinct (filter (\<lambda>d. d \<noteq> NULL) (map snd xs))"
  shows "\<exists>w'. slist_destroy I list w = ok w' \<and> heap w' = heap w |` (- insert list (list_cells fn xs)) \<and>
    ctx w' = ctx w \<and> trace w' = trace w"
proof -
  obtain h where h: "list \<noteq> NULL" "heap w list = Some (O_List \<lparr>ls_head = h,
      ls_tail = (if xs = [] then NULL else fst (last xs)), ls_len = of_nat (length xs), ls_free_fn = fn\<rparr>)"
    "list_seg (heap w) h xs NULL" "distinct (map fst xs)"
    using rep by (auto simp: slist_rep_def)
  note ln = slist_rep_list_notin [OF rep]
  have "list \<notin> list_cells fn xs"
    using f ln by (fastforce simp: list_cells_def freed_data_def freeable_def image_iff split: if_splits)
  moreover obtain w1 where w1: "slist_destroy_loop I list h w = ok w1"
      "heap w1 = heap w |` (- list_cells fn xs)" "ctx w1 = ctx w" "trace w1 = trace w"
    using slist_destroy_loop_cells [OF I h(3,4) f dd] h(1,2) ln by auto
  ultimately have "heap w1 list \<noteq> None" using h(2) by simp
  then obtain s where "os_free I list w1 = ok (w1\<lparr>heap := (heap w1)(list := None), os := s\<rparr>)"
    using os_free_ok [OF I, of w1 list] by auto
  moreover have "(heap w1)(list := None) = heap w |` (- insert list (list_cells fn xs))"
    using w1(2) by (auto simp: restrict_map_def fun_eq_iff)
  ultimately show ?thesis using h(1,2) w1 by (auto simp: slist_destroy_def)
qed

section \<open>The list interface\<close>

text \<open>
  What the URC table relies on: a list of distinct data pointers that can be extended at
  the end and from which a pointer can be removed.  \<open>ready\<close> says that a pointer may be
  handed over to the list.
\<close>

locale pointer_list =
  fixes append :: "addr \<Rightarrow> 'w \<Rightarrow> (int \<times> 'w) res"
    and remove :: "addr \<Rightarrow> 'w \<Rightarrow> (int \<times> 'w) res"
    and holds :: "'w \<Rightarrow> addr list \<Rightarrow> bool"
    and ready :: "'w \<Rightarrow> addr \<Rightarrow> bool"
  assumes holds_distinct: "holds w ds \<Longrightarrow> distinct ds"
    and append_holds: "holds w ds \<Longrightarrow> ready w d \<Longrightarrow> d \<notin> set ds \<Longrightarrow>
      runs (append d w) (\<lambda>(r, w'). if r = 0 then holds w' (ds @ [d]) else r = -1 \<and> holds w' ds)"
    and remove_holds: "holds w ds \<Longrightarrow> d \<in> set ds \<Longrightarrow>
      runs (remove d w) (\<lambda>(r, w'). r = 0 \<and> holds w' (remove1 d ds))"
    and remove_missing: "holds w ds \<Longrightarrow> d \<notin> set ds \<Longrightarrow> remove d w = ok (-1, w)"
begin

text \<open>Adding a pointer and taking it out again leaves the list as it was.\<close>

lemma append_remove:
  assumes "holds w ds" and "ready w d" and "d \<notin> set ds"
  shows "runs (rbind (append d w) (\<lambda>(r, w1). if r = 0 then remove d w1 else ok (r, w1)))
    (\<lambda>(r, w'). (r = 0 \<or> r = -1) \<and> holds w' ds)"
proof -
  from append_holds [OF assms] obtain r w1 where
    a: "append d w = ok (r, w1)" "if r = 0 then holds w1 (ds @ [d]) else r = -1 \<and> holds w1 ds"
    by (auto simp: runs_iff)
  show ?thesis
  proof (cases "r = 0")
    case True
    then have "runs (remove d w1) (\<lambda>(r, w'). r = 0 \<and> holds w' (remove1 d (ds @ [d])))"
      using a(2) remove_holds [of w1 "ds @ [d]" d] by simp
    then show ?thesis using a(1) True assms(3) by (auto simp: remove1_append elim!: runs_mono)
  next
    case False
    then show ?thesis using a by simp
  qed
qed

text \<open>A pointer that was removed is gone: a second removal reports so.\<close>

lemma remove_twice:
  assumes "holds w ds" and "d \<in> set ds"
  shows "runs (rbind (remove d w) (\<lambda>(r, w1). remove d w1)) (\<lambda>(r, w'). r = -1 \<and> holds w' (remove1 d ds))"
proof -
  from remove_holds [OF assms] obtain w1 where
    a: "remove d w = ok (0, w1)" "holds w1 (remove1 d ds)" by (auto simp: runs_iff)
  moreover have "d \<notin> set (remove1 d ds)" using holds_distinct [OF assms(1)] by simp
  ultimately show ?thesis using remove_missing by simp
qed

end

definition entry_ready :: "'os world \<Rightarrow> addr \<Rightarrow> bool" where
  "entry_ready w d \<longleftrightarrow> d \<noteq> NULL \<and> (\<exists>e. heap w d = Some (O_Entry e))"

definition slist_holds :: "'os atc_interface \<Rightarrow> addr \<Rightarrow> 'os world \<Rightarrow> addr list \<Rightarrow> bool" where
  "slist_holds I list w ds \<longleftrightarrow> complete I \<and> malloc_fresh I \<and> distinct ds \<and>
     (\<exists>xs. slist_rep w list (Some Urc_Free) xs \<and> map snd xs = ds) \<and> (\<forall>d \<in> set ds. entry_ready w d)"

text \<open>List operations leave alone every object that is not a node or a list struct.\<close>

fun is_link :: "obj \<Rightarrow> bool" where
  "is_link (O_Node n) = True"
| "is_link (O_List l) = True"
| "is_link _ = False"

definition keeps :: "addr set \<Rightarrow> 'os world \<Rightarrow> 'os world \<Rightarrow> bool" where
  "keeps A w w' \<longleftrightarrow> (\<forall>p ob. p \<notin> A \<longrightarrow> heap w p = Some ob \<longrightarrow> \<not> is_link ob \<longrightarrow> heap w' p = Some ob)"

lemma keepsD: "keeps A w w' \<Longrightarrow> heap w p = Some ob \<Longrightarrow> p \<notin> A \<Longrightarrow> \<not> is_link ob \<Longrightarrow> heap w' p = Some ob"
  by (simp add: keeps_def)

lemma keeps_trans: "keeps A u v \<Longrightarrow> keeps B v w \<Longrightarrow> keeps (A \<union> B) u w"
  by (auto simp: keeps_def)

lemma entry_ready_freeable:
  assumes "slist_rep w list fn xs" and "entry_ready w d"
  shows "d \<noteq> list" and "d \<notin> fst ` set xs" and "freeable w list (Some Urc_Free) xs d"
  using assms slist_rep_kinds [OF assms(1)] by (fastforce simp: entry_ready_def freeable_def)+

lemma slist_append_holds:
  assumes h: "slist_holds I list w ds" and d: "entry_ready w d" "d \<notin> set ds"
  shows "\<exists>r w'. slist_append I list d w = ok (r, w') \<and>
    (if r = 0 then slist_holds I list w' (ds @ [d]) else r = -1 \<and> slist_holds I list w' ds) \<and>
    keeps {} w w' \<and> ctx w' = ctx w \<and> trace w' = trace w"
proof -
  obtain xs where xs: "complete I" "malloc_fresh I" "slist_rep w list (Some Urc_Free) xs" "map snd xs = ds"
    using h by (auto simp: slist_holds_def)
  from slist_append_rep [OF xs(1-3), of d] obtain r w' where
    r: "slist_append I list d w = ok (r, w')"
    and c: "if r = 0 then \<exists>a. a \<noteq> NULL \<and> heap w a = None \<and> slist_rep w' list (Some Urc_Free) (xs @ [(a, d)]) \<and>
                     frame ({list, a} \<union> fst ` set xs) w w'
     else r = -1 \<and> frame {} w w'" by blast
  show ?thesis
  proof (cases "r = 0")
    case True
    then obtain a where a: "heap w a = None" "slist_rep w' list (Some Urc_Free) (xs @ [(a, d)])"
        "frame ({list, a} \<union> fst ` set xs) w w'" using c by auto
    have keep: "keeps {} w w'"
      unfolding keeps_def
    proof (intro allI impI)
      fix p ob assume p: "heap w p = Some ob" "\<not> is_link ob"
      then have "p \<notin> {list, a} \<union> fst ` set xs"
        using a(1) slist_rep_kinds [OF xs(3)] by fastforce
      then show "heap w' p = Some ob" using a(3) p by (simp add: frame_heap)
    qed
    then have "entry_ready w' e" if "entry_ready w e" for e
      using that by (fastforce simp: entry_ready_def dest: keepsD)
    then have "slist_holds I list w' (ds @ [d])"
      using h d xs a(2) by (fastforce simp: slist_holds_def)
    then show ?thesis using r True keep a(3) by (auto simp: frame_def)
  next
    case False
    then have f: "r = -1" "heap w' = heap w" "ctx w' = ctx w" "trace w' = trace w"
      using c by (auto simp: frame_def fun_eq_iff)
    then have "slist_holds I list w' ds"
      using h by (simp add: slist_holds_def slist_rep_def entry_ready_def)
    moreover have "keeps {} w w'" using f(2) by (simp add: keeps_def)
    ultimately show ?thesis using r False f by auto
  qed
qed

lemma slist_remove_holds:
  assumes h: "slist_holds I list w ds" and d: "d \<in> set ds"
  shows "\<exists>w'. slist_remove I list d w = ok (0, w') \<and> slist_holds I list w' (remove1 d ds) \<and> heap w' d = None \<and>
    keeps {d} w w' \<and> ctx w' = ctx w \<and> trace w' = trace w"
proof -
  obtain xs where xs: "complete I" "malloc_fresh I" "slist_rep w list (Some Urc_Free) xs" "map snd xs = ds"
    using h by (auto simp: slist_holds_def)
  have er: "entry_ready w d" "d \<noteq> NULL" using h d by (auto simp: slist_holds_def entry_ready_def)
  obtain us ws where "ds = us @ d # ws" "d \<notin> set us" using split_list_first [OF d] by blast
  then obtain ys a vs where ys: "xs = ys @ (a, d) # vs" "map snd ys = us" "map snd vs = ws"
    using xs(4) by (auto simp: map_eq_append_conv map_eq_Cons_conv)
  then have dn: "d \<notin> snd ` set ys" using \<open>d \<notin> set us\<close> by (metis set_map)
  from slist_remove_rep [OF xs(1) xs(3)[unfolded ys] dn entry_ready_freeable(3) [OF xs(3)[unfolded ys] er(1)]]
  obtain w' where w': "slist_remove I list d w = ok (0, w')" "slist_rep w' list (Some Urc_Free) (ys @ vs)"
      "heap w' d = None" "frame ({list, a} \<union> fst ` set ys \<union> {d}) w w'"
    using er(2) by (auto simp: freed_data_def)
  have keep: "keeps {d} w w'"
    unfolding keeps_def
  proof (intro allI impI)
    fix p ob assume p: "p \<notin> {d}" "heap w p = Some ob" "\<not> is_link ob"
    then have "p \<notin> {list, a} \<union> fst ` set ys \<union> {d}"
      using slist_rep_kinds [OF xs(3)] ys(1) by fastforce
    then show "heap w' p = Some ob" using w'(4) p by (simp add: frame_heap)
  qed
  have "remove1 d ds = us @ ws" using \<open>ds = _\<close> \<open>d \<notin> set us\<close> by (simp add: remove1_append)
  moreover have "d \<notin> set (us @ ws)" using h \<open>ds = _\<close> by (auto simp: slist_holds_def)
  moreover have "entry_ready w' e" if "e \<in> set (us @ ws)" for e
  proof -
    have "entry_ready w e" "e \<noteq> d"
      using that h \<open>ds = _\<close> \<open>d \<notin> set (us @ ws)\<close> by (auto simp: slist_holds_def)
    then show ?thesis by (fastforce simp: entry_ready_def dest: keepsD [OF keep])
  qed
  moreover have "distinct (us @ ws)" using h \<open>ds = _\<close> by (auto simp: slist_holds_def)
  moreover have "map snd (ys @ vs) = us @ ws" using ys by simp
  ultimately have "slist_holds I list w' (remove1 d ds)"
    using w'(2) xs(1,2) unfolding slist_holds_def by metis
  then show ?thesis using w' keep by (auto simp: frame_def)
qed

interpretation urc_list: pointer_list "slist_append I list" "slist_remove I list" "slist_holds I list" entry_ready
  for I :: "'os atc_interface" and list :: addr
proof unfold_locales
  fix w :: "'os world" and ds d
  assume h: "slist_holds I list w ds"
  show "distinct ds" using h by (simp add: slist_holds_def)
  show "entry_ready w d \<Longrightarrow> d \<notin> set ds \<Longrightarrow> runs (slist_append I list d w)
      (\<lambda>(r, w'). if r = 0 then slist_holds I list w' (ds @ [d]) else r = -1 \<and> slist_holds I list w' ds)"
    using slist_append_holds [OF h, of d] by auto
  show "d \<in> set ds \<Longrightarrow> runs (slist_remove I list d w) (\<lambda>(r, w'). r = 0 \<and> slist_holds I list w' (remove1 d ds))"
    using slist_remove_holds [OF h, of d] by auto
  show "d \<notin> set ds \<Longrightarrow> slist_remove I list d w = ok (-1, w)"
    using h slist_remove_absent [of w list "Some Urc_Free" _ d I] by (auto simp: slist_holds_def)
qed


section \<open>Properties\<close>

text \<open>A world with a list of two handlers, for the witnesses.\<close>

definition demo_entry :: "int \<Rightarrow> urc_handler_entry" where
  "demo_entry i = \<lparr>ue_id = Some i, ue_prefix = [43, 0], ue_handler = 7\<rparr>"

definition demo_list_world :: "platform world" where
  "demo_list_world = platform_world\<lparr>heap := [10 \<mapsto> O_List \<lparr>ls_head = 20, ls_tail = 21, ls_len = 2, ls_free_fn = Some Urc_Free\<rparr>,
      20 \<mapsto> O_Node \<lparr>nd_data = 30, nd_next = 21\<rparr>, 21 \<mapsto> O_Node \<lparr>nd_data = 31, nd_next = 0\<rparr>,
      30 \<mapsto> O_Entry (demo_entry 1), 31 \<mapsto> O_Entry (demo_entry 2)]\<rparr>"

lemma demo_list_rep: "slist_rep demo_list_world 10 (Some Urc_Free) [(20, 30), (21, 31)]"
  by (simp add: slist_rep_def demo_list_world_def)

lemma demo_list_freeable:
  "d \<in> {30, 31} \<Longrightarrow> freeable demo_list_world 10 (Some Urc_Free) [(20, 30), (21, 31)] d"
  by (auto simp: freeable_def demo_list_world_def)

text \<open>
  \<open>slist_append\<close> adds the pointer at the end of the list, in constant time through
  \<open>tail\<close>, using one fresh node; when no node can be allocated it returns \<open>-1\<close> and the
  heap is unchanged.  The 32-bit length never wraps.
\<close>

theorem slist_append_refines:
  assumes "complete I" and "malloc_fresh I" and "slist_rep w list fn xs"
  shows "\<exists>r w'. slist_append I list d w = ok (r, w') \<and>
    (if r = 0
     then \<exists>a. slist_rep w' list fn (xs @ [(a, d)]) \<and> heap w a = None \<and>
            slist_len list w' = ok (of_nat (Suc (length xs))) \<and> Suc (length xs) < 2 ^ 32
     else r = -1 \<and> frame {} w w')"
proof -
  obtain r w' where r: "slist_append I list d w = ok (r, w')"
      "if r = 0 then \<exists>a. a \<noteq> NULL \<and> heap w a = None \<and> slist_rep w' list fn (xs @ [(a, d)]) \<and>
                     frame ({list, a} \<union> fst ` set xs) w w'
       else r = -1 \<and> frame {} w w'"
    using slist_append_rep [OF assms, of d] by blast
  then show ?thesis using slist_len_rep [of w' list fn] slist_rep_length(1) [of w' list fn]
    by (cases "r = 0") fastforce+
qed

theorem slist_append_refines_witness:
  "\<exists>r w'. slist_append platform_interface 10 32 demo_list_world = ok (r, w') \<and> r = 0 \<and>
     (\<exists>a. slist_rep w' 10 (Some Urc_Free) [(20, 30), (21, 31), (a, 32)])"
proof -
  have "\<exists>w'. slist_append platform_interface 10 32 demo_list_world = ok (0, w')"
    by (simp add: sample_run slist_append_def slist_new_node_def platform_start_def demo_list_world_def platform_world_def)
  then show ?thesis
    using slist_append_refines [OF platform_complete platform_malloc_fresh demo_list_rep, of 32]
    by auto
qed

text \<open>
  C36: \<open>slist_get\<close> is list indexing: both the fast path through \<open>tail\<close> and the walk from
  \<open>head\<close> return the data pointer at the index, and an index out of range yields null.
\<close>

theorem slist_get_correct:
  assumes "slist_rep w list fn xs"
  shows "slist_get list i w = ok (if unat i < length xs then map snd xs ! unat i else NULL)"
  using slist_get_rep [OF assms] by simp

theorem slist_get_correct_witness:
  "slist_get 10 1 demo_list_world = ok 31 \<and> slist_get 10 5 demo_list_world = ok NULL"
  using slist_get_correct [OF demo_list_rep, of 1] slist_get_correct [OF demo_list_rep, of 5] by simp

text \<open>
  C34: \<open>slist_remove\<close> takes out the first node with the given data pointer and only that
  one, keeps \<open>head\<close>, \<open>tail\<close> and \<open>len\<close> consistent, frees the node and (with a free
  callback) the data, and touches nothing outside the list; a pointer that is not in the
  list is reported with \<open>-1\<close> and nothing changes.
\<close>

theorem slist_remove_refines:
  assumes "complete I" and "slist_rep w list fn xs" and "freeable w list fn xs d"
  shows "if d \<in> snd ` set xs
    then \<exists>ys a vs w'. xs = ys @ (a, d) # vs \<and> d \<notin> snd ` set ys \<and> slist_remove I list d w = ok (0, w') \<and>
      slist_rep w' list fn (ys @ vs) \<and> heap w' a = None \<and> (\<forall>p \<in> freed_data fn d. heap w' p = None) \<and>
      frame ({list, a} \<union> fst ` set ys \<union> freed_data fn d) w w'
    else slist_remove I list d w = ok (-1, w)"
proof (cases "d \<in> snd ` set xs")
  case True
  then have "d \<in> set (map snd xs)" by simp
  then obtain us ws where "map snd xs = us @ d # ws" "d \<notin> set us" using split_list_first by metis
  then obtain ys a vs where xs: "xs = ys @ (a, d) # vs" "d \<notin> snd ` set ys"
    by (auto simp: map_eq_append_conv map_eq_Cons_conv)
  from slist_remove_rep [OF assms(1) assms(2)[unfolded xs(1)] xs(2) assms(3)[unfolded xs(1)]]
  show ?thesis using True xs by auto
next
  case False
  then show ?thesis using slist_remove_absent [OF assms(2)] by simp
qed

theorem slist_remove_refines_witness:
  "\<exists>w'. slist_remove platform_interface 10 30 demo_list_world = ok (0, w') \<and>
     slist_rep w' 10 (Some Urc_Free) [(21, 31)] \<and> heap w' 30 = None"
  using slist_remove_refines [OF platform_complete demo_list_rep, of 30]
    demo_list_freeable [of 30]
  by (auto simp: freed_data_def Cons_eq_append_conv)

text \<open>
  C35: \<open>slist_destroy\<close> leaks nothing and frees nothing twice: it returns, and afterwards
  exactly the list struct, its nodes and (with a free callback) its data are gone.
\<close>

theorem slist_destroy_no_leak:
  assumes "complete I" and "slist_rep w list fn xs"
    and "\<forall>d \<in> snd ` set xs. freeable w list fn xs d"
    and "distinct (filter (\<lambda>d. d \<noteq> NULL) (map snd xs))"
  shows "\<exists>w'. slist_destroy I list w = ok w' \<and>
    heap w' = heap w |` (- insert list (list_cells fn xs)) \<and> ctx w' = ctx w \<and> trace w' = trace w"
  using slist_destroy_rep [OF assms(1,2)] assms(3,4) by blast

theorem slist_destroy_no_leak_witness:
  "\<exists>w'. slist_destroy platform_interface 10 demo_list_world = ok w' \<and> heap w' = Map.empty"
proof -
  have "heap demo_list_world |` (- insert 10 (list_cells (Some Urc_Free) [(20, 30), (21, 31)])) = Map.empty"
    by (auto simp: demo_list_world_def freed_data_def restrict_map_def fun_eq_iff)
  then show ?thesis
    using slist_destroy_no_leak [OF platform_complete demo_list_rep]
      demo_list_freeable by auto
qed

text \<open>
  The pointer reversal of \<open>slist_reverse\<close> terminates and reverses the list in place:
  the same nodes, no allocation, and \<open>head\<close> and \<open>tail\<close> exchanged.
\<close>

theorem slist_reverse_refines:
  assumes "slist_rep w list fn xs"
  shows "\<exists>w'. slist_reverse list w = ok w' \<and> slist_rep w' list fn (rev xs) \<and>
    only_heap ({list} \<union> fst ` set xs) w w'"
  by (rule slist_reverse_rep [OF assms])

theorem slist_reverse_refines_witness:
  "\<exists>w'. slist_reverse 10 demo_list_world = ok w' \<and> slist_rep w' 10 (Some Urc_Free) [(21, 31), (20, 30)]"
  using slist_reverse_refines [OF demo_list_rep] by auto

end
