(* ===== verification/Logging.thy ===== *)
theory Logging
  imports ATC_Interface
begin

text \<open>
  \<open>log.h\<close>: the macros through which every part of the program reports, and the byte dumps
  of the receive and send paths.  A log statement does not change the state of the program,
  but it calls a function pointer that is null until an interface is registered, and it reads
  its string arguments: both are undefined when they go wrong, so the statements are part of
  the handlers below.
\<close>

section \<open>Calls of the log function\<close>

text \<open>What a conversion reads: \<open>%s\<close> up to the NUL, \<open>%.*s\<close> at most the precision, if it is not negative.\<close>

fun log_read :: "log_arg \<Rightarrow> unit res" where
  "log_read (Log_Str s) = rbind (c_strlen s) (\<lambda>n. ok ())"
| "log_read (Log_Prec n s) =
     (if n < 0 then rbind (c_strlen s) (\<lambda>n. ok ()) else rbind (strn_chars s (nat n)) (\<lambda>cs. ok ()))"
| "log_read (Log_Int i) = ok ()"
| "log_read (Log_Ptr p) = ok ()"

fun log_reads :: "log_arg list \<Rightarrow> unit res" where
  "log_reads [] = ok ()"
| "log_reads (a # as) = rbind (log_read a) (\<lambda>_. log_reads as)"

text \<open>\<open>g_atc_interface.atc_log(fmt, ...)\<close>; the result is discarded.\<close>

definition os_log :: "'os atc_interface \<Rightarrow> string \<Rightarrow> log_arg list \<Rightarrow> unit res" where
  "os_log I fmt args =
     rbind (call (atc_log I)) (\<lambda>f. rbind (log_reads args) (\<lambda>_. let result = f fmt args in ok ()))"

section \<open>Levels\<close>

definition LOG_LEVEL_ERROR :: nat where "LOG_LEVEL_ERROR = 0"
definition LOG_LEVEL_WARN :: nat where "LOG_LEVEL_WARN = 1"
definition LOG_LEVEL_INFO :: nat where "LOG_LEVEL_INFO = 2"
definition LOG_LEVEL_DEBUG :: nat where "LOG_LEVEL_DEBUG = 3"
definition LOG_LEVEL_TRACE :: nat where "LOG_LEVEL_TRACE = 4"

text \<open>The level and the name the build uses when it does not set its own.\<close>

definition LOG_LEVEL :: nat where "LOG_LEVEL = LOG_LEVEL_TRACE"
definition DBG_NAME :: string where "DBG_NAME = ''ATCortex''"

definition crlf :: string where "crlf = [CHR 0x0D, CHR 0x0A]"

text \<open>
  The macros.  The line number and the function name, which they pass on in front of the
  arguments, are constants of the place of the call and left out.
\<close>

definition LOG_ERR :: "'os atc_interface \<Rightarrow> string \<Rightarrow> log_arg list \<Rightarrow> unit res" where
  "LOG_ERR I fmt args =
     (if LOG_LEVEL \<ge> LOG_LEVEL_ERROR
      then os_log I (DBG_NAME @ ''[ERROR][line:%d][%s]:'' @ fmt @ crlf) args else ok ())"

definition LOG_WARN :: "'os atc_interface \<Rightarrow> string \<Rightarrow> log_arg list \<Rightarrow> unit res" where
  "LOG_WARN I fmt args =
     (if LOG_LEVEL \<ge> LOG_LEVEL_WARN
      then os_log I (DBG_NAME @ ''[WARN][line:%d][%s]:'' @ fmt @ crlf) args else ok ())"

definition LOG_INFO :: "'os atc_interface \<Rightarrow> string \<Rightarrow> log_arg list \<Rightarrow> unit res" where
  "LOG_INFO I fmt args =
     (if LOG_LEVEL \<ge> LOG_LEVEL_INFO
      then os_log I (DBG_NAME @ ''[INFO][line:%d][%s]:'' @ fmt @ crlf) args else ok ())"

definition LOG_DEBUG :: "'os atc_interface \<Rightarrow> string \<Rightarrow> log_arg list \<Rightarrow> unit res" where
  "LOG_DEBUG I fmt args =
     (if LOG_LEVEL \<ge> LOG_LEVEL_DEBUG
      then os_log I (DBG_NAME @ ''[DEBUG][line:%d][%s]:'' @ fmt @ crlf) args else ok ())"

definition LOG_TRACE :: "'os atc_interface \<Rightarrow> unit res" where
  "LOG_TRACE I =
     (if LOG_LEVEL \<ge> LOG_LEVEL_TRACE
      then os_log I (DBG_NAME @ ''[TRACE][%s] to line:%d'' @ crlf) [] else ok ())"

text \<open>A log statement in front of what follows it.\<close>

abbreviation after :: "unit res \<Rightarrow> 'a res \<Rightarrow> 'a res" where
  "after l m \<equiv> rbind l (\<lambda>_. m)"

section \<open>Byte dumps\<close>

text \<open>
  \<open>isprint\<close> of the C locale.  Its argument is a plain \<open>char\<close> in the send path, which is
  unsigned on the modelled target, as in the ARM procedure call standard.
\<close>

definition c_isprint :: "u8 \<Rightarrow> bool" where
  "c_isprint b \<longleftrightarrow> 32 \<le> b \<and> b \<le> 126"

definition log_byte :: "'os atc_interface \<Rightarrow> u8 \<Rightarrow> unit res" where
  "log_byte I b =
     (if c_isprint b then os_log I ''%c'' [Log_Int (uint b)] else os_log I ''[0x%02X]'' [Log_Int (uint b)])"

fun log_bytes :: "'os atc_interface \<Rightarrow> u8 list \<Rightarrow> unit res" where
  "log_bytes I [] = ok ()"
| "log_bytes I (b # bs) = after (log_byte I b) (log_bytes I bs)"

text \<open>\<open>[RECV]:\<close> and \<open>[SEND]:\<close> with the bytes.\<close>

definition log_dump :: "'os atc_interface \<Rightarrow> string \<Rightarrow> u8 list \<Rightarrow> unit res" where
  "log_dump I label bs =
     (if LOG_LEVEL \<ge> LOG_LEVEL_DEBUG
      then after (os_log I (DBG_NAME @ label) []) (after (log_bytes I bs) (os_log I crlf []))
      else ok ())"

section \<open>Log statements that return\<close>

text \<open>The arguments can be read: every string ends inside its array.\<close>

fun log_safe :: "log_arg \<Rightarrow> bool" where
  "log_safe (Log_Str s) \<longleftrightarrow> 0 \<in> set s"
| "log_safe (Log_Prec n s) \<longleftrightarrow> (if n < 0 then 0 \<in> set s else 0 \<in> set s \<or> nat n \<le> length s)"
| "log_safe (Log_Int i) \<longleftrightarrow> True"
| "log_safe (Log_Ptr p) \<longleftrightarrow> True"

lemma strn_chars_returns: "(\<exists>cs. strn_chars s n = ok cs) \<longleftrightarrow> 0 \<in> set s \<or> n \<le> length s"
proof (induction s n rule: strn_chars.induct)
  case (3 x xs n)
  then show ?case by (cases "x = 0") (auto simp: rbind_eq_ok)
qed simp_all

lemma c_strlen_returns: "(\<exists>n. c_strlen s = ok n) \<longleftrightarrow> 0 \<in> set s"
  by (induction s) (auto simp: rbind_eq_ok)

lemma log_read_iff: "log_read a = ok () \<longleftrightarrow> log_safe a"
  by (cases a) (auto simp: rbind_eq_ok strn_chars_returns c_strlen_returns)

lemma log_reads_iff: "log_reads as = ok () \<longleftrightarrow> list_all log_safe as"
  by (induction as) (auto simp: rbind_eq_ok log_read_iff)

text \<open>A call returns exactly when the function is there and its arguments can be read.\<close>

lemma os_log_iff: "os_log I fmt args = ok () \<longleftrightarrow> atc_log I \<noteq> None \<and> list_all log_safe args"
  by (cases "atc_log I") (auto simp: os_log_def call_def rbind_eq_ok log_reads_iff)

lemma complete_log [simp]: "complete I \<Longrightarrow> atc_log I \<noteq> None"
  by (simp add: complete_def)

lemma LOG_ok [simp]:
  assumes "complete I" and "list_all log_safe args"
  shows "os_log I fmt args = ok ()" "LOG_ERR I fmt args = ok ()" "LOG_WARN I fmt args = ok ()"
    "LOG_INFO I fmt args = ok ()" "LOG_DEBUG I fmt args = ok ()"
  using assms by (simp_all add: os_log_iff LOG_ERR_def LOG_WARN_def LOG_INFO_def LOG_DEBUG_def)

lemma LOG_TRACE_ok [simp]: "complete I \<Longrightarrow> LOG_TRACE I = ok ()"
  by (simp add: LOG_TRACE_def)

lemma log_byte_ok [simp]: "complete I \<Longrightarrow> log_byte I b = ok ()"
  by (simp add: log_byte_def)

lemma log_bytes_ok [simp]: "complete I \<Longrightarrow> log_bytes I bs = ok ()"
  by (induction bs) simp_all

lemma log_dump_ok [simp]: "complete I \<Longrightarrow> log_dump I label bs = ok ()"
  by (simp add: log_dump_def)

text \<open>Before an interface is registered every log statement calls a null pointer.\<close>

lemma log_unregistered:
  "LOG_ERR zero_interface fmt args = fail NullCall" "LOG_WARN zero_interface fmt args = fail NullCall"
  "LOG_INFO zero_interface fmt args = fail NullCall" "LOG_DEBUG zero_interface fmt args = fail NullCall"
  "LOG_TRACE zero_interface = fail NullCall"
  by (simp_all add: LOG_ERR_def LOG_WARN_def LOG_INFO_def LOG_DEBUG_def LOG_TRACE_def os_log_def call_def
      zero_interface_def LOG_LEVEL_def LOG_LEVEL_ERROR_def LOG_LEVEL_WARN_def LOG_LEVEL_INFO_def
      LOG_LEVEL_DEBUG_def LOG_LEVEL_TRACE_def)

end
