(* ===== verification/Urc_Handle.thy ===== *)
theory Urc_Handle
  imports Slist Logging
begin

text \<open>
  \<open>urc_handle.c\<close>: the table of handlers for unsolicited result codes.  The table is a
  list of heap-allocated entries; a received line is dispatched to every entry whose prefix
  it starts with, and identifiers are allocated so that no two live entries share one.
\<close>

section \<open>Operations\<close>

abbreviation get_entry where "get_entry \<equiv> load sel_entry"

text \<open>
  The \<open>SLIST_FOREACH\<close> of \<open>urc_line_handle\<close>.  The entry is read before it is tested
  against null, because the debug message prints its fields.
\<close>

partial_function (option) urc_foreach ::
  "'os atc_interface \<Rightarrow> addr \<Rightarrow> u8 list \<Rightarrow> bool \<Rightarrow> 'os world \<Rightarrow> (bool \<times> 'os world) res" where
  "urc_foreach I node line is_urc w =
     (if node = NULL then ok (is_urc, w)
      else rbind (get_node node w) (\<lambda>n.
        rbind (get_entry (nd_data n) w) (\<lambda>entry.
        rbind (the_init (ue_id entry)) (\<lambda>i.
        after (LOG_DEBUG I ''Checking URC handler id:%d, prefix:%s, line_data:%s''
                 [Log_Int i, Log_Str (ue_prefix entry), Log_Str line])
        (rbind (c_strlen (ue_prefix entry)) (\<lambda>k.
        rbind (c_strncmp_eq line (ue_prefix entry) k) (\<lambda>eq.
        if eq
        then after (LOG_DEBUG I ''Match id:%d'' [Log_Int i])
          (let w = (if ue_handler entry \<noteq> NULL then emit (Ev_Urc (ue_handler entry) (cstr line)) w else w)
           in rbind (get_node node w) (\<lambda>n. urc_foreach I (nd_next n) line True w))
        else urc_foreach I (nd_next n) line is_urc w)))))))"

definition urc_line_handle ::
  "'os atc_interface \<Rightarrow> u8 list option \<Rightarrow> 'os world \<Rightarrow> (bool \<times> 'os world) res" where
  "urc_line_handle I line_data w =
     (case line_data of
        None \<Rightarrow> ok (False, w)
      | Some line \<Rightarrow> after (LOG_TRACE I)
          (rbind (get_list (urc_handler_list (ctx w)) w) (\<lambda>l. urc_foreach I (ls_head l) line False w)))"

definition urc_init :: "'os atc_interface \<Rightarrow> 'os world \<Rightarrow> (atc_result \<times> 'os world) res" where
  "urc_init I w =
     (if urc_handler_list (ctx w) = NULL
      then rbind (slist_create I (Some Urc_Free) w) (\<lambda>(l, w).
           let w = upd_ctx (\<lambda>c. c\<lparr>urc_handler_list := l\<rparr>) w
           in if l = NULL then after (LOG_ERR I ''Failed to create urc handler list'' []) (ok (ATC_ERROR, w))
              else ok (ATC_SUCCESS, upd_ctx (\<lambda>c. c\<lparr>urc_next_id := 1\<rparr>) w))
      else ok (ATC_SUCCESS, w))"

text \<open>The scan for an entry with the candidate identifier; the result is \<open>collision\<close>.\<close>

partial_function (option) scan_ids :: "addr \<Rightarrow> int \<Rightarrow> 'os world \<Rightarrow> bool res" where
  "scan_ids node candidate w =
     (if node = NULL then ok False
      else rbind (get_node node w) (\<lambda>n.
        if nd_data n = NULL then scan_ids (nd_next n) candidate w
        else rbind (get_entry (nd_data n) w) (\<lambda>e.
             rbind (the_init (ue_id e)) (\<lambda>i.
             if i = candidate then ok True else scan_ids (nd_next n) candidate w))))"

definition next_candidate :: "int \<Rightarrow> int" where
  "next_candidate candidate =
     (let c = (if candidate < INT_MAX then candidate + 1 else 1) in if c = 0 then 1 else c)"

text \<open>The \<open>do ... while (collision)\<close> loop.\<close>

partial_function (option) alloc_id :: "addr \<Rightarrow> int \<Rightarrow> 'os world \<Rightarrow> int res" where
  "alloc_id list candidate w =
     rbind (get_list list w) (\<lambda>l.
     rbind (scan_ids (ls_head l) candidate w) (\<lambda>collision.
     if collision then alloc_id list (next_candidate candidate) w else ok candidate))"

definition urc_register ::
  "'os atc_interface \<Rightarrow> urc_handler_entry option \<Rightarrow> 'os world \<Rightarrow> (int \<times> 'os world) res" where
  "urc_register I entry w =
     (let list = urc_handler_list (ctx w) in
      if list = NULL then after (LOG_ERR I ''urc_handler_list is null!'' []) (ok (-1, w))
      else case entry of
        None \<Rightarrow> after (LOG_ERR I ''entry is null!'' []) (ok (-1, w))
      | Some e \<Rightarrow>
          rbind (alloc_id list (if urc_next_id (ctx w) = 0 then 1 else urc_next_id (ctx w)) w) (\<lambda>assigned_id.
          let w = upd_ctx (\<lambda>c. c\<lparr>urc_next_id := if assigned_id < INT_MAX then assigned_id + 1 else 1\<rparr>) w
          in after (LOG_DEBUG I ''prefix:%s, register urc handler, id:%d'' [Log_Str (ue_prefix e), Log_Int assigned_id])
            (rbind (os_malloc I sizeof_urc_handler_entry w) (\<lambda>(tmp, w).
             if tmp = NULL
             then after (LOG_ERR I ''Failed to allocate memory for urc_handler_entry'' []) (ok (-1, w))
             else let w = put tmp (O_Entry (e\<lparr>ue_id := Some assigned_id\<rparr>)) w
                  in rbind (slist_append I list tmp w) (\<lambda>(r, w).
                     if r \<noteq> 0
                     then after (LOG_ERR I ''Failed to append urc handler entry to list'' [])
                       (rbind (os_free I tmp w) (\<lambda>w. ok (-1, w)))
                     else ok (assigned_id, w))))))"

partial_function (option) urc_unregister_loop ::
  "'os atc_interface \<Rightarrow> addr \<Rightarrow> int \<Rightarrow> 'os world \<Rightarrow> (atc_result \<times> 'os world) res" where
  "urc_unregister_loop I node i w =
     (if node = NULL then after (LOG_WARN I ''URC handler with id %d not found'' [Log_Int i]) (ok (ATC_ERROR, w))
      else rbind (get_node node w) (\<lambda>n.
        if nd_data n = NULL then urc_unregister_loop I (nd_next n) i w
        else rbind (get_entry (nd_data n) w) (\<lambda>entry.
             rbind (the_init (ue_id entry)) (\<lambda>j.
             if j = i
             then rbind (slist_remove I (urc_handler_list (ctx w)) (nd_data n) w) (\<lambda>(r, w).
                  after (LOG_DEBUG I ''Unregistered URC handler id:%d'' [Log_Int i]) (ok (ATC_SUCCESS, w)))
             else urc_unregister_loop I (nd_next n) i w))))"

definition urc_unregister :: "'os atc_interface \<Rightarrow> int \<Rightarrow> 'os world \<Rightarrow> (atc_result \<times> 'os world) res" where
  "urc_unregister I i w =
     (let list = urc_handler_list (ctx w) in
      if list = NULL then after (LOG_ERR I ''urc_handler_list is null!'' []) (ok (ATC_ERROR, w))
      else rbind (get_list list w) (\<lambda>l. urc_unregister_loop I (ls_head l) i w))"


section \<open>The table\<close>

type_synonym urc_table = "(addr \<times> urc_handler_entry) list"

definition ids :: "urc_table \<Rightarrow> int set" where
  "ids es = (\<lambda>(a, e). the (ue_id e)) ` set es"

definition entry_wf :: "urc_handler_entry \<Rightarrow> bool" where
  "entry_wf e \<longleftrightarrow> (\<exists>i. ue_id e = Some i \<and> 1 \<le> i \<and> i \<le> INT_MAX) \<and> 0 \<in> set (ue_prefix e)"

definition entries_at :: "'os world \<Rightarrow> urc_table \<Rightarrow> bool" where
  "entries_at w es \<longleftrightarrow> (\<forall>(a, e) \<in> set es. a \<noteq> NULL \<and> heap w a = Some (O_Entry e) \<and> entry_wf e)"

definition urc_inv :: "'os atc_interface \<Rightarrow> 'os world \<Rightarrow> urc_table \<Rightarrow> bool" where
  "urc_inv I w es \<longleftrightarrow> slist_holds I (urc_handler_list (ctx w)) w (map fst es) \<and> entries_at w es \<and>
     distinct (map (the \<circ> ue_id \<circ> snd) es) \<and>
     1 \<le> urc_next_id (ctx w) \<and> urc_next_id (ctx w) \<le> INT_MAX"

text \<open>A line matches an entry when it starts with the entry's prefix.\<close>

definition urc_match :: "u8 list \<Rightarrow> urc_handler_entry \<Rightarrow> bool" where
  "urc_match line e \<longleftrightarrow> prefix (cstr (ue_prefix e)) (cstr line)"

definition urc_calls :: "u8 list \<Rightarrow> urc_table \<Rightarrow> event list" where
  "urc_calls line es = [Ev_Urc (ue_handler e) (cstr line). (a, e) \<leftarrow> es, urc_match line e \<and> ue_handler e \<noteq> NULL]"

definition emits :: "event list \<Rightarrow> 'os world \<Rightarrow> 'os world" where
  "emits ts w = w\<lparr>trace := trace w @ ts\<rparr>"

lemma emits_simps [simp]:
  "heap (emits ts w) = heap w" "os (emits ts w) = os w" "ctx (emits ts w) = ctx w"
  "trace (emits ts w) = trace w @ ts"
  by (simp_all add: emits_def)

lemma emits_Nil [simp]: "emits [] w = w"
  by (simp add: emits_def)

lemma emits_emit [simp]: "emits ts (emit e w) = emits (e # ts) w"
  by (simp add: emits_def emit_def)

lemma entries_at_Cons [simp]:
  "entries_at w ((a, e) # es) \<longleftrightarrow> a \<noteq> NULL \<and> heap w a = Some (O_Entry e) \<and> entry_wf e \<and> entries_at w es"
  by (simp add: entries_at_def)

lemma entries_at_heap: "heap w' = heap w \<Longrightarrow> entries_at w' es = entries_at w es"
  by (simp add: entries_at_def)

text \<open>The list of a table, as the loops walk it.\<close>

lemma slist_holds_seg:
  assumes "slist_holds I list w ds"
  obtains l xs where "list \<noteq> NULL" "get_list list w = ok l" "list_seg (heap w) (ls_head l) xs NULL"
    "map snd xs = ds"
proof -
  obtain xs where "slist_rep w list (Some Urc_Free) xs" "map snd xs = ds"
    using assms by (auto simp: slist_holds_def)
  then show thesis using that by (auto simp: slist_rep_def)
qed

section \<open>Dispatch\<close>

lemma urc_match_strncmp:
  "0 \<in> set line \<Longrightarrow> 0 \<in> set (ue_prefix e) \<Longrightarrow>
   c_strncmp_eq line (ue_prefix e) (length (cstr (ue_prefix e))) = ok (urc_match line e)"
  by (simp add: c_strncmp_eq_prefix urc_match_def)

lemma urc_calls_Cons:
  "urc_calls line ((a, e) # es) =
     (if urc_match line e \<and> ue_handler e \<noteq> NULL then [Ev_Urc (ue_handler e) (cstr line)] else []) @
     urc_calls line es"
  by (simp add: urc_calls_def)

lemma urc_foreach_seg:
  "complete I \<Longrightarrow> list_seg (heap w) p xs NULL \<Longrightarrow> map snd xs = map fst es \<Longrightarrow> entries_at w es \<Longrightarrow> 0 \<in> set line \<Longrightarrow>
   urc_foreach I p line b w = ok (b \<or> (\<exists>(a, e) \<in> set es. urc_match line e), emits (urc_calls line es) w)"
proof (induction es arbitrary: p xs b w)
  case Nil
  then show ?case by (simp add: urc_foreach.simps urc_calls_def)
next
  case (Cons x es)
  obtain a e where x: "x = (a, e)" by (cases x)
  obtain nd n ys where n: "xs = (nd, a) # ys" "p = nd" "nd \<noteq> NULL"
      "heap w nd = Some (O_Node \<lparr>nd_data = a, nd_next = n\<rparr>)" "list_seg (heap w) n ys NULL" "map snd ys = map fst es"
    using Cons.prems(2,3) x by (cases xs) auto
  have e: "a \<noteq> NULL" "heap w a = Some (O_Entry e)" "0 \<in> set (ue_prefix e)" "entries_at w es"
    using Cons.prems(4) x by (auto simp: entry_wf_def)
  obtain i where i: "ue_id e = Some i" using Cons.prems(4) x by (auto simp: entry_wf_def)
  let ?w = "if urc_match line e \<and> ue_handler e \<noteq> NULL then emit (Ev_Urc (ue_handler e) (cstr line)) w else w"
  have IH: "urc_foreach I n line b' ?w =
      ok (b' \<or> (\<exists>(a, e) \<in> set es. urc_match line e), emits (urc_calls line es) ?w)" for b'
    using n(5,6) e(4) Cons.prems(1,5) by (intro Cons.IH) (simp_all add: entries_at_heap [of ?w w])
  show ?case
    using IH [of b] IH [of True] n(1-4) e(1-3) i x Cons.prems(1,5)
    by (subst urc_foreach.simps)
      (cases "urc_match line e"; cases "ue_handler e = NULL";
        simp add: c_strlen_cstr urc_match_strncmp urc_calls_Cons)
qed

lemma urc_line_handle_ok:
  assumes "urc_inv I w es" and "0 \<in> set line"
  shows "urc_line_handle I (Some line) w =
    ok (\<exists>(a, e) \<in> set es. urc_match line e, emits (urc_calls line es) w)"
proof -
  have I: "complete I" using assms(1) by (simp add: urc_inv_def slist_holds_def)
  obtain l xs where "urc_handler_list (ctx w) \<noteq> NULL" "get_list (urc_handler_list (ctx w)) w = ok l"
      "list_seg (heap w) (ls_head l) xs NULL" "map snd xs = map fst es"
    using assms(1) slist_holds_seg by (metis urc_inv_def)
  then show ?thesis using I assms urc_foreach_seg [of I w "ls_head l" xs es line False]
    by (simp add: urc_line_handle_def urc_inv_def)
qed

section \<open>Identifiers\<close>

lemma scan_ids_seg:
  "list_seg (heap w) p xs NULL \<Longrightarrow> map snd xs = map fst es \<Longrightarrow> entries_at w es \<Longrightarrow>
   scan_ids p c w = ok (c \<in> ids es)"
proof (induction es arbitrary: p xs)
  case Nil
  then show ?case by (simp add: scan_ids.simps ids_def)
next
  case (Cons x es)
  obtain a e where x: "x = (a, e)" by (cases x)
  obtain nd n ys where n: "xs = (nd, a) # ys" "p = nd" "nd \<noteq> NULL"
      "heap w nd = Some (O_Node \<lparr>nd_data = a, nd_next = n\<rparr>)" "list_seg (heap w) n ys NULL" "map snd ys = map fst es"
    using Cons.prems(1,2) x by (cases xs) auto
  have "scan_ids n c w = ok (c \<in> ids es)" using n(5,6) Cons.prems(3) x by (intro Cons.IH) auto
  then show ?case using n(2-4) Cons.prems(3) x
    by (subst scan_ids.simps) (auto simp: entry_wf_def ids_def)
qed

text \<open>
  From \<open>c\<close> the candidates run through all identifiers \<open>1, ..., INT_MAX\<close>, cyclically, so
  among the first \<open>n + 1\<close> of them one is not taken when \<open>n\<close> are.
\<close>

lemma next_candidate_iter:
  assumes "1 \<le> c" "c \<le> INT_MAX"
  shows "(next_candidate ^^ k) c = (c - 1 + int k) mod INT_MAX + 1"
proof (induction k)
  case 0
  then show ?case using assms by simp
next
  case (Suc k)
  have "next_candidate (m mod INT_MAX + 1) = (m + 1) mod INT_MAX + 1" for m :: int
  proof -
    have r: "0 \<le> m mod INT_MAX" "m mod INT_MAX < INT_MAX" by (simp_all add: INT_MAX_def)
    have e: "(m + 1) mod INT_MAX = (m mod INT_MAX + 1) mod INT_MAX" by (simp add: mod_simps)
    show ?thesis
    proof (cases "m mod INT_MAX + 1 < INT_MAX")
      case True
      then show ?thesis using r e by (simp add: next_candidate_def)
    next
      case False
      then have "m mod INT_MAX + 1 = INT_MAX" using r by simp
      then show ?thesis using e by (simp add: next_candidate_def)
    qed
  qed
  then show ?case using Suc by (simp add: algebra_simps)
qed

lemma next_candidate_range:
  "1 \<le> c \<Longrightarrow> c \<le> INT_MAX \<Longrightarrow> 1 \<le> (next_candidate ^^ k) c \<and> (next_candidate ^^ k) c \<le> INT_MAX"
proof -
  assume "1 \<le> c" "c \<le> INT_MAX"
  moreover have "0 \<le> m mod INT_MAX \<and> m mod INT_MAX < INT_MAX" for m :: int by (simp add: INT_MAX_def)
  ultimately show ?thesis using next_candidate_iter [of c k] by (smt (verit, best))
qed

lemma next_candidate_inj:
  assumes "1 \<le> c" "c \<le> INT_MAX" "int j < INT_MAX" "int k < INT_MAX"
    and "(next_candidate ^^ j) c = (next_candidate ^^ k) c"
  shows "j = k"
proof -
  have "(c - 1 + int j) mod INT_MAX = (c - 1 + int k) mod INT_MAX"
    using assms by (simp add: next_candidate_iter)
  then have "int j mod INT_MAX = int k mod INT_MAX"
    by (metis add_diff_cancel_left' mod_diff_left_eq)
  then show ?thesis using assms(3,4) by simp
qed

lemma free_candidate:
  assumes c: "1 \<le> c" "c \<le> INT_MAX" and S: "finite S" "int (card S) < INT_MAX"
  shows "\<exists>k \<le> card S. (next_candidate ^^ k) c \<notin> S"
proof (rule ccontr)
  let ?f = "\<lambda>k. (next_candidate ^^ k) c"
  assume "\<not> ?thesis"
  then have sub: "?f ` {..card S} \<subseteq> S" by auto
  have "inj_on ?f {..card S}"
    by (rule inj_onI) (use S(2) next_candidate_inj [OF c] in auto)
  then have "card (?f ` {..card S}) = Suc (card S)" by (simp add: card_image)
  then show False using card_mono [OF S(1) sub] by simp
qed

text \<open>The loop returns the first candidate that is not taken.\<close>

lemma alloc_id_least:
  assumes l: "slist_holds I list w (map fst es)" "entries_at w es"
  shows "(next_candidate ^^ k) c \<notin> ids es \<Longrightarrow> (\<forall>j < k. (next_candidate ^^ j) c \<in> ids es) \<Longrightarrow>
    alloc_id list c w = ok ((next_candidate ^^ k) c)"
proof (induction k arbitrary: c)
  case 0
  obtain l xs where "get_list list w = ok l" "list_seg (heap w) (ls_head l) xs NULL" "map snd xs = map fst es"
    using slist_holds_seg [OF l(1)] by metis
  then show ?case using 0 scan_ids_seg [of w "ls_head l" xs es c] l(2) by (simp add: alloc_id.simps)
next
  case (Suc k)
  obtain l xs where "get_list list w = ok l" "list_seg (heap w) (ls_head l) xs NULL" "map snd xs = map fst es"
    using slist_holds_seg [OF l(1)] by metis
  moreover have "alloc_id list (next_candidate c) w = ok ((next_candidate ^^ k) (next_candidate c))"
  proof (rule Suc.IH)
    show "\<forall>j < k. (next_candidate ^^ j) (next_candidate c) \<in> ids es"
      using Suc.prems(2) by (metis Suc_less_eq comp_apply funpow_Suc_right)
  qed (use Suc.prems(1) in \<open>simp add: funpow_swap1\<close>)
  moreover have "c \<in> ids es" using Suc.prems(2) by force
  ultimately show ?case using scan_ids_seg [of w "ls_head l" xs es c] l(2)
    by (subst alloc_id.simps) (simp add: funpow_swap1)
qed

lemma finite_ids [simp]: "finite (ids es)"
  by (simp add: ids_def)

lemma card_ids: "card (ids es) \<le> length es"
  unfolding ids_def by (rule order_trans [OF card_image_le]) (simp_all add: card_length)

lemma alloc_id_ok:
  assumes "slist_holds I list w (map fst es)" "entries_at w es"
    and "1 \<le> c" "c \<le> INT_MAX" "int (length es) < INT_MAX"
  shows "\<exists>k \<le> length es. alloc_id list c w = ok ((next_candidate ^^ k) c) \<and>
    (next_candidate ^^ k) c \<notin> ids es \<and> (\<forall>j < k. (next_candidate ^^ j) c \<in> ids es)"
proof -
  have "int (card (ids es)) < INT_MAX" using card_ids [of es] assms(5) by simp
  then obtain m where m: "m \<le> card (ids es)" "(next_candidate ^^ m) c \<notin> ids es"
    using free_candidate [OF assms(3,4) finite_ids] by blast
  define k where "k = (LEAST k. (next_candidate ^^ k) c \<notin> ids es)"
  have k: "(next_candidate ^^ k) c \<notin> ids es" "\<forall>j < k. (next_candidate ^^ j) c \<in> ids es" "k \<le> m"
    unfolding k_def using m(2) by (metis (mono_tags, lifting) LeastI, metis (mono_tags, lifting) not_less_Least, metis (mono_tags, lifting) Least_le)
  then show ?thesis using alloc_id_least [OF assms(1,2) k(1,2)] m(1) card_ids [of es]
    by (intro exI [of _ k]) simp
qed

section \<open>Preservation of the invariant\<close>

text \<open>The table only depends on the links and the entries in the heap.\<close>

definition links_kept :: "addr set \<Rightarrow> 'os world \<Rightarrow> 'os world \<Rightarrow> bool" where
  "links_kept A w w' \<longleftrightarrow> (\<forall>p ob. heap w p = Some ob \<longrightarrow> is_link ob \<or> p \<in> A \<longrightarrow> heap w' p = Some ob)"

lemma links_keptD: "links_kept A w w' \<Longrightarrow> heap w p = Some ob \<Longrightarrow> is_link ob \<or> p \<in> A \<Longrightarrow> heap w' p = Some ob"
  unfolding links_kept_def by blast

lemma links_kept_heap: "heap w' = heap w \<Longrightarrow> links_kept A w w'"
  by (simp add: links_kept_def)

lemma links_kept_upd:
  "heap w' = (heap w)(a := x) \<Longrightarrow> a \<notin> A \<Longrightarrow> (\<And>ob. heap w a = Some ob \<Longrightarrow> \<not> is_link ob) \<Longrightarrow> links_kept A w w'"
  by (auto simp: links_kept_def)

lemma slist_holds_stable:
  assumes h: "slist_holds I list w ds" and s: "links_kept (set ds) w w'"
  shows "slist_holds I list w' ds"
proof -
  obtain xs where xs: "slist_rep w list (Some Urc_Free) xs" "map snd xs = ds"
    using h by (auto simp: slist_holds_def)
  have eq: "heap w' p = heap w p" if "heap w p = Some ob" "is_link ob" for p ob
    using links_keptD [OF s that(1)] that by simp
  have "slist_rep w' list (Some Urc_Free) xs"
  proof (rule slist_rep_frame [OF xs(1)])
    show "heap w' list = heap w list" using slist_rep_kinds(1) [OF xs(1)] eq by (metis is_link.simps(2))
    show "\<And>a. a \<in> fst ` set xs \<Longrightarrow> heap w' a = heap w a"
      using slist_rep_kinds(2) [OF xs(1)] eq by (metis is_link.simps(1))
  qed
  moreover have "entry_ready w' d" if "d \<in> set ds" for d
  proof -
    have "entry_ready w d" using h that by (simp add: slist_holds_def)
    then obtain e where "d \<noteq> NULL" "heap w d = Some (O_Entry e)" unfolding entry_ready_def by blast
    then show ?thesis using links_keptD [OF s, of d] that unfolding entry_ready_def by blast
  qed
  ultimately show ?thesis using h xs(2) unfolding slist_holds_def by blast
qed

lemma entries_at_stable: "entries_at w es \<Longrightarrow> links_kept (fst ` set es) w w' \<Longrightarrow> entries_at w' es"
  unfolding entries_at_def
proof (rule ballI)
  fix x assume a: "\<forall>(a, e) \<in> set es. a \<noteq> NULL \<and> heap w a = Some (O_Entry e) \<and> entry_wf e"
    "links_kept (fst ` set es) w w'" "x \<in> set es"
  obtain b e where x: "x = (b, e)" by (cases x)
  then have "b \<noteq> NULL" "heap w b = Some (O_Entry e)" "entry_wf e" "b \<in> fst ` set es"
    using a(1,3) by force+
  then show "case x of (a, e) \<Rightarrow> a \<noteq> NULL \<and> heap w' a = Some (O_Entry e) \<and> entry_wf e"
    using links_keptD [OF a(2)] x by simp
qed

lemma urc_inv_stable:
  assumes "urc_inv I w es" and "links_kept (fst ` set es) w w'"
    and "urc_handler_list (ctx w') = urc_handler_list (ctx w)" "urc_next_id (ctx w') = urc_next_id (ctx w)"
  shows "urc_inv I w' es"
proof -
  have "slist_holds I (urc_handler_list (ctx w)) w' (map fst es)"
    by (rule slist_holds_stable [of I _ w]) (use assms(1,2) in \<open>simp_all add: urc_inv_def\<close>)
  moreover have "entries_at w' es"
    by (rule entries_at_stable [of w]) (use assms(1,2) in \<open>simp_all add: urc_inv_def\<close>)
  ultimately show ?thesis using assms(1,3,4) by (simp add: urc_inv_def)
qed

lemma urc_inv_keeps_entry:
  "urc_inv I w es \<Longrightarrow> a \<in> fst ` set es \<Longrightarrow> \<exists>e. heap w a = Some (O_Entry e) \<and> (a, e) \<in> set es"
  by (fastforce simp: urc_inv_def entries_at_def)

lemma urc_inv_interface: "urc_inv I w es \<Longrightarrow> complete I \<and> malloc_fresh I"
  by (simp add: urc_inv_def slist_holds_def)

lemma urc_inv_list: "urc_inv I w es \<Longrightarrow> urc_handler_list (ctx w) \<noteq> NULL"
  by (auto simp: urc_inv_def slist_holds_def slist_rep_def)

lemma urc_init_ok:
  assumes "complete I" "malloc_fresh I" "urc_handler_list (ctx w) = NULL"
  shows "\<exists>r w'. urc_init I w = ok (r, w') \<and> trace w' = trace w \<and> keeps {} w w' \<and>
    ctx w' = (ctx w)\<lparr>urc_handler_list := urc_handler_list (ctx w'), urc_next_id := urc_next_id (ctx w')\<rparr> \<and>
    (if r = ATC_SUCCESS then urc_inv I w' [] else r = ATC_ERROR \<and> urc_handler_list (ctx w') = NULL)"
proof -
  obtain l w1 where l: "slist_create I (Some Urc_Free) w = ok (l, w1)"
      "if l = NULL then frame {} w w1 else heap w l = None \<and> frame {l} w w1 \<and> slist_rep w1 l (Some Urc_Free) []"
    using slist_create_rep [OF assms(1,2), of "Some Urc_Free" w] by blast
  let ?u = "upd_ctx (\<lambda>c. c\<lparr>urc_handler_list := l\<rparr>) w1"
  let ?v = "upd_ctx (\<lambda>c. c\<lparr>urc_next_id := 1\<rparr>) ?u"
  show ?thesis
  proof (cases "l = NULL")
    case True
    then have "frame {} w w1" "urc_init I w = ok (ATC_ERROR, ?u)"
      using l assms(1,3) by (simp_all add: urc_init_def)
    then show ?thesis using True assms(3)
      by (intro exI [of _ ATC_ERROR] exI [of _ ?u]) (simp add: frame_def keeps_def)
  next
    case False
    then have f: "heap w l = None" "frame {l} w w1" "slist_rep w1 l (Some Urc_Free) []"
        "urc_init I w = ok (ATC_SUCCESS, ?v)"
      using l assms(3) by (simp_all add: urc_init_def)
    have "urc_inv I ?v []"
      using f(3) assms(1,2) by (simp add: urc_inv_def slist_holds_def entries_at_def slist_rep_def INT_MAX_def)
    then show ?thesis using f
      by (intro exI [of _ ATC_SUCCESS] exI [of _ ?v]) (simp add: frame_def keeps_def, metis option.distinct(1))
  qed
qed

text \<open>
  What a registration does to the heap.  It succeeds with the entry in a new cell \<open>a\<close> and one
  new node of the list, and writes nothing else but the list's own cells; or the platform
  refused memory, for the entry or, with the entry already in place, for the node.
\<close>

definition entry_added :: "addr \<Rightarrow> addr \<Rightarrow> urc_handler_entry \<Rightarrow> 'os world \<Rightarrow> 'os world \<Rightarrow> bool" where
  "entry_added list a e w w' \<longleftrightarrow>
     (\<exists>n xs. slist_rep w list (Some Urc_Free) xs \<and> slist_rep w' list (Some Urc_Free) (xs @ [(n, a)]) \<and>
        a \<noteq> n \<and> heap w a = None \<and> heap w n = None \<and> heap w' a = Some (O_Entry e) \<and>
        (\<forall>q. q \<notin> {a, n, list} \<union> fst ` set xs \<longrightarrow> heap w' q = heap w q))"

definition register_refused :: "'os atc_interface \<Rightarrow> 'os world \<Rightarrow> bool" where
  "register_refused I w \<longleftrightarrow>
     (\<exists>u v. heap u = heap w \<and> os_malloc I sizeof_urc_handler_entry u = ok (NULL, v)) \<or>
     (\<exists>u v a e. heap w a = None \<and> heap u = (heap w)(a \<mapsto> O_Entry e) \<and> os_malloc I sizeof_slist_node u = ok (NULL, v))"

lemma entry_added_keeps: "entry_added list a e w w' \<Longrightarrow> keeps {} w w'"
  unfolding keeps_def
proof (intro allI impI)
  fix p ob assume n: "entry_added list a e w w'" and p: "heap w p = Some ob" "\<not> is_link ob"
  obtain n xs where x: "slist_rep w list (Some Urc_Free) xs" "heap w a = None" "heap w n = None"
      "\<forall>q. q \<notin> {a, n, list} \<union> fst ` set xs \<longrightarrow> heap w' q = heap w q"
    using n by (auto simp: entry_added_def)
  have "p \<notin> {a, n, list} \<union> fst ` set xs" using x(2,3) p slist_rep_kinds [OF x(1)] by fastforce
  then show "heap w' p = Some ob" using x(4) p(1) by simp
qed

text \<open>A list that cannot be extended was refused a node, and nothing changed.\<close>

lemma slist_append_exact:
  assumes "complete I" "malloc_fresh I" and rep: "slist_rep w list fn xs"
  obtains (refused) v where "slist_append I list d w = ok (-1, v)" "os_malloc I sizeof_slist_node w = ok (NULL, v)"
      "heap v = heap w" "ctx v = ctx w" "trace v = trace w"
    | (extended) n v where "slist_append I list d w = ok (0, v)" "heap w n = None"
      "slist_rep v list fn (xs @ [(n, d)])" "frame ({list, n} \<union> fst ` set xs) w v"
proof (cases rule: os_malloc_cases [OF assms(1,2), of sizeof_slist_node w, case_names fails fresh])
  case (fails s)
  have "list \<noteq> NULL" using rep by (simp add: slist_rep_def)
  then show thesis using refused [OF _ fails(1)] fails by (simp add: slist_append_def slist_new_node_def)
next
  case (fresh a s)
  obtain l where "list \<noteq> NULL" "heap w list = Some (O_List l)" using rep by (auto simp: slist_rep_def)
  then have "slist_append I list d w \<noteq> ok (-1, v)" for v
    using fresh by (auto simp: slist_append_def slist_new_node_def rbind_eq_ok)
  with slist_append_rep [OF assms, of d] extended show thesis by (metis (no_types, lifting))
qed

text \<open>The entry is appended, or freed again when the list has no memory for a node.\<close>

lemma register_append:
  assumes inv: "urc_inv I w es" and i: "1 \<le> i" "i \<le> INT_MAX" "i \<notin> ids es" and e: "0 \<in> set (ue_prefix e)"
    and a: "a \<noteq> NULL" "heap w a = None"
  shows "\<exists>r w'. rbind (slist_append I (urc_handler_list (ctx w)) a (put a (O_Entry (e\<lparr>ue_id := Some i\<rparr>)) w)) (\<lambda>(r, w).
       if r \<noteq> 0 then rbind (os_free I a w) (\<lambda>w. ok (-1, w)) else ok (i, w)) = ok (r, w') \<and>
    trace w' = trace w \<and> ctx w' = ctx w \<and>
    (if r = -1 then heap w' = heap w \<and> register_refused I w \<and> urc_inv I w' es
     else r = i \<and> entry_added (urc_handler_list (ctx w)) a (e\<lparr>ue_id := Some i\<rparr>) w w' \<and>
       urc_inv I w' (es @ [(a, e\<lparr>ue_id := Some i\<rparr>)]))"
proof -
  let ?list = "urc_handler_list (ctx w)" and ?e = "e\<lparr>ue_id := Some i\<rparr>"
  define w2 where "w2 = put a (O_Entry ?e) w"
  have I: "complete I" "malloc_fresh I" using urc_inv_interface [OF inv] by simp_all
  have h: "slist_holds I ?list w (map fst es)" "entries_at w es" using inv by (auto simp: urc_inv_def)
  obtain xs where xs: "slist_rep w ?list (Some Urc_Free) xs" "map snd xs = map fst es" using h(1) by (auto simp: slist_holds_def)
  have al: "a \<noteq> ?list" "a \<notin> fst ` set xs" using slist_rep_kinds [OF xs(1)] a(2) by fastforce+
  have new: "a \<notin> set (map fst es)" using a(2) urc_inv_keeps_entry [OF inv, of a] by auto
  have xs2: "slist_rep w2 ?list (Some Urc_Free) xs"
    by (rule slist_rep_frame [OF xs(1)]) (use al in \<open>auto simp: w2_def\<close>)
  show ?thesis
  proof (cases rule: slist_append_exact [OF I xs2, of a, case_names refused extended])
    case (refused v)
    have av: "heap v a = Some (O_Entry ?e)" using refused(3) by (simp add: w2_def)
    obtain s where f: "os_free I a v = ok (v\<lparr>heap := (heap v)(a := None), os := s\<rparr>)"
      using os_free_ok [OF I(1) av] by blast
    let ?w = "v\<lparr>heap := (heap v)(a := None), os := s\<rparr>"
    have hw: "heap ?w = heap w" using refused(3) a(2) by (auto simp: w2_def)
    have "urc_inv I ?w es" by (rule urc_inv_stable [OF inv]) (use hw refused(4) in \<open>simp_all add: links_kept_heap w2_def\<close>)
    moreover have "heap w2 = (heap w)(a \<mapsto> O_Entry ?e)" by (simp add: w2_def)
    then have "register_refused I w" unfolding register_refused_def using a(2) refused(2) by blast
    ultimately show ?thesis using refused(1,4,5) f hw
      by (intro exI [of _ "-1"] exI [of _ ?w]) (simp add: w2_def)
  next
    case (extended n v)
    have fr: "heap v q = heap w2 q" if "q \<notin> {?list, n} \<union> fst ` set xs" for q
      using frame_heap [OF extended(4) that] .
    have an: "a \<noteq> n" "heap w n = None" using extended(2) by (auto simp: w2_def split: if_splits)
    then have av: "heap v a = Some (O_Entry ?e)" using fr [of a] al by (auto simp: w2_def)
    have add: "entry_added ?list a ?e w v"
      unfolding entry_added_def using xs(1) extended(3) an a(2) av fr
      by (intro exI [of _ n] exI [of _ xs]) (simp add: w2_def)
    have es: "entries_at v es"
      unfolding entries_at_def using h(2) keepsD [OF entry_added_keeps [OF add]] by (fastforce simp: entries_at_def)
    have ready: "entry_ready v d" if "d \<in> set (map fst es @ [a])" for d
      using that av a(1) es by (auto simp: entry_ready_def entries_at_def)
    have c: "ctx v = ctx w" "trace v = trace w" using extended(4) by (simp_all add: frame_def w2_def)
    have "slist_holds I ?list v (map fst es @ [a])"
      unfolding slist_holds_def using I h(1) new extended(3) xs(2) ready
      by (auto simp: slist_holds_def intro!: exI [of _ "xs @ [(n, a)]"])
    then have "urc_inv I v (es @ [(a, ?e)])"
      using inv es av a(1) i e c(1) by (auto simp: urc_inv_def entries_at_def entry_wf_def ids_def)
    then show ?thesis using extended(1) c i(1) add by (intro exI [of _ i] exI [of _ v]) (simp add: w2_def)
  qed
qed

lemma register_refused_heap: "heap w' = heap w \<Longrightarrow> register_refused I w' = register_refused I w"
  by (simp add: register_refused_def)

lemma entry_added_heap: "heap v = heap w \<Longrightarrow> entry_added list a e v w' = entry_added list a e w w'"
  by (simp add: entry_added_def slist_rep_def)

lemma urc_register_exact:
  assumes inv: "urc_inv I w es" and e: "0 \<in> set (ue_prefix e)" and room: "int (length es) < INT_MAX"
  shows "\<exists>r w' i. urc_register I (Some e) w = ok (r, w') \<and> trace w' = trace w \<and>
    ctx w' = (ctx w)\<lparr>urc_next_id := i\<rparr> \<and> 1 \<le> i \<and> i \<le> INT_MAX \<and>
    (if r = -1 then heap w' = heap w \<and> register_refused I w \<and> urc_inv I w' es
     else 1 \<le> r \<and> r \<le> INT_MAX \<and> r \<notin> ids es \<and> i = (if r < INT_MAX then r + 1 else 1) \<and>
       (\<exists>a. entry_added (urc_handler_list (ctx w)) a (e\<lparr>ue_id := Some r\<rparr>) w w' \<and>
          urc_inv I w' (es @ [(a, e\<lparr>ue_id := Some r\<rparr>)])))"
proof -
  let ?list = "urc_handler_list (ctx w)" and ?c = "urc_next_id (ctx w)"
  have I: "complete I" "malloc_fresh I" using urc_inv_interface [OF inv] by auto
  have h: "slist_holds I ?list w (map fst es)" "entries_at w es" "1 \<le> ?c" "?c \<le> INT_MAX"
    using inv by (auto simp: urc_inv_def)
  from alloc_id_ok [OF h room] obtain k where
    k: "alloc_id ?list ?c w = ok ((next_candidate ^^ k) ?c)" "(next_candidate ^^ k) ?c \<notin> ids es" by blast
  define i where "i = (next_candidate ^^ k) ?c"
  have ir: "1 \<le> i" "i \<le> INT_MAX" "i \<notin> ids es" using next_candidate_range [OF h(3,4), of k] k(2) by (auto simp: i_def)
  define n where "n = (if i < INT_MAX then i + 1 else 1)"
  have nr: "1 \<le> n" "n \<le> INT_MAX" using ir by (auto simp: n_def INT_MAX_def)
  define w1 where "w1 = upd_ctx (\<lambda>c. c\<lparr>urc_next_id := n\<rparr>) w"
  have inv1: "urc_inv I w1 es"
    using inv nr slist_holds_stable [OF h(1) links_kept_heap [of w1 w]] entries_at_heap [of w1 w es]
    by (simp add: urc_inv_def w1_def)
  have reg: "urc_register I (Some e) w =
      rbind (os_malloc I sizeof_urc_handler_entry w1) (\<lambda>(tmp, w).
             if tmp = NULL then ok (-1, w)
             else let w = put tmp (O_Entry (e\<lparr>ue_id := Some i\<rparr>)) w
                  in rbind (slist_append I ?list tmp w) (\<lambda>(r, w).
                     if r \<noteq> 0 then rbind (os_free I tmp w) (\<lambda>w. ok (-1, w))
                     else ok (i, w)))"
    using k(1) [folded i_def] h(3) urc_inv_list [OF inv] I(1) e
    unfolding urc_register_def w1_def n_def Let_def by (simp cong: if_cong)
  show ?thesis
  proof (cases rule: os_malloc_cases [OF I, of sizeof_urc_handler_entry w1, case_names fails fresh])
    case (fails s)
    have "urc_inv I (w1\<lparr>os := s\<rparr>) es" by (rule urc_inv_stable [OF inv1]) (simp_all add: links_kept_heap)
    moreover have "heap w1 = heap w" by (simp add: w1_def)
    then have "register_refused I w" unfolding register_refused_def using fails by blast
    ultimately show ?thesis using reg fails nr
      by (intro exI [of _ "-1"] exI [of _ "w1\<lparr>os := s\<rparr>"] exI [of _ n]) (simp add: w1_def)
  next
    case (fresh a s)
    let ?w = "w1\<lparr>os := s\<rparr>"
    have inv2: "urc_inv I ?w es" by (rule urc_inv_stable [OF inv1]) (simp_all add: links_kept_heap)
    have hw: "heap ?w = heap w" "ctx ?w = ctx w1" "trace ?w = trace w" "urc_handler_list (ctx w1) = ?list" by (simp_all add: w1_def)
    have a: "heap ?w a = None" using fresh(3) by simp
    from register_append [OF inv2 ir e fresh(2) a] obtain r w' where
      r: "rbind (slist_append I ?list a (put a (O_Entry (e\<lparr>ue_id := Some i\<rparr>)) ?w)) (\<lambda>(r, w).
         if r \<noteq> 0 then rbind (os_free I a w) (\<lambda>w. ok (-1, w)) else ok (i, w)) = ok (r, w')"
        "trace w' = trace w" "ctx w' = ctx w1"
        "if r = -1 then heap w' = heap w \<and> register_refused I w \<and> urc_inv I w' es
         else r = i \<and> entry_added ?list a (e\<lparr>ue_id := Some i\<rparr>) w w' \<and> urc_inv I w' (es @ [(a, e\<lparr>ue_id := Some i\<rparr>)])"
      unfolding hw register_refused_heap [OF hw(1)] entry_added_heap [OF hw(1)] by blast
    have "urc_register I (Some e) w = ok (r, w')" using reg fresh(1,2) r(1) by simp
    moreover have "ctx w' = (ctx w)\<lparr>urc_next_id := n\<rparr>" using r(3) by (simp add: w1_def)
    ultimately show ?thesis using r(2,4) ir nr
      by (intro exI [of _ r] exI [of _ w'] exI [of _ n]) (auto simp: n_def split: if_splits)
  qed
qed

lemma urc_register_ok:
  assumes inv: "urc_inv I w es" and e: "0 \<in> set (ue_prefix e)" and room: "int (length es) < INT_MAX"
  shows "\<exists>r w' i. urc_register I (Some e) w = ok (r, w') \<and> trace w' = trace w \<and> keeps {} w w' \<and>
    ctx w' = (ctx w)\<lparr>urc_next_id := i\<rparr> \<and>
    (if r = -1 then urc_inv I w' es
     else 1 \<le> r \<and> r \<le> INT_MAX \<and> r \<notin> ids es \<and>
       (\<exists>a. heap w a = None \<and> urc_inv I w' (es @ [(a, e\<lparr>ue_id := Some r\<rparr>)])))"
proof -
  from urc_register_exact [OF assms] obtain r w' i where r: "urc_register I (Some e) w = ok (r, w')"
      "trace w' = trace w" "ctx w' = (ctx w)\<lparr>urc_next_id := i\<rparr>"
    and c: "if r = -1 then heap w' = heap w \<and> register_refused I w \<and> urc_inv I w' es
     else 1 \<le> r \<and> r \<le> INT_MAX \<and> r \<notin> ids es \<and> i = (if r < INT_MAX then r + 1 else 1) \<and>
       (\<exists>a. entry_added (urc_handler_list (ctx w)) a (e\<lparr>ue_id := Some r\<rparr>) w w' \<and>
          urc_inv I w' (es @ [(a, e\<lparr>ue_id := Some r\<rparr>)]))" by blast
  have "keeps {} w w'"
  proof (cases "r = -1")
    case True
    then show ?thesis using c by (simp add: keeps_def)
  next
    case False
    then show ?thesis using c entry_added_keeps by auto
  qed
  then show ?thesis using r c by (intro exI [of _ r] exI [of _ w'] exI [of _ i]) (auto simp: entry_added_def split: if_splits)
qed

section \<open>Removal\<close>

definition drop_id :: "int \<Rightarrow> urc_table \<Rightarrow> urc_table" where
  "drop_id i es = filter (\<lambda>(a, e). ue_id e \<noteq> Some i) es"

lemma urc_unregister_loop_seg:
  "complete I \<Longrightarrow> list_seg (heap w) p xs NULL \<Longrightarrow> map snd xs = map fst es \<Longrightarrow> entries_at w es \<Longrightarrow>
   urc_unregister_loop I p i w =
     (case find (\<lambda>(a, e). ue_id e = Some i) es of
        None \<Rightarrow> ok (ATC_ERROR, w)
      | Some (a, e) \<Rightarrow> rbind (slist_remove I (urc_handler_list (ctx w)) a w) (\<lambda>(r, w). ok (ATC_SUCCESS, w)))"
proof (induction es arbitrary: p xs)
  case Nil
  then show ?case by (simp add: urc_unregister_loop.simps)
next
  case (Cons x es)
  obtain a e where x: "x = (a, e)" by (cases x)
  obtain nd n ys where n: "xs = (nd, a) # ys" "p = nd" "nd \<noteq> NULL"
      "heap w nd = Some (O_Node \<lparr>nd_data = a, nd_next = n\<rparr>)" "list_seg (heap w) n ys NULL" "map snd ys = map fst es"
    using Cons.prems(2,3) x by (cases xs) auto
  have "entries_at w es" using Cons.prems(4) x by simp
  note IH = Cons.IH [OF Cons.prems(1) n(5,6) this]
  obtain j where "ue_id e = Some j" "a \<noteq> NULL" "heap w a = Some (O_Entry e)"
    using Cons.prems(4) x by (auto simp: entry_wf_def)
  then show ?case using n(2-4) IH x Cons.prems(1) by (subst urc_unregister_loop.simps) simp
qed

lemma urc_unregister_find:
  assumes inv: "urc_inv I w es"
  shows "urc_unregister I i w =
     (case find (\<lambda>(a, e). ue_id e = Some i) es of
        None \<Rightarrow> ok (ATC_ERROR, w)
      | Some (a, e) \<Rightarrow> rbind (slist_remove I (urc_handler_list (ctx w)) a w) (\<lambda>(r, w). ok (ATC_SUCCESS, w)))"
proof -
  have I: "complete I" using inv by (simp add: urc_inv_def slist_holds_def)
  obtain l xs where "urc_handler_list (ctx w) \<noteq> NULL" "get_list (urc_handler_list (ctx w)) w = ok l"
      "list_seg (heap w) (ls_head l) xs NULL" "map snd xs = map fst es"
    using inv slist_holds_seg by (metis urc_inv_def)
  then show ?thesis using I inv urc_unregister_loop_seg [of I w "ls_head l" xs es i]
    by (simp add: urc_unregister_def urc_inv_def)
qed

lemma drop_id_split:
  assumes "urc_inv I w (es1 @ (a, e) # es2)" and "ue_id e = Some i"
  shows "drop_id i (es1 @ (a, e) # es2) = es1 @ es2"
    and "remove1 a (map fst (es1 @ (a, e) # es2)) = map fst (es1 @ es2)" and "a \<notin> fst ` set (es1 @ es2)"
proof -
  have d: "distinct (map (the \<circ> ue_id \<circ> snd) (es1 @ (a, e) # es2))" "distinct (map fst (es1 @ (a, e) # es2))"
    using assms(1) by (auto simp: urc_inv_def slist_holds_def)
  have "ue_id e' \<noteq> Some i" if "(a', e') \<in> set (es1 @ es2)" for a' e'
    using d(1) assms(2) that by force
  then have "filter (\<lambda>(a, e). ue_id e \<noteq> Some i) es1 = es1" "filter (\<lambda>(a, e). ue_id e \<noteq> Some i) es2 = es2"
    by (auto intro!: filter_True)
  then show "drop_id i (es1 @ (a, e) # es2) = es1 @ es2" using assms(2) by (simp add: drop_id_def)
  show "a \<notin> fst ` set (es1 @ es2)" using d(2) by auto
  then show "remove1 a (map fst (es1 @ (a, e) # es2)) = map fst (es1 @ es2)"
    by (auto simp: remove1_append)
qed

lemma find_first: "P y \<Longrightarrow> \<forall>x \<in> set xs. \<not> P x \<Longrightarrow> find P (xs @ y # ys) = Some y"
  by (induction xs) auto

lemma drop_id_absent: "entries_at w es \<Longrightarrow> i \<notin> ids es \<Longrightarrow> drop_id i es = es"
  by (force simp: drop_id_def entries_at_def ids_def intro!: filter_True)

lemma urc_unregister_ok:
  assumes inv: "urc_inv I w es"
  shows "\<exists>r w'. urc_unregister I i w = ok (r, w') \<and> ctx w' = ctx w \<and> trace w' = trace w \<and>
    urc_inv I w' (drop_id i es) \<and> keeps (fst ` set es) w w' \<and>
    (if i \<in> ids es
     then r = ATC_SUCCESS \<and> (\<exists>(a, e) \<in> set es. ue_id e = Some i \<and> heap w' a = None)
     else r = ATC_ERROR \<and> w' = w)"
proof (cases "i \<in> ids es")
  case False
  have es: "entries_at w es" using inv by (simp add: urc_inv_def)
  have "find (\<lambda>(a, e). ue_id e = Some i) es = None"
    using False by (force simp: find_None_iff ids_def)
  then show ?thesis using False urc_unregister_find [OF inv, of i] drop_id_absent [OF es False] inv
    by (simp add: keeps_def)
next
  case True
  have es: "entries_at w es" using inv by (simp add: urc_inv_def)
  then have "\<exists>x \<in> set es. (\<lambda>(a, e). ue_id e = Some i) x"
    using True by (force simp: ids_def entries_at_def entry_wf_def)
  then obtain x es1 es2 where x: "es = es1 @ x # es2" "(\<lambda>(a, e). ue_id e = Some i) x"
      "\<forall>y \<in> set es1. \<not> (\<lambda>(a, e). ue_id e = Some i) y"
    using split_list_first_prop [of es "\<lambda>(a, e). ue_id e = Some i"] by blast
  obtain a e where ae: "x = (a, e)" by (cases x)
  have "find (\<lambda>(a, e). ue_id e = Some i) es = Some (a, e)"
    using find_first [of "\<lambda>(a, e). ue_id e = Some i", OF x(2,3)] x(1) ae by simp
  note un = urc_unregister_find [OF inv, of i, unfolded this]
  have inv': "urc_inv I w (es1 @ (a, e) # es2)" and i: "ue_id e = Some i" using inv x ae by auto
  note sp = drop_id_split [OF inv' i]
  have h: "slist_holds I (urc_handler_list (ctx w)) w (map fst (es1 @ (a, e) # es2))"
    using inv' by (simp add: urc_inv_def)
  from slist_remove_holds [OF h, of a] obtain w' where
    w': "slist_remove I (urc_handler_list (ctx w)) a w = ok (0, w')"
      "slist_holds I (urc_handler_list (ctx w)) w' (map fst (es1 @ es2))" "heap w' a = None"
      "keeps {a} w w'" "ctx w' = ctx w" "trace w' = trace w"
    unfolding sp(2) by auto
  have "entries_at w' (es1 @ es2)"
    unfolding entries_at_def
  proof (rule ballI)
    fix y assume y: "y \<in> set (es1 @ es2)"
    obtain b f where bf: "y = (b, f)" by (cases y)
    have "b \<noteq> NULL \<and> heap w b = Some (O_Entry f) \<and> entry_wf f" using es y bf x(1) by (auto simp: entries_at_def)
    moreover have "b \<noteq> a" using sp(3) y bf by force
    ultimately show "case y of (a, e) \<Rightarrow> a \<noteq> NULL \<and> heap w' a = Some (O_Entry e) \<and> entry_wf e"
      using keepsD [OF w'(4)] bf by simp
  qed
  then have "urc_inv I w' (drop_id i es)"
    using w'(2,5) inv' x(1) ae sp(1) by (simp add: urc_inv_def)
  moreover have "keeps (fst ` set es) w w'" using w'(4) x(1) ae by (auto simp: keeps_def)
  ultimately show ?thesis using un w' True x(1) ae i
    by (intro exI [of _ ATC_SUCCESS] exI [of _ w']) auto
qed

section \<open>The contract of the table\<close>

text \<open>
  What the receive path and the API messages rely on: a table of identified entries that
  \<open>register\<close> extends under a fresh identifier, \<open>unregister\<close> shrinks, and \<open>dispatch\<close>
  consults; only \<open>dispatch\<close> makes calls.
\<close>

locale handler_table =
  fixes register :: "'e \<Rightarrow> 'w \<Rightarrow> (int \<times> 'w) res"
    and unregister :: "int \<Rightarrow> 'w \<Rightarrow> (atc_result \<times> 'w) res"
    and dispatch :: "'l \<Rightarrow> 'w \<Rightarrow> (bool \<times> 'w) res"
    and log :: "'w \<Rightarrow> event list"
    and matches :: "'l \<Rightarrow> 'e \<Rightarrow> bool"
    and calls :: "'l \<Rightarrow> 'e \<Rightarrow> event list"
    and ready :: "'e \<Rightarrow> bool" and is_line :: "'l \<Rightarrow> bool" and room :: "nat \<Rightarrow> bool"
    and holds :: "'w \<Rightarrow> (int \<times> 'e) list \<Rightarrow> bool"
  assumes distinct_ids: "holds w T \<Longrightarrow> distinct (map fst T)"
    and register_law: "holds w T \<Longrightarrow> ready e \<Longrightarrow> room (length T) \<Longrightarrow> runs (register e w)
      (\<lambda>(r, w'). log w' = log w \<and>
         (if r = -1 then holds w' T else 0 < r \<and> r \<notin> fst ` set T \<and> holds w' (T @ [(r, e)])))"
    and unregister_law: "holds w T \<Longrightarrow> runs (unregister i w)
      (\<lambda>(r, w'). log w' = log w \<and> (if i \<in> fst ` set T then r = ATC_SUCCESS else r = ATC_ERROR) \<and>
         holds w' (filter (\<lambda>(j, e). j \<noteq> i) T))"
    and dispatch_law: "holds w T \<Longrightarrow> is_line l \<Longrightarrow> runs (dispatch l w)
      (\<lambda>(b, w'). b = (\<exists>(j, e) \<in> set T. matches l e) \<and> holds w' T \<and>
         log w' = log w @ concat (map (\<lambda>(j, e). if matches l e then calls l e else []) T))"
begin

text \<open>A registered handler is served after the older ones.\<close>

lemma register_serves:
  assumes "holds w T" "ready e" "room (length T)" "is_line l" "matches l e"
  shows "runs (register e w) (\<lambda>(r, w1). r \<noteq> -1 \<longrightarrow> runs (dispatch l w1) (\<lambda>(b, w2). b \<and>
    log w2 = log w @ concat (map (\<lambda>(j, e). if matches l e then calls l e else []) T) @ calls l e))"
proof (rule runs_mono [OF register_law [OF assms(1-3)]], clarsimp)
  fix r w1 assume "log w1 = log w" "holds w1 (T @ [(r, e)])"
  then show "runs (dispatch l w1) (\<lambda>(b, w2). b \<and>
    log w2 = log w @ concat (map (\<lambda>(j, e). if matches l e then calls l e else []) T) @ calls l e)"
    using assms(5) by (intro runs_mono [OF dispatch_law [OF _ assms(4)]]) auto
qed

text \<open>Registering and removing again restores the table.\<close>

lemma register_unregister:
  assumes "holds w T" "ready e" "room (length T)"
  shows "runs (register e w) (\<lambda>(r, w1). r \<noteq> -1 \<longrightarrow>
    runs (unregister r w1) (\<lambda>(q, w2). q = ATC_SUCCESS \<and> holds w2 T \<and> log w2 = log w))"
proof (rule runs_mono [OF register_law [OF assms]], clarsimp)
  fix r w1 assume r: "log w1 = log w" "holds w1 (T @ [(r, e)])" "r \<notin> fst ` set T"
  have "filter (\<lambda>(j, e). j \<noteq> r) (T @ [(r, e)]) = T"
    using r(3) by (force intro!: filter_True)
  then show "runs (unregister r w1) (\<lambda>(q, w2). q = ATC_SUCCESS \<and> holds w2 T \<and> log w2 = log w)"
    using r(1) by (intro runs_mono [OF unregister_law [OF r(2)]]) auto
qed

text \<open>A removed handler is gone: not served any more, and not found a second time.\<close>

lemma unregister_silences:
  assumes "holds w T" "is_line l"
  shows "runs (unregister i w) (\<lambda>(r, w1).
    runs (unregister i w1) (\<lambda>(q, w2). q = ATC_ERROR) \<and>
    runs (dispatch l w1) (\<lambda>(b, w2). b = (\<exists>(j, e) \<in> set T. j \<noteq> i \<and> matches l e) \<and>
      log w2 = log w @ concat (map (\<lambda>(j, e). if j \<noteq> i \<and> matches l e then calls l e else []) T)))"
proof (rule runs_mono [OF unregister_law [OF assms(1), of i]], clarsimp, rule conjI)
  fix r w1 assume w1: "holds w1 (filter (\<lambda>(j, e). j \<noteq> i) T)" "log w1 = log w"
  show "runs (unregister i w1) (\<lambda>(q, w2). q = ATC_ERROR)"
    by (rule runs_mono [OF unregister_law [OF w1(1), of i]]) (force split: if_splits)
  have "concat (map (\<lambda>(j, e). if matches l e then calls l e else []) (filter (\<lambda>(j, e). j \<noteq> i) T)) =
      concat (map (\<lambda>(j, e). if j \<noteq> i \<and> matches l e then calls l e else []) T)"
    by (induction T) auto
  then show "runs (dispatch l w1) (\<lambda>(b, w2). b = (\<exists>(j, e) \<in> set T. j \<noteq> i \<and> matches l e) \<and>
      log w2 = log w @ concat (map (\<lambda>(j, e). if j \<noteq> i \<and> matches l e then calls l e else []) T))"
    using w1(2) by (intro runs_mono [OF dispatch_law [OF w1(1) assms(2)]]) auto
qed

end

text \<open>The model's table: identifiers paired with entries whose own \<open>id\<close> is left open.\<close>

definition abs_table :: "urc_table \<Rightarrow> (int \<times> urc_handler_entry) list" where
  "abs_table es = map (\<lambda>(a, e). (the (ue_id e), e\<lparr>ue_id := None\<rparr>)) es"

definition urc_holds :: "'os atc_interface \<Rightarrow> 'os world \<Rightarrow> (int \<times> urc_handler_entry) list \<Rightarrow> bool" where
  "urc_holds I w T \<longleftrightarrow> (\<exists>es. urc_inv I w es \<and> T = abs_table es)"

definition urc_ready :: "urc_handler_entry \<Rightarrow> bool" where
  "urc_ready e \<longleftrightarrow> ue_id e = None \<and> 0 \<in> set (ue_prefix e)"

definition urc_call :: "u8 list \<Rightarrow> urc_handler_entry \<Rightarrow> event list" where
  "urc_call line e = (if ue_handler e \<noteq> NULL then [Ev_Urc (ue_handler e) (cstr line)] else [])"

lemma abs_table_simps [simp]:
  "abs_table [] = []" "abs_table ((a, e) # es) = (the (ue_id e), e\<lparr>ue_id := None\<rparr>) # abs_table es"
  "abs_table (es @ es') = abs_table es @ abs_table es'" "length (abs_table es) = length es"
  by (simp_all add: abs_table_def)

lemma fst_abs_table: "map fst (abs_table es) = map (the \<circ> ue_id \<circ> snd) es" "fst ` set (abs_table es) = ids es"
  by (force simp: abs_table_def ids_def)+

lemma abs_table_calls:
  "urc_calls line es = concat (map (\<lambda>(j, e). if urc_match line e then urc_call line e else []) (abs_table es))"
  by (induction es) (auto simp: urc_calls_def urc_call_def urc_match_def)

lemma abs_table_match: "(\<exists>(a, e) \<in> set es. urc_match line e) = (\<exists>(j, e) \<in> set (abs_table es). urc_match line e)"
  by (induction es) (auto simp: urc_match_def)

lemma abs_table_drop:
  "entries_at w es \<Longrightarrow> abs_table (drop_id i es) = filter (\<lambda>(j, e). j \<noteq> i) (abs_table es)"
  by (induction es) (auto simp: drop_id_def entry_wf_def)

interpretation urc_api: handler_table "\<lambda>e. urc_register I (Some e)" "urc_unregister I"
    "\<lambda>l. urc_line_handle I (Some l)" trace urc_match urc_call urc_ready "\<lambda>l. 0 \<in> set l"
    "\<lambda>n. int n < INT_MAX" "urc_holds I"
  for I :: "'os atc_interface"
proof unfold_locales
  fix w :: "'os world" and T e i l
  assume "urc_holds I w T"
  then obtain es where es: "urc_inv I w es" "T = abs_table es" by (auto simp: urc_holds_def)
  have at: "entries_at w es" using es(1) by (simp add: urc_inv_def)
  show "distinct (map fst T)" using es by (simp add: fst_abs_table urc_inv_def)
  show "runs (urc_register I (Some e) w) (\<lambda>(r, w'). trace w' = trace w \<and>
      (if r = -1 then urc_holds I w' T else 0 < r \<and> r \<notin> fst ` set T \<and> urc_holds I w' (T @ [(r, e)])))"
    if "urc_ready e" "int (length T) < INT_MAX"
  proof -
    have e: "0 \<in> set (ue_prefix e)" "int (length es) < INT_MAX" using that es(2) by (auto simp: urc_ready_def)
    have abs: "T @ [(r, e)] = abs_table (es @ [(a, e\<lparr>ue_id := Some r\<rparr>)])" for a r
      using that es(2) by (simp add: urc_ready_def)
    obtain r w' where r: "urc_register I (Some e) w = ok (r, w')" "trace w' = trace w"
        "if r = -1 then urc_inv I w' es
         else 1 \<le> r \<and> r \<notin> ids es \<and> (\<exists>a. urc_inv I w' (es @ [(a, e\<lparr>ue_id := Some r\<rparr>)]))"
      using urc_register_ok [OF es(1) e] by (metis (lifting))
    have "if r = -1 then urc_holds I w' T else 0 < r \<and> r \<notin> ids es \<and> urc_holds I w' (T @ [(r, e)])"
    proof (cases "r = -1")
      case True
      then show ?thesis using r(3) es(2) by (auto simp: urc_holds_def)
    next
      case False
      then obtain a where a: "1 \<le> r" "r \<notin> ids es" "urc_inv I w' (es @ [(a, e\<lparr>ue_id := Some r\<rparr>)])"
        using r(3) by auto
      then have "urc_holds I w' (T @ [(r, e)])" unfolding urc_holds_def using abs by blast
      then show ?thesis using False a by simp
    qed
    then show ?thesis using r(1,2) es(2) by (auto simp: fst_abs_table split: if_splits)
  qed
  show "runs (urc_unregister I i w) (\<lambda>(r, w'). trace w' = trace w \<and>
      (if i \<in> fst ` set T then r = ATC_SUCCESS else r = ATC_ERROR) \<and>
      urc_holds I w' (filter (\<lambda>(j, e). j \<noteq> i) T))"
    using urc_unregister_ok [OF es(1), of i] es abs_table_drop [OF at, of i]
    by (auto simp: runs_iff urc_holds_def fst_abs_table) (metis)+
  show "runs (urc_line_handle I (Some l) w) (\<lambda>(b, w'). b = (\<exists>(j, e) \<in> set T. urc_match l e) \<and>
      urc_holds I w' T \<and>
      trace w' = trace w @ concat (map (\<lambda>(j, e). if urc_match l e then urc_call l e else []) T))"
    if "0 \<in> set l"
    using urc_line_handle_ok [OF es(1) that] urc_inv_stable [OF es(1) links_kept_heap, of "emits _ w"] es
    by (auto simp: urc_holds_def abs_table_calls abs_table_match)
qed

section \<open>Properties\<close>

text \<open>Two entries under the identifiers 1 and 2, and a counter that has come round to 1.\<close>

definition demo_urc_world :: "platform world" where
  "demo_urc_world = upd_ctx (\<lambda>c. c\<lparr>urc_handler_list := 10, urc_next_id := 1\<rparr>) demo_list_world"

definition demo_table :: urc_table where
  "demo_table = [(30, demo_entry 1), (31, demo_entry 2)]"

lemma demo_urc_inv: "urc_inv platform_interface demo_urc_world demo_table"
proof -
  have "slist_rep demo_urc_world 10 (Some Urc_Free) [(20, 30), (21, 31)]"
    using demo_list_rep by (simp add: slist_rep_def demo_urc_world_def)
  then have "slist_holds platform_interface 10 demo_urc_world [30, 31]"
    unfolding slist_holds_def
    by (auto simp: entry_ready_def demo_urc_world_def demo_list_world_def intro!: exI [of _ "[(20, 30), (21, 31)]"])
  then show ?thesis
    by (simp add: urc_inv_def demo_table_def entries_at_def demo_urc_world_def demo_list_world_def
        entry_wf_def demo_entry_def INT_MAX_def)
qed

text \<open>Both identifiers are taken, so the search goes on to 3.\<close>

lemma demo_urc_registers: "\<exists>w'. urc_register platform_interface (Some (demo_entry 9)) demo_urc_world = ok (3, w')"
proof -
  have "slist_holds platform_interface 10 demo_urc_world (map fst demo_table)" "entries_at demo_urc_world demo_table"
    "ids demo_table = {1, 2}"
    using demo_urc_inv by (simp_all add: urc_inv_def demo_urc_world_def ids_def demo_table_def demo_entry_def)
  moreover have "length demo_table = 2" by (simp add: demo_table_def)
  ultimately obtain k where "k \<le> 2" "alloc_id 10 1 demo_urc_world = ok ((next_candidate ^^ k) 1)"
      "(next_candidate ^^ k) 1 \<notin> {1, 2}"
    using alloc_id_ok [of platform_interface 10 demo_urc_world demo_table 1] by (auto simp: INT_MAX_def)
  then have a: "alloc_id 10 1 demo_urc_world = ok 3"
    by (cases "k = 0"; cases "k = 1"; cases "k = 2") (simp_all add: next_candidate_def INT_MAX_def numeral_2_eq_2)
  have c: "urc_handler_list (ctx demo_urc_world) = 10" "urc_next_id (ctx demo_urc_world) = 1" by (simp_all add: demo_urc_world_def)
  have p: "complete platform_interface" "0 \<in> set (ue_prefix (demo_entry 9))" by (simp_all add: demo_entry_def)
  show ?thesis using a p
    by (simp add: urc_register_def c INT_MAX_def)
      (simp add: sample_run slist_append_def slist_new_node_def platform_start_def demo_urc_world_def
        demo_list_world_def platform_world_def)
qed

lemma demo_urc_holds: "urc_holds platform_interface demo_urc_world (abs_table demo_table)"
  using demo_urc_inv by (auto simp: urc_holds_def)

text \<open>
  C19: A received line is dispatched to every registered handler whose prefix it starts with,
  in the order of registration, each exactly once with the line as argument; the result says
  whether there was one.  Dispatch changes nothing else.
\<close>

theorem urc_dispatch_all:
  assumes "urc_inv I w es" and "0 \<in> set line"
  shows "urc_line_handle I (Some line) w =
    ok (\<exists>(a, e) \<in> set es. prefix (cstr (ue_prefix e)) (cstr line),
        w\<lparr>trace := trace w @ [Ev_Urc (ue_handler e) (cstr line).
            (a, e) \<leftarrow> es, prefix (cstr (ue_prefix e)) (cstr line) \<and> ue_handler e \<noteq> NULL]\<rparr>)"
  using urc_line_handle_ok [OF assms] unfolding urc_match_def urc_calls_def emits_def .

theorem urc_dispatch_all_witness:
  "urc_line_handle platform_interface (Some [43, 67, 13, 10, 0]) demo_urc_world =
     ok (True, demo_urc_world\<lparr>trace := [Ev_Urc 7 [43, 67, 13, 10], Ev_Urc 7 [43, 67, 13, 10]]\<rparr>)"
  using urc_dispatch_all [OF demo_urc_inv, of "[43, 67, 13, 10, 0]"]
  by (simp add: demo_table_def demo_entry_def cstr_def demo_urc_world_def demo_list_world_def platform_world_def)

text \<open>
  C18: The identifier search ends, even when the counter has wrapped: with fewer than
  \<open>INT_MAX\<close> entries it needs at most as many steps as there are entries, and returns the
  first identifier, counting cyclically from the start, that no entry has.
\<close>

theorem urc_id_alloc_terminates:
  assumes "urc_inv I w es" and "int (length es) < INT_MAX" and "1 \<le> c" and "c \<le> INT_MAX"
  shows "\<exists>k \<le> length es. let i = (c - 1 + int k) mod INT_MAX + 1 in
    alloc_id (urc_handler_list (ctx w)) c w = ok i \<and> i \<notin> ids es \<and> 1 \<le> i \<and> i \<le> INT_MAX \<and>
    (\<forall>j < k. (c - 1 + int j) mod INT_MAX + 1 \<in> ids es)"
proof -
  have h: "slist_holds I (urc_handler_list (ctx w)) w (map fst es)" "entries_at w es"
    using assms(1) by (auto simp: urc_inv_def)
  show ?thesis using alloc_id_ok [OF h assms(3,4,2)] next_candidate_range [OF assms(3,4)]
    unfolding next_candidate_iter [OF assms(3,4)] Let_def by blast
qed

theorem urc_id_alloc_terminates_witness:
  "alloc_id 10 1 demo_urc_world = ok 3"
proof -
  have "ids demo_table = {1, 2}" by (simp add: ids_def demo_table_def demo_entry_def)
  moreover have "urc_handler_list (ctx demo_urc_world) = 10" by (simp add: demo_urc_world_def)
  moreover have "length demo_table = 2" by (simp add: demo_table_def)
  ultimately obtain k where "k \<le> 2" "alloc_id 10 1 demo_urc_world = ok (int k mod INT_MAX + 1)"
      "int k mod INT_MAX + 1 \<notin> {1, 2}"
    using urc_id_alloc_terminates [OF demo_urc_inv, of 1] by (auto simp: INT_MAX_def Let_def)
  then show ?thesis by (cases "k = 0"; cases "k = 1"; cases "k = 2") (simp_all add: INT_MAX_def)
qed

text \<open>
  C22: Registration returns a positive identifier no live entry has and appends the entry under
  it, in a new cell and with one new node of the list; those two cells are all it allocates and,
  the list's own cells apart, all it writes.  It returns \<open>-1\<close> only when the platform refused
  memory for the entry or for the node, and then the heap is what it was, so that the entry, if
  there was one, is freed again.  In the context only the next identifier changes: it has moved on
  even after a failure.
\<close>

theorem urc_register_fresh:
  assumes "urc_inv I w es" and "0 \<in> set (ue_prefix e)" and "int (length es) < INT_MAX"
  shows "\<exists>r w' i. urc_register I (Some e) w = ok (r, w') \<and> trace w' = trace w \<and>
    ctx w' = (ctx w)\<lparr>urc_next_id := i\<rparr> \<and> 1 \<le> i \<and> i \<le> INT_MAX \<and>
    (if r = -1 then heap w' = heap w \<and> register_refused I w \<and> urc_inv I w' es
     else 1 \<le> r \<and> r \<le> INT_MAX \<and> r \<notin> ids es \<and> i = (if r < INT_MAX then r + 1 else 1) \<and>
       (\<exists>a. entry_added (urc_handler_list (ctx w)) a (e\<lparr>ue_id := Some r\<rparr>) w w' \<and>
          urc_inv I w' (es @ [(a, e\<lparr>ue_id := Some r\<rparr>)])))"
  by (rule urc_register_exact [OF assms])

theorem urc_register_fresh_witness:
  "\<exists>w' a. urc_register platform_interface (Some (demo_entry 9)) demo_urc_world = ok (3, w') \<and> urc_next_id (ctx w') = 4 \<and>
     heap demo_urc_world a = None \<and> urc_inv platform_interface w' (demo_table @ [(a, demo_entry 3)])"
  using demo_urc_registers urc_register_fresh [OF demo_urc_inv, of "demo_entry 9"]
  by (auto simp: demo_entry_def demo_table_def INT_MAX_def entry_added_def demo_urc_world_def)

text \<open>
  C23: Removal by identifier takes out exactly the entry with that identifier and frees it,
  and reports \<open>ATC_ERROR\<close> without any change when there is none.
\<close>

theorem urc_unregister_exact:
  assumes "urc_inv I w es"
  shows "\<exists>r w'. urc_unregister I i w = ok (r, w') \<and>
    urc_inv I w' (filter (\<lambda>(a, e). ue_id e \<noteq> Some i) es) \<and> trace w' = trace w \<and>
    (if i \<in> ids es
     then r = ATC_SUCCESS \<and> (\<exists>(a, e) \<in> set es. ue_id e = Some i \<and> heap w' a = None)
     else r = ATC_ERROR \<and> w' = w)"
  using urc_unregister_ok [OF assms, of i] unfolding drop_id_def by blast

theorem urc_unregister_exact_witness:
  "\<exists>w'. urc_unregister platform_interface 1 demo_urc_world = ok (ATC_SUCCESS, w') \<and>
     urc_inv platform_interface w' [(31, demo_entry 2)]"
  using urc_unregister_exact [OF demo_urc_inv, of 1]
  by (auto simp: demo_table_def demo_entry_def ids_def)

text \<open>
  C24: From registration to removal a handler is served: once \<open>_atc_urc_register\<close> returned
  an identifier, a line with the prefix reaches the new handler after the older ones.
\<close>

theorem urc_register_then_served:
  assumes "urc_holds I w T" and "urc_ready e" and "int (length T) < INT_MAX" and "0 \<in> set line"
    and "prefix (cstr (ue_prefix e)) (cstr line)" and "ue_handler e \<noteq> NULL"
  shows "runs (urc_register I (Some e) w) (\<lambda>(r, w1). r \<noteq> -1 \<longrightarrow> runs (urc_line_handle I (Some line) w1)
    (\<lambda>(b, w2). b \<and> (\<exists>old. trace w2 = trace w @ old @ [Ev_Urc (ue_handler e) (cstr line)])))"
  using urc_api.register_serves [OF assms(1-4)] assms(5,6)
  by (fastforce simp: urc_match_def urc_call_def elim!: runs_mono)

theorem urc_register_then_served_witness:
  "runs (urc_register platform_interface (Some ((demo_entry 9)\<lparr>ue_id := None\<rparr>)) demo_urc_world)
    (\<lambda>(r, w1). r \<noteq> -1 \<longrightarrow> runs (urc_line_handle platform_interface (Some [43, 67, 13, 10, 0]) w1)
      (\<lambda>(b, w2). b \<and> (\<exists>old. trace w2 = trace demo_urc_world @ old @ [Ev_Urc 7 [43, 67, 13, 10]])))"
  using urc_register_then_served [OF demo_urc_holds, of "(demo_entry 9)\<lparr>ue_id := None\<rparr>" "[43, 67, 13, 10, 0]"]
  by (simp add: urc_ready_def demo_entry_def demo_table_def INT_MAX_def cstr_def)

text \<open>
  C25: A removed handler is never served again and cannot be removed twice; the other
  handlers are served as before.
\<close>

theorem urc_unregister_silences:
  assumes "urc_holds I w T" and "0 \<in> set line"
  shows "runs (urc_unregister I i w) (\<lambda>(r, w1).
    runs (urc_unregister I i w1) (\<lambda>(q, w2). q = ATC_ERROR) \<and>
    runs (urc_line_handle I (Some line) w1) (\<lambda>(b, w2). trace w2 = trace w @
      [Ev_Urc (ue_handler e) (cstr line). (j, e) \<leftarrow> T,
         j \<noteq> i \<and> prefix (cstr (ue_prefix e)) (cstr line) \<and> ue_handler e \<noteq> NULL]))"
proof -
  have "concat (map (\<lambda>(j, e). if j \<noteq> i \<and> urc_match line e then urc_call line e else []) T) =
      [Ev_Urc (ue_handler e) (cstr line). (j, e) \<leftarrow> T,
         j \<noteq> i \<and> prefix (cstr (ue_prefix e)) (cstr line) \<and> ue_handler e \<noteq> NULL]"
    by (induction T) (auto simp: urc_match_def urc_call_def)
  then show ?thesis using urc_api.unregister_silences [OF assms, of i]
    by (fastforce elim!: runs_mono)
qed

theorem urc_unregister_silences_witness:
  "runs (urc_unregister platform_interface 1 demo_urc_world) (\<lambda>(r, w1).
    runs (urc_line_handle platform_interface (Some [43, 67, 13, 10, 0]) w1)
      (\<lambda>(b, w2). trace w2 = trace demo_urc_world @ [Ev_Urc 7 [43, 67, 13, 10]]))"
  using urc_unregister_silences [OF demo_urc_holds, of "[43, 67, 13, 10, 0]" 1]
  by (simp add: demo_entry_def demo_table_def cstr_def runs_iff) blast

end
