(* ===== verification/OS_Contract.thy ===== *)
theory OS_Contract
  imports ATC_Interface
begin

text \<open>
  What the program relies on from the functions the application injects, beyond \<open>malloc\<close>:
  the message queues are FIFO queues that nothing but \<open>atc_queue_send\<close> and
  \<open>atc_queue_recv\<close> changes.  \<open>Q q s\<close> is the contents of queue \<open>q\<close> in the state \<open>s\<close>
  behind the interface.
\<close>

section \<open>Relations on the state behind the interface\<close>

text \<open>\<open>os_keeps R I\<close>: every call but those on queues goes from a state to an \<open>R\<close>-related one.\<close>

definition os_keeps :: "('os \<Rightarrow> 'os \<Rightarrow> bool) \<Rightarrow> 'os atc_interface \<Rightarrow> bool" where
  "os_keeps R I \<longleftrightarrow>
     (\<forall>f n h s. atc_malloc I = Some f \<longrightarrow> R s (snd (f n h s))) \<and>
     (\<forall>f p s. atc_free I = Some f \<longrightarrow> R s (f p s)) \<and>
     (\<forall>f d n s. atc_send I = Some f \<longrightarrow> R s (snd (f d n s))) \<and>
     (\<forall>f s. atc_semaphore_create_binary I = Some f \<longrightarrow> R s (snd (f s))) \<and>
     (\<forall>f p t s. atc_semaphore_take I = Some f \<longrightarrow> R s (snd (f p t s))) \<and>
     (\<forall>f p h s. atc_semaphore_give I = Some f \<longrightarrow> R s (snd (f p h s))) \<and>
     (\<forall>f p s. atc_semaphore_delete I = Some f \<longrightarrow> R s (f p s)) \<and>
     (\<forall>f p s. atc_semaphore_give_isr I = Some f \<longrightarrow> R s (snd (f p s))) \<and>
     (\<forall>f s. atc_get_tick_ms I = Some f \<longrightarrow> R s (snd (f s))) \<and>
     reflp R \<and> transp R"

lemma os_malloc_keeps: "os_keeps R I \<Longrightarrow> os_malloc I n w = ok (a, w') \<Longrightarrow> R (os w) (os w')"
  by (auto simp: os_keeps_def os_malloc_def call_def split: option.splits prod.splits) (metis snd_conv)

lemma os_free_keeps: "os_keeps R I \<Longrightarrow> os_free I p w = ok w' \<Longrightarrow> R (os w) (os w')"
  by (auto simp: os_keeps_def os_free_def call_def split: option.splits if_splits)

lemma os_send_keeps: "os_keeps R I \<Longrightarrow> os_send I d n w = ok (r, w') \<Longrightarrow> R (os w) (os w')"
  by (auto simp: os_keeps_def os_send_def call_def split: option.splits prod.splits) (metis snd_conv)

lemma os_sem_create_keeps: "os_keeps R I \<Longrightarrow> os_sem_create I w = ok (a, w') \<Longrightarrow> R (os w) (os w')"
  by (auto simp: os_keeps_def os_sem_create_def call_def split: option.splits prod.splits) (metis snd_conv)

lemma os_sem_take_keeps: "os_keeps R I \<Longrightarrow> os_sem_take I p t w = ok (r, w') \<Longrightarrow> R (os w) (os w')"
  by (auto simp: os_keeps_def os_sem_take_def call_def split: option.splits prod.splits) (metis snd_conv)

lemma os_sem_give_keeps: "os_keeps R I \<Longrightarrow> os_sem_give I p w = ok w' \<Longrightarrow> R (os w) (os w')"
  by (auto simp: os_keeps_def os_sem_give_def call_def split: option.splits prod.splits) (metis snd_conv)

lemma os_sem_delete_keeps: "os_keeps R I \<Longrightarrow> os_sem_delete I p w = ok w' \<Longrightarrow> R (os w) (os w')"
  by (auto simp: os_keeps_def os_sem_delete_def call_def split: option.splits)

lemma atc_time_get_keeps: "os_keeps R I \<Longrightarrow> atc_time_get I w = ok (t, w') \<Longrightarrow> R (os w) (os w')"
  by (auto simp: os_keeps_def atc_time_get_def call_def split: option.splits prod.splits) (metis snd_conv)

lemmas os_calls_keep = os_malloc_keeps os_free_keeps os_send_keeps os_sem_create_keeps os_sem_take_keeps
  os_sem_give_keeps os_sem_delete_keeps atc_time_get_keeps

lemma os_keeps_refl: "os_keeps R I \<Longrightarrow> R s s"
  by (simp add: os_keeps_def reflp_def)

lemma os_keeps_trans: "os_keeps R I \<Longrightarrow> R s t \<Longrightarrow> R t u \<Longrightarrow> R s u"
  unfolding os_keeps_def transp_def by blast

section \<open>Relations kept by whole functions\<close>

text \<open>
  \<open>within R s m\<close>: if \<open>m\<close> returns a world, the state behind its interface is \<open>R\<close>-related
  to \<open>s\<close>; \<open>withinp\<close> is the same for calls that return a value and a world.  The rules
  follow the structure of a function.
\<close>

definition within :: "('os \<Rightarrow> 'os \<Rightarrow> bool) \<Rightarrow> 'os \<Rightarrow> 'os world res \<Rightarrow> bool" where
  "within R s m \<longleftrightarrow> (\<forall>w. m = ok w \<longrightarrow> R s (os w))"

definition withinp :: "('os \<Rightarrow> 'os \<Rightarrow> bool) \<Rightarrow> 'os \<Rightarrow> ('a \<times> 'os world) res \<Rightarrow> bool" where
  "withinp R s m \<longleftrightarrow> (\<forall>x w. m = ok (x, w) \<longrightarrow> R s (os w))"

lemma within_intros:
  "R s (os w) \<Longrightarrow> within R s (ok w)"
  "within R s m \<Longrightarrow> (\<And>v. R s (os v) \<Longrightarrow> within R s (f v)) \<Longrightarrow> within R s (rbind m f)"
  "(\<And>x. within R s (g x)) \<Longrightarrow> within R s (rbind n g)"
  "(b \<Longrightarrow> within R s m) \<Longrightarrow> (\<not> b \<Longrightarrow> within R s m') \<Longrightarrow> within R s (if b then m else m')"
  by (auto simp: within_def rbind_eq_ok)

lemma withinp_intros:
  "R s (os w) \<Longrightarrow> withinp R s (ok (x, w))"
  "within R s m \<Longrightarrow> (\<And>v. R s (os v) \<Longrightarrow> withinp R s (f v)) \<Longrightarrow> withinp R s (rbind m f)"
  "withinp R s p \<Longrightarrow> (\<And>x v. R s (os v) \<Longrightarrow> withinp R s (h x v)) \<Longrightarrow> withinp R s (rbind p (\<lambda>(x, v). h x v))"
  "(\<And>x. withinp R s (g x)) \<Longrightarrow> withinp R s (rbind n g)"
  "(b \<Longrightarrow> withinp R s q) \<Longrightarrow> (\<not> b \<Longrightarrow> withinp R s q') \<Longrightarrow> withinp R s (if b then q else q')"
  by (auto simp: within_def withinp_def rbind_eq_ok split: prod.splits)

lemma within_pair: 
  "withinp R s p \<Longrightarrow> (\<And>x v. R s (os v) \<Longrightarrow> within R s (h x v)) \<Longrightarrow> within R s (rbind p (\<lambda>(x, v). h x v))"
  by (auto simp: within_def withinp_def rbind_eq_ok split: prod.splits)

lemma within_option:
  "(x = None \<Longrightarrow> within R s m) \<Longrightarrow> (\<And>y. x = Some y \<Longrightarrow> within R s (f y)) \<Longrightarrow>
    within R s (case x of None \<Rightarrow> m | Some y \<Rightarrow> f y)"
  by (cases x) simp_all

lemma within_store: "R s (os w) \<Longrightarrow> within R s (store_as sel p x w)"
  by (auto simp: within_def store_as_def rbind_eq_ok)

lemma within_give: "os_keeps R I \<Longrightarrow> R s (os w) \<Longrightarrow> within R s (os_sem_give I p w)"
  using os_sem_give_keeps os_keeps_trans unfolding within_def by metis

lemma within_free: "os_keeps R I \<Longrightarrow> R s (os w) \<Longrightarrow> within R s (os_free I p w)"
  using os_free_keeps os_keeps_trans unfolding within_def by metis

lemma withinp_malloc: "os_keeps R I \<Longrightarrow> R s (os w) \<Longrightarrow> withinp R s (os_malloc I n w)"
  using os_malloc_keeps os_keeps_trans unfolding withinp_def by metis

text \<open>The collection: pairs before plain sequences, so that the world a call returns is followed.\<close>

lemmas within_rules [within_os] = within_pair withinp_intros(3) within_intros(2) withinp_intros(2) within_intros(3,4)
  withinp_intros(4,5) within_intros(1) withinp_intros(1) within_option withinp_malloc within_free within_give within_store

section \<open>Queues\<close>

definition same_queues :: "(addr \<Rightarrow> 'os \<Rightarrow> qitem list) \<Rightarrow> 'os \<Rightarrow> 'os \<Rightarrow> bool" where
  "same_queues Q s s' \<longleftrightarrow> (\<forall>q. Q q s' = Q q s)"

definition queue_contract :: "'os atc_interface \<Rightarrow> (addr \<Rightarrow> 'os \<Rightarrow> qitem list) \<Rightarrow> bool" where
  "queue_contract I Q \<longleftrightarrow> os_keeps (same_queues Q) I \<and>
     (\<forall>f q x t s r s'. atc_queue_send I = Some f \<longrightarrow> f q x t s = (r, s') \<longrightarrow>
        (\<forall>q'. Q q' s' = (if r = 0 \<and> q' = q then Q q s @ [x] else Q q' s))) \<and>
     (\<forall>f q t s y s'. atc_queue_recv I = Some f \<longrightarrow> f q t s = (y, s') \<longrightarrow>
        (case y of
           None \<Rightarrow> Q q s = [] \<and> same_queues Q s s'
         | Some x \<Rightarrow> Q q s = x # Q q s' \<and> (\<forall>q'. q' \<noteq> q \<longrightarrow> Q q' s' = Q q' s)))"

lemma queue_contract_keeps: "queue_contract I Q \<Longrightarrow> os_keeps (same_queues Q) I"
  by (simp add: queue_contract_def)

lemma queue_send_law:
  assumes "complete I" and "queue_contract I Q"
  shows "\<exists>r s. os_queue_send I q x t w = ok (r, w\<lparr>os := s\<rparr>) \<and>
    (\<forall>q'. Q q' s = (if r = 0 \<and> q' = q then Q q (os w) @ [x] else Q q' (os w)))"
proof -
  obtain f where f: "atc_queue_send I = Some f" using assms(1) by (auto simp: complete_def)
  obtain r s where r: "f q x t (os w) = (r, s)" by (cases "f q x t (os w)")
  have "os_queue_send I q x t w = ok (r, w\<lparr>os := s\<rparr>)" using f r by (simp add: os_queue_send_def)
  moreover have "Q q' s = (if r = 0 \<and> q' = q then Q q (os w) @ [x] else Q q' (os w))" for q'
    using assms(2) f r unfolding queue_contract_def by blast
  ultimately show ?thesis by blast
qed

lemma queue_recv_law:
  assumes "complete I" and "queue_contract I Q"
  shows "\<exists>s. os_queue_recv I q t w = ok (case Q q (os w) of [] \<Rightarrow> None | x # xs \<Rightarrow> Some x, w\<lparr>os := s\<rparr>) \<and>
    (\<forall>q'. Q q' s = (if q' = q then tl (Q q (os w)) else Q q' (os w)))"
proof -
  obtain f where f: "atc_queue_recv I = Some f" using assms(1) by (auto simp: complete_def)
  obtain y s where y: "f q t (os w) = (y, s)" by (cases "f q t (os w)")
  have run: "os_queue_recv I q t w = ok (y, w\<lparr>os := s\<rparr>)" using f y by (simp add: os_queue_recv_def)
  have law: "case y of None \<Rightarrow> Q q (os w) = [] \<and> same_queues Q (os w) s
      | Some x \<Rightarrow> Q q (os w) = x # Q q s \<and> (\<forall>q'. q' \<noteq> q \<longrightarrow> Q q' s = Q q' (os w))"
    using assms(2) f y unfolding queue_contract_def by blast
  show ?thesis
  proof (cases y)
    case None
    then have "Q q (os w) = []" "\<forall>q'. Q q' s = Q q' (os w)" using law by (auto simp: same_queues_def)
    then show ?thesis using run None by (intro exI [of _ s]) simp
  next
    case (Some x)
    then have "Q q (os w) = x # Q q s" "\<forall>q'. q' \<noteq> q \<longrightarrow> Q q' s = Q q' (os w)" using law by auto
    then show ?thesis using run Some by (intro exI [of _ s]) auto
  qed
qed

text \<open>The sample platform keeps the contract.\<close>

lemma platform_queues: "queue_contract platform_interface (\<lambda>q s. pl_queues s q)"
  by (auto simp: queue_contract_def os_keeps_def same_queues_def platform_interface_def pl_malloc_def
      pl_queue_send_def pl_queue_recv_def reflp_def transp_def split: if_splits list.splits)

end
