(* ===== verification/Command_End.thy ===== *)
theory Command_End
  imports Stack Urc_Handle OS_Contract
begin

text \<open>
  The end of a command: the response buffer, the response handlers and
  \<open>command_end_handle\<close> of \<open>recv_data_handle.c\<close>, with \<open>sync_response_handler\<close> of
  \<open>send_msg_handle.c\<close>, which it calls through the task's function pointer.
\<close>

section \<open>Operations\<close>

abbreviation get_task where "get_task \<equiv> load sel_task"
abbreviation get_bytes where "get_bytes \<equiv> load sel_bytes"

text \<open>
  The handler of blocked senders: result and response are copied to the caller's variables,
  at most as many bytes as the caller offered, and the caller is woken.
\<close>

definition sync_response_handler ::
  "'os atc_interface \<Rightarrow> atc_result \<Rightarrow> u8 list \<Rightarrow> size_t \<Rightarrow> 'os world \<Rightarrow> 'os world res" where
  "sync_response_handler I result resp resp_len w =
     rbind (get_task (current_send_task (ctx w)) w) (\<lambda>t.
     rbind (if tk_sync_send_result t \<noteq> NULL
            then store_as sel_result (tk_sync_send_result t) (O_Result result) w else ok w) (\<lambda>w.
     rbind (if resp_len > 0 \<and> tk_sync_response_buf t \<noteq> NULL \<and> tk_sync_response_length t \<noteq> NULL
            then rbind (load sel_size (tk_sync_response_length t) w) (\<lambda>n.
                 let copy_length = (if resp_len < n then resp_len else n) in
                 rbind (mem_read resp (unat copy_length)) (\<lambda>bs.
                 rbind (load sel_buf (tk_sync_response_buf t) w) (\<lambda>buf.
                 rbind (mem_write buf 0 bs) (\<lambda>buf'.
                 store_as sel_size (tk_sync_response_length t) (O_Size copy_length)
                   (put (tk_sync_response_buf t) (O_Buf buf') w)))))
            else ok w) (\<lambda>w.
     if tk_semaphore t \<noteq> NULL then os_sem_give I (tk_semaphore t) w else ok w)))"

text \<open>\<open>response_handler(context, result, context->response, context->response_length)\<close>.\<close>

definition call_response_handler ::
  "'os atc_interface \<Rightarrow> response_handler \<Rightarrow> atc_result \<Rightarrow> 'os world \<Rightarrow> 'os world res" where
  "call_response_handler I h result w =
     (case h of
        Sync_Response_Handler \<Rightarrow> sync_response_handler I result (response (ctx w)) (response_length (ctx w)) w
      | App_Response_Handler f \<Rightarrow>
          ok (emit (Ev_Response f result (take (unat (response_length (ctx w))) (response (ctx w)))
                      (response_length (ctx w))) w))"

definition clear_response_buffer :: "'os world \<Rightarrow> 'os world" where
  "clear_response_buffer w =
     upd_ctx (\<lambda>c. c\<lparr>response := replicate (length (response c)) 0, response_length := 0\<rparr>) w"

definition push_to_response_buffer ::
  "'os atc_interface \<Rightarrow> u8 list \<Rightarrow> size_t \<Rightarrow> 'os world \<Rightarrow> 'os world res" where
  "push_to_response_buffer I line_data len w =
     (let current_length = response_length (ctx w) in
      if current_length + len < ATC_RX_RESPONSE_MAX
      then rbind (c_strncat (response (ctx w)) line_data (unat len)) (\<lambda>r.
           ok (upd_ctx (\<lambda>c. c\<lparr>response := r, response_length := response_length c + len\<rparr>) w))
      else after (LOG_ERR I ''Response buffer overflow, cannot push more data'' []) (ok w))"

definition command_end_handle :: "'os atc_interface \<Rightarrow> atc_result \<Rightarrow> 'os world \<Rightarrow> 'os world res" where
  "command_end_handle I result w =
     rbind (let cur = current_send_task (ctx w) in
            if cur \<noteq> NULL
            then rbind (get_task cur w) (\<lambda>t.
                 after (LOG_DEBUG I ''Response result: %d'' [Log_Int (result_code result)])
                 (after (if response_length (ctx w) > 0 \<and> tk_status t \<noteq> SEND_TASK_STATUS_BINARY
                         then LOG_DEBUG I (''response:'' @ crlf @ ''%s'') [Log_Str (response (ctx w))] else ok ())
                 (rbind (case tk_response_handler t of
                          None \<Rightarrow> after (LOG_WARN I ''No response handler for current send task'' []) (ok w)
                        | Some h \<Rightarrow> call_response_handler I h result w) (\<lambda>w.
                 rbind (get_task cur w) (\<lambda>t.
                 rbind (if tk_data t \<noteq> NULL
                        then rbind (os_free I (tk_data t) w) (\<lambda>w. ok (put cur (O_Task (t\<lparr>tk_data := NULL\<rparr>)) w))
                        else ok w) (\<lambda>w.
                 rbind (get_task cur w) (\<lambda>t.
                 rbind (if tk_prompt t \<noteq> NULL
                        then rbind (os_free I (tk_prompt t) w) (\<lambda>w. ok (put cur (O_Task (t\<lparr>tk_prompt := NULL\<rparr>)) w))
                        else ok w) (\<lambda>w.
                 rbind (os_free I cur w) (\<lambda>w.
                 ok (upd_ctx (\<lambda>c. c\<lparr>current_send_task := NULL\<rparr>) w))))))))))
            else ok w) (\<lambda>w.
     stack_clear (byte_stack (ctx w)) None (clear_response_buffer w))"

section \<open>What is kept\<close>

text \<open>\<open>kept P w w'\<close>: no object of the kind \<open>P\<close> changes or goes.\<close>

definition kept :: "(obj \<Rightarrow> bool) \<Rightarrow> 'os world \<Rightarrow> 'os world \<Rightarrow> bool" where
  "kept P w w' \<longleftrightarrow> (\<forall>p ob. heap w p = Some ob \<longrightarrow> P ob \<longrightarrow> heap w' p = Some ob)"

fun is_caller :: "obj \<Rightarrow> bool" where
  "is_caller (O_Result r) = True"
| "is_caller (O_Size n) = True"
| "is_caller (O_Buf b) = True"
| "is_caller (O_Int i) = True"
| "is_caller _ = False"

text \<open>The objects the table of handlers and the prompt stack are made of.\<close>

fun is_table :: "obj \<Rightarrow> bool" where
  "is_table (O_Entry e) = True"
| "is_table ob = is_link ob"

fun is_stack :: "obj \<Rightarrow> bool" where
  "is_stack (O_Stack k) = True"
| "is_stack (O_Items k) = True"
| "is_stack _ = False"

lemma keptD: "kept P w w' \<Longrightarrow> heap w p = Some ob \<Longrightarrow> P ob \<Longrightarrow> heap w' p = Some ob"
  unfolding kept_def by blast

lemma kept_refl [simp]: "kept P w w"
  by (simp add: kept_def)

lemma kept_heap: "heap w' = heap w \<Longrightarrow> kept P w w'"
  by (simp add: kept_def)

lemma kept_trans: "kept P u v \<Longrightarrow> kept P v w \<Longrightarrow> kept P u w"
  by (simp add: kept_def)

lemma kept_mono: "kept P w w' \<Longrightarrow> (\<And>ob. Q ob \<Longrightarrow> P ob) \<Longrightarrow> kept Q w w'"
  unfolding kept_def by blast

lemma kept_upd:
  "heap w' = (heap w)(a := x) \<Longrightarrow> (\<And>ob. heap w a = Some ob \<Longrightarrow> \<not> P ob) \<Longrightarrow> kept P w w'"
  by (auto simp: kept_def)

lemma kept_only_heap:
  "only_heap A w w' \<Longrightarrow> (\<And>a ob. a \<in> A \<Longrightarrow> heap w a = Some ob \<Longrightarrow> \<not> P ob) \<Longrightarrow> kept P w w'"
  unfolding kept_def only_heap_def by metis

lemma kept_table_inv:
  assumes "urc_inv I w es" and "kept is_table w w'"
    and "urc_handler_list (ctx w') = urc_handler_list (ctx w)" "urc_next_id (ctx w') = urc_next_id (ctx w)"
  shows "urc_inv I w' es"
proof (rule urc_inv_stable [OF assms(1) _ assms(3,4)])
  show "links_kept (fst ` set es) w w'"
    unfolding links_kept_def
  proof (intro allI impI)
    fix p ob assume p: "heap w p = Some ob" "is_link ob \<or> p \<in> fst ` set es"
    then have "is_table ob" using urc_inv_keeps_entry [OF assms(1), of p] by (cases ob) auto
    then show "heap w' p = Some ob" using keptD [OF assms(2) p(1)] by simp
  qed
qed

lemma kept_stack_rep:
  assumes "stack_rep w s ip cap xs" and "kept is_stack w w'"
  shows "stack_rep w' s ip cap xs"
  using assms keptD [OF assms(2)] by (auto simp: stack_rep_def)

section \<open>Tasks\<close>

definition bytes_at :: "'os world \<Rightarrow> addr \<Rightarrow> nat \<Rightarrow> bool" where
  "bytes_at w p n \<longleftrightarrow> (\<exists>bs. heap w p = Some (O_Bytes bs) \<and> n \<le> length bs)"

text \<open>The caller's variables a synchronous task points to.\<close>

definition sync_ok :: "'os world \<Rightarrow> send_task \<Rightarrow> bool" where
  "sync_ok w t \<longleftrightarrow>
     (tk_sync_send_result t \<noteq> NULL \<longrightarrow> (\<exists>r. heap w (tk_sync_send_result t) = Some (O_Result r))) \<and>
     (tk_sync_response_buf t \<noteq> NULL \<and> tk_sync_response_length t \<noteq> NULL \<longrightarrow>
        (\<exists>n b. heap w (tk_sync_response_length t) = Some (O_Size n) \<and>
               heap w (tk_sync_response_buf t) = Some (O_Buf b) \<and> unat n \<le> length b))"

definition task_ok :: "'os world \<Rightarrow> addr \<Rightarrow> send_task \<Rightarrow> bool" where
  "task_ok w p t \<longleftrightarrow> p \<noteq> NULL \<and> heap w p = Some (O_Task t) \<and>
     tk_data t \<noteq> NULL \<and> bytes_at w (tk_data t) (unat (tk_length t)) \<and> tk_data t \<noteq> tk_prompt t \<and>
     tk_length t < 0x80000000 \<and>
     (tk_prompt t \<noteq> NULL \<longrightarrow> bytes_at w (tk_prompt t) (unat (tk_prompt_len t))) \<and>
     (tk_response_handler t = Some Sync_Response_Handler \<longrightarrow> sync_ok w t)"

text \<open>The response can be logged: in text it ends with a NUL, binary data are not logged.\<close>

definition printable :: "send_task \<Rightarrow> atc_context \<Rightarrow> bool" where
  "printable t c \<longleftrightarrow> tk_status t \<noteq> SEND_TASK_STATUS_BINARY \<longrightarrow> response_length c > 0 \<longrightarrow> 0 \<in> set (response c)"

text \<open>What the end of a task with result \<open>r\<close> makes visible.\<close>

definition end_events :: "send_task \<Rightarrow> atc_result \<Rightarrow> atc_context \<Rightarrow> event list" where
  "end_events t r c =
     (case tk_response_handler t of
        None \<Rightarrow> []
      | Some Sync_Response_Handler \<Rightarrow> if tk_semaphore t \<noteq> NULL then [Ev_Give (tk_semaphore t)] else []
      | Some (App_Response_Handler f) \<Rightarrow>
          [Ev_Response f r (take (unat (response_length c)) (response c)) (response_length c)])"

text \<open>What the blocked caller finds in its variables.\<close>

definition delivered :: "send_task \<Rightarrow> atc_result \<Rightarrow> u8 list \<Rightarrow> size_t \<Rightarrow> 'os world \<Rightarrow> 'os world \<Rightarrow> bool" where
  "delivered t r resp n w w' \<longleftrightarrow>
     (tk_sync_send_result t \<noteq> NULL \<longrightarrow> heap w' (tk_sync_send_result t) = Some (O_Result r)) \<and>
     (tk_sync_response_buf t \<noteq> NULL \<and> tk_sync_response_length t \<noteq> NULL \<longrightarrow>
       (\<exists>m b. heap w (tk_sync_response_length t) = Some (O_Size m) \<and> heap w (tk_sync_response_buf t) = Some (O_Buf b) \<and>
         (if n = 0
          then heap w' (tk_sync_response_length t) = Some (O_Size m) \<and> heap w' (tk_sync_response_buf t) = Some (O_Buf b)
          else heap w' (tk_sync_response_length t) = Some (O_Size (min n m)) \<and>
               heap w' (tk_sync_response_buf t) =
                 Some (O_Buf (take (unat (min n m)) resp @ drop (unat (min n m)) b)))))"

text \<open>Variables of callers may be written, but stay what they are.\<close>

fun same_kind :: "obj \<Rightarrow> obj option \<Rightarrow> bool" where
  "same_kind (O_Result r) y = (\<exists>r'. y = Some (O_Result r'))"
| "same_kind (O_Size n) y = (\<exists>n'. y = Some (O_Size n') \<and> n' \<le> n)"
| "same_kind (O_Buf b) y = (\<exists>b'. y = Some (O_Buf b') \<and> length b' = length b)"
| "same_kind (O_Int i) y = (\<exists>i'. y = Some (O_Int i'))"
| "same_kind _ y = True"

definition callers_kept :: "'os world \<Rightarrow> 'os world \<Rightarrow> bool" where
  "callers_kept w w' \<longleftrightarrow> (\<forall>p ob. heap w p = Some ob \<longrightarrow> same_kind ob (heap w' p))"

lemma same_kind_refl [simp]: "same_kind ob (Some ob)"
  by (cases ob) auto

lemma callers_keptD: "callers_kept w w' \<Longrightarrow> heap w p = Some ob \<Longrightarrow> same_kind ob (heap w' p)"
  by (simp add: callers_kept_def)

lemma same_kind_trans: "same_kind ob (Some x) \<Longrightarrow> same_kind x y \<Longrightarrow> is_caller ob \<Longrightarrow> same_kind ob y"
  by (cases ob) auto

lemma same_kind_not_caller: "\<not> is_caller ob \<Longrightarrow> same_kind ob y"
  by (cases ob) auto

lemma same_kind_some: "is_caller ob \<Longrightarrow> same_kind ob y \<Longrightarrow> \<exists>x. y = Some x \<and> is_caller x"
  by (cases ob) auto

lemma callers_kept_heap: "heap w' = heap w \<Longrightarrow> callers_kept w w'"
  by (simp add: callers_kept_def)

lemma kept_callers: "kept is_caller w w' \<Longrightarrow> callers_kept w w'"
  unfolding callers_kept_def by (metis keptD same_kind_refl same_kind_not_caller)

lemma callers_kept_trans:
  assumes "callers_kept u v" and "callers_kept v w"
  shows "callers_kept u w"
  unfolding callers_kept_def
proof (intro allI impI)
  fix p ob assume p: "heap u p = Some ob"
  show "same_kind ob (heap w p)"
  proof (cases "is_caller ob")
    case True
    then obtain x where "heap v p = Some x" using same_kind_some callers_keptD [OF assms(1) p] by blast
    then show ?thesis
      using same_kind_trans [OF _ callers_keptD [OF assms(2)] True] callers_keptD [OF assms(1) p] by simp
  qed (rule same_kind_not_caller)
qed

definition caller_cells :: "send_task \<Rightarrow> addr set" where
  "caller_cells t = {tk_sync_send_result t, tk_sync_response_buf t, tk_sync_response_length t}"

lemma sync_ok_kinds:
  assumes "sync_ok w t" and D: "\<And>p ob. p \<in> caller_cells t \<Longrightarrow> heap w p = Some ob \<Longrightarrow> same_kind ob (heap w' p)"
  shows "sync_ok w' t"
proof -
  have "\<exists>r. heap w' (tk_sync_send_result t) = Some (O_Result r)" if "tk_sync_send_result t \<noteq> NULL"
    using assms(1) that D [of "tk_sync_send_result t"] by (auto simp: sync_ok_def caller_cells_def)
  moreover have "\<exists>n b. heap w' (tk_sync_response_length t) = Some (O_Size n) \<and>
      heap w' (tk_sync_response_buf t) = Some (O_Buf b) \<and> unat n \<le> length b"
    if ne: "tk_sync_response_buf t \<noteq> NULL \<and> tk_sync_response_length t \<noteq> NULL"
  proof -
    obtain n b where "heap w (tk_sync_response_length t) = Some (O_Size n)"
        "heap w (tk_sync_response_buf t) = Some (O_Buf b)" "unat n \<le> length b"
      using assms(1) ne by (auto simp: sync_ok_def)
    then show ?thesis using D [of "tk_sync_response_length t"] D [of "tk_sync_response_buf t"]
      by (auto simp: word_le_nat_alt caller_cells_def)
  qed
  ultimately show ?thesis unfolding sync_ok_def by blast
qed

lemma callers_kept_sync: "sync_ok w t \<Longrightarrow> callers_kept w w' \<Longrightarrow> sync_ok w' t"
  using sync_ok_kinds callers_keptD by metis

text \<open>
  The variables of the caller after the answer, with \<open>m\<close> the size it offered and \<open>b\<close> its
  buffer (\<open>caller_holds\<close>).
\<close>

definition caller_holds :: "'os world \<Rightarrow> send_task \<Rightarrow> size_t \<Rightarrow> u8 list \<Rightarrow> bool" where
  "caller_holds w t m b \<longleftrightarrow> (tk_sync_response_buf t \<noteq> NULL \<and> tk_sync_response_length t \<noteq> NULL \<longrightarrow>
     heap w (tk_sync_response_length t) = Some (O_Size m) \<and> heap w (tk_sync_response_buf t) = Some (O_Buf b) \<and>
     unat m \<le> length b)"

definition sync_answer :: "send_task \<Rightarrow> atc_result \<Rightarrow> u8 list \<Rightarrow> size_t \<Rightarrow> size_t \<Rightarrow> u8 list \<Rightarrow> 'os world \<Rightarrow> 'os world" where
  "sync_answer t r resp n m b w =
     (let w1 = (if tk_sync_send_result t \<noteq> NULL then put (tk_sync_send_result t) (O_Result r) w else w);
          k = min n m in
      if n > 0 \<and> tk_sync_response_buf t \<noteq> NULL \<and> tk_sync_response_length t \<noteq> NULL
      then put (tk_sync_response_length t) (O_Size k)
             (put (tk_sync_response_buf t) (O_Buf (take (unat k) resp @ drop (unat k) b)) w1)
      else w1)"

lemma caller_distinct:
  assumes "sync_ok w t" and "caller_holds w t m b"
  shows "tk_sync_response_buf t \<noteq> NULL \<and> tk_sync_response_length t \<noteq> NULL \<longrightarrow>
    tk_sync_response_length t \<noteq> tk_sync_send_result t \<and> tk_sync_response_buf t \<noteq> tk_sync_send_result t \<and>
    tk_sync_response_length t \<noteq> tk_sync_response_buf t"
  using assms unfolding sync_ok_def caller_holds_def by (cases "tk_sync_send_result t = NULL") auto

lemma sync_answer_run:
  assumes I: "complete I" and t: "task_ok w (current_send_task (ctx w)) t" "sync_ok w t" "caller_holds w t m b"
    and n: "unat n \<le> length resp"
  shows "sync_response_handler I r resp n w =
    (if tk_semaphore t \<noteq> NULL then os_sem_give I (tk_semaphore t) (sync_answer t r resp n m b w)
     else ok (sync_answer t r resp n m b w))"
proof -
  let ?res = "tk_sync_send_result t" and ?buf = "tk_sync_response_buf t" and ?len = "tk_sync_response_length t"
  have T: "get_task (current_send_task (ctx w)) w = ok t" using t(1) by (simp add: task_ok_def)
  define w1 where "w1 = (if ?res \<noteq> NULL then put ?res (O_Result r) w else w)"
  have s1: "(if ?res \<noteq> NULL then store_as sel_result ?res (O_Result r) w else ok w) = ok w1"
    using t(2) by (auto simp: sync_ok_def w1_def)
  have mb: "?buf \<noteq> NULL \<and> ?len \<noteq> NULL \<longrightarrow>
      heap w1 ?len = Some (O_Size m) \<and> heap w1 ?buf = Some (O_Buf b) \<and> unat m \<le> length b \<and> ?len \<noteq> ?buf"
    using t(3) caller_distinct [OF t(2,3)] by (simp add: w1_def caller_holds_def)
  have k: "(if n < m then n else m) = min n m" by (auto simp: min_def)
  have le: "unat (min n m) \<le> length resp" "?buf \<noteq> NULL \<and> ?len \<noteq> NULL \<longrightarrow> unat (min n m) \<le> length b"
    using n mb by (auto simp: min_def word_le_nat_alt)
  have s2: "(if n > 0 \<and> ?buf \<noteq> NULL \<and> ?len \<noteq> NULL
            then rbind (load sel_size ?len w1) (\<lambda>n'.
                 let copy_length = (if n < n' then n else n') in
                 rbind (mem_read resp (unat copy_length)) (\<lambda>bs.
                 rbind (load sel_buf ?buf w1) (\<lambda>buf.
                 rbind (mem_write buf 0 bs) (\<lambda>buf'.
                 store_as sel_size ?len (O_Size copy_length) (put ?buf (O_Buf buf') w1)))))
            else ok w1) = ok (sync_answer t r resp n m b w)"
    using mb le by (auto simp: sync_answer_def w1_def [symmetric] k mem_read_def mem_write_def min_absorb2 Let_def)
  show ?thesis unfolding sync_response_handler_def T rbind_simps s1 s2 by simp
qed

text \<open>The variables that the answer to a blocked sender is written to.\<close>

definition sync_cells :: "send_task \<Rightarrow> addr set" where
  "sync_cells t = {tk_sync_send_result t} \<union>
     (if tk_sync_response_buf t \<noteq> NULL \<and> tk_sync_response_length t \<noteq> NULL
      then {tk_sync_response_buf t, tk_sync_response_length t} else {}) - {NULL}"

definition answer_cells :: "send_task \<Rightarrow> addr set" where
  "answer_cells t = (if tk_response_handler t = Some Sync_Response_Handler then sync_cells t else {})"

text \<open>Only these are written, and they hold the answer.\<close>

lemma sync_answer_frame:
  assumes t: "sync_ok w t" "caller_holds w t m b"
  shows "ctx (sync_answer t r resp n m b w) = ctx w" and "trace (sync_answer t r resp n m b w) = trace w"
    and "heap w q = None \<Longrightarrow> heap (sync_answer t r resp n m b w) q = None"
    and "kept (\<lambda>ob. \<not> is_caller ob) w (sync_answer t r resp n m b w)"
    and "os (sync_answer t r resp n m b w) = os w"
    and "\<forall>q. q \<notin> sync_cells t \<longrightarrow> heap (sync_answer t r resp n m b w) q = heap w q"
proof -
  note holds = t [unfolded sync_ok_def caller_holds_def]
  show "ctx (sync_answer t r resp n m b w) = ctx w" "trace (sync_answer t r resp n m b w) = trace w"
    "os (sync_answer t r resp n m b w) = os w"
    by (simp_all add: sync_answer_def Let_def)
  show "\<forall>q. q \<notin> sync_cells t \<longrightarrow> heap (sync_answer t r resp n m b w) q = heap w q"
    by (auto simp: sync_answer_def sync_cells_def Let_def)
  show "heap (sync_answer t r resp n m b w) q = None" if "heap w q = None"
    using that holds by (auto simp: sync_answer_def Let_def)
  show "kept (\<lambda>ob. \<not> is_caller ob) w (sync_answer t r resp n m b w)"
    using holds by (auto simp: sync_answer_def Let_def kept_def)
qed

lemma sync_answer_delivered:
  assumes t: "sync_ok w t" "caller_holds w t m b" and n: "unat n \<le> length resp"
  shows "delivered t r resp n w (sync_answer t r resp n m b w)" and "callers_kept w (sync_answer t r resp n m b w)"
proof -
  note holds = t [unfolded sync_ok_def caller_holds_def] caller_distinct [OF t]
  have le: "unat (min n m) \<le> length resp" "unat (min n m) \<le> unat m" "min n m \<le> m" using n by (auto simp: min_def word_le_nat_alt)
  show "delivered t r resp n w (sync_answer t r resp n m b w)"
    unfolding delivered_def
  proof (intro conjI impI)
    show "heap (sync_answer t r resp n m b w) (tk_sync_send_result t) = Some (O_Result r)" if "tk_sync_send_result t \<noteq> NULL"
      using that holds by (auto simp: sync_answer_def Let_def)
    assume "tk_sync_response_buf t \<noteq> NULL \<and> tk_sync_response_length t \<noteq> NULL"
    then show "\<exists>m' b'. heap w (tk_sync_response_length t) = Some (O_Size m') \<and> heap w (tk_sync_response_buf t) = Some (O_Buf b') \<and>
         (if n = 0 then heap (sync_answer t r resp n m b w) (tk_sync_response_length t) = Some (O_Size m') \<and>
            heap (sync_answer t r resp n m b w) (tk_sync_response_buf t) = Some (O_Buf b')
          else heap (sync_answer t r resp n m b w) (tk_sync_response_length t) = Some (O_Size (min n m')) \<and>
               heap (sync_answer t r resp n m b w) (tk_sync_response_buf t) =
                 Some (O_Buf (take (unat (min n m')) resp @ drop (unat (min n m')) b')))"
      using holds by (intro exI [of _ m] exI [of _ b]) (auto simp: sync_answer_def Let_def word_gt_0)
  qed
  show "callers_kept w (sync_answer t r resp n m b w)"
    using holds le unfolding callers_kept_def by (auto simp: sync_answer_def Let_def)
qed

lemma sync_response_ok:
  assumes I: "complete I" and t: "task_ok w (current_send_task (ctx w)) t" "sync_ok w t"
    and n: "unat n \<le> length resp"
  shows "\<exists>w'. sync_response_handler I r resp n w = ok w' \<and> kept (\<lambda>ob. \<not> is_caller ob) w w' \<and> ctx w' = ctx w \<and>
    (\<forall>p. heap w p = None \<longrightarrow> heap w' p = None) \<and> (\<forall>q. q \<notin> sync_cells t \<longrightarrow> heap w' q = heap w q) \<and>
    trace w' = trace w @ (if tk_semaphore t \<noteq> NULL then [Ev_Give (tk_semaphore t)] else []) \<and>
    callers_kept w w' \<and> delivered t r resp n w w'"
proof -
  obtain m b where mb: "caller_holds w t m b" using t(2) unfolding sync_ok_def caller_holds_def by metis
  let ?w = "sync_answer t r resp n m b w"
  note facts = sync_answer_frame [OF t(2) mb, where r = r and resp = resp and n = n] sync_answer_delivered [OF t(2) mb n, of r]
  obtain s where s: "os_sem_give I (tk_semaphore t) ?w = ok (emit (Ev_Give (tk_semaphore t)) (?w\<lparr>os := s\<rparr>))"
    using os_sem_give_ok [OF I] by blast
  show ?thesis
  proof (cases "tk_semaphore t = NULL")
    case True
    then show ?thesis using sync_answer_run [OF I t mb n, of r] facts by (intro exI [of _ ?w]) simp
  next
    case False
    then show ?thesis using sync_answer_run [OF I t mb n, of r] s facts
      by (intro exI [of _ "emit (Ev_Give (tk_semaphore t)) (?w\<lparr>os := s\<rparr>)"])
        (simp add: kept_def callers_kept_def delivered_def cong: if_cong)
  qed
qed

section \<open>The end of a command\<close>

text \<open>
  What \<open>command_end_handle\<close> does: the handler runs once on the collected response, the
  task and its two buffers are freed, the task pointer, the response and the prompt stack
  are reset, and nothing else changes.
\<close>

definition cleared :: "atc_context \<Rightarrow> atc_context" where
  "cleared c = c\<lparr>current_send_task := NULL, response := replicate (length (response c)) 0, response_length := 0\<rparr>"

definition task_cells :: "addr \<Rightarrow> send_task \<Rightarrow> addr set" where
  "task_cells p t = {p} \<union> {q. q \<in> {tk_data t, tk_prompt t} \<and> q \<noteq> NULL}"

lemma handler_ok:
  assumes I: "complete I" and t: "task_ok w (current_send_task (ctx w)) t"
    and n: "unat (response_length (ctx w)) \<le> length (response (ctx w))"
  shows "\<exists>w'. (case tk_response_handler t of None \<Rightarrow> ok w | Some h \<Rightarrow> call_response_handler I h r w) = ok w' \<and>
    kept (\<lambda>ob. \<not> is_caller ob) w w' \<and> ctx w' = ctx w \<and> (\<forall>p. heap w p = None \<longrightarrow> heap w' p = None) \<and>
    (\<forall>q. q \<notin> answer_cells t \<longrightarrow> heap w' q = heap w q) \<and> trace w' = trace w @ end_events t r (ctx w) \<and> callers_kept w w' \<and>
    (tk_response_handler t = Some Sync_Response_Handler \<longrightarrow>
       delivered t r (response (ctx w)) (response_length (ctx w)) w w')"
proof (cases "tk_response_handler t")
  case None
  then show ?thesis by (simp add: end_events_def callers_kept_heap)
next
  case (Some h)
  show ?thesis
  proof (cases h)
    case Sync_Response_Handler
    then have "sync_ok w t" using t Some by (simp add: task_ok_def)
    from sync_response_ok [OF I t this n] show ?thesis
      using Some Sync_Response_Handler by (simp add: call_response_handler_def end_events_def answer_cells_def)
  next
    case (App_Response_Handler f)
    then show ?thesis using Some by (simp add: call_response_handler_def end_events_def kept_heap callers_kept_heap)
  qed
qed

text \<open>Freeing a buffer of a task, and clearing the pointer to it.\<close>

lemma free_field_ok:
  assumes I: "complete I" and p: "heap w p = Some (O_Task t)"
    and q: "q \<noteq> NULL \<longrightarrow> bytes_at w q n"
  shows "\<exists>w'. (if q \<noteq> NULL then rbind (os_free I q w) (\<lambda>w. ok (put p (O_Task t') w)) else ok w) = ok w' \<and>
    heap w' = (if q \<noteq> NULL then (heap w)(q := None, p \<mapsto> O_Task t') else heap w) \<and>
    ctx w' = ctx w \<and> trace w' = trace w"
proof (cases "q = NULL")
  case False
  then obtain bs where "heap w q = Some (O_Bytes bs)" using q by (auto simp: bytes_at_def)
  from os_free_ok [OF I this] show ?thesis using False by auto
qed simp

text \<open>The part of the end of a command that frees the task.\<close>

definition free_task :: "'os atc_interface \<Rightarrow> addr \<Rightarrow> 'os world \<Rightarrow> 'os world res" where
  "free_task I cur w =
     rbind (get_task cur w) (\<lambda>t.
     rbind (if tk_data t \<noteq> NULL
            then rbind (os_free I (tk_data t) w) (\<lambda>w. ok (put cur (O_Task (t\<lparr>tk_data := NULL\<rparr>)) w))
            else ok w) (\<lambda>w.
     rbind (get_task cur w) (\<lambda>t.
     rbind (if tk_prompt t \<noteq> NULL
            then rbind (os_free I (tk_prompt t) w) (\<lambda>w. ok (put cur (O_Task (t\<lparr>tk_prompt := NULL\<rparr>)) w))
            else ok w) (\<lambda>w.
     rbind (os_free I cur w) (\<lambda>w.
     ok (upd_ctx (\<lambda>c. c\<lparr>current_send_task := NULL\<rparr>) w))))))"

lemma free_task_ok:
  assumes I: "complete I" and t: "task_ok w p t"
  shows "\<exists>w'. free_task I p w = ok w' \<and> ctx w' = (ctx w)\<lparr>current_send_task := NULL\<rparr> \<and> trace w' = trace w \<and>
    heap w' = (\<lambda>q. if q \<in> task_cells p t then None else heap w q)"
proof -
  have p: "heap w p = Some (O_Task t)"
    and d: "tk_data t \<noteq> NULL \<longrightarrow> bytes_at w (tk_data t) (unat (tk_length t)) \<and> tk_data t \<noteq> tk_prompt t"
    and pr: "tk_prompt t \<noteq> NULL \<longrightarrow> bytes_at w (tk_prompt t) (unat (tk_prompt_len t))"
    using t by (simp_all add: task_ok_def)
  from free_field_ok [OF I p, of "tk_data t" _ "t\<lparr>tk_data := NULL\<rparr>"] d obtain w2 where
    w2: "(if tk_data t \<noteq> NULL then rbind (os_free I (tk_data t) w) (\<lambda>w. ok (put p (O_Task (t\<lparr>tk_data := NULL\<rparr>)) w)) else ok w) = ok w2"
      "heap w2 = (if tk_data t \<noteq> NULL then (heap w)(tk_data t := None, p \<mapsto> O_Task (t\<lparr>tk_data := NULL\<rparr>)) else heap w)"
      "ctx w2 = ctx w" "trace w2 = trace w" by blast
  define t2 where "t2 = (if tk_data t \<noteq> NULL then t\<lparr>tk_data := NULL\<rparr> else t)"
  have p2: "heap w2 p = Some (O_Task t2)" "tk_prompt t2 = tk_prompt t" using w2(2) p by (auto simp: t2_def)
  have dp: "tk_data t \<noteq> NULL \<longrightarrow> tk_data t \<noteq> p" "tk_prompt t \<noteq> NULL \<longrightarrow> tk_prompt t \<noteq> p"
    using d pr p by (auto simp: bytes_at_def)
  have pr2: "tk_prompt t2 \<noteq> NULL \<longrightarrow> bytes_at w2 (tk_prompt t2) (unat (tk_prompt_len t))"
    using pr d dp w2(2) p2(2) by (auto simp: bytes_at_def)
  from free_field_ok [OF I p2(1) pr2, of "t2\<lparr>tk_prompt := NULL\<rparr>"] obtain w3 where
    w3: "(if tk_prompt t2 \<noteq> NULL then rbind (os_free I (tk_prompt t2) w2) (\<lambda>w. ok (put p (O_Task (t2\<lparr>tk_prompt := NULL\<rparr>)) w)) else ok w2) = ok w3"
      "heap w3 = (if tk_prompt t2 \<noteq> NULL then (heap w2)(tk_prompt t2 := None, p \<mapsto> O_Task (t2\<lparr>tk_prompt := NULL\<rparr>)) else heap w2)"
      "ctx w3 = ctx w2" "trace w3 = trace w2" by blast
  obtain t3 where p3: "heap w3 p = Some (O_Task t3)" using w3(2) p2(1) that by (cases "tk_prompt t2 = NULL") auto
  obtain s where f: "os_free I p w3 = ok (w3\<lparr>heap := (heap w3)(p := None), os := s\<rparr>)"
    using os_free_ok [OF I p3] by blast
  let ?w = "upd_ctx (\<lambda>c. c\<lparr>current_send_task := NULL\<rparr>) (w3\<lparr>heap := (heap w3)(p := None), os := s\<rparr>)"
  have "free_task I p w = ok ?w" using t p w2(1) p2 w3(1) f by (simp add: free_task_def task_ok_def)
  moreover have "heap ?w = (\<lambda>q. if q \<in> task_cells p t then None else heap w q)"
    using w2(2) w3(2) p2(2) dp by (auto simp: task_cells_def)
  ultimately show ?thesis using w2(3,4) w3(3,4) by (intro exI [of _ ?w]) simp
qed

lemma command_end_unfold:
  assumes "complete I" and "current_send_task (ctx w) \<noteq> NULL"
    and "heap w (current_send_task (ctx w)) = Some (O_Task t)" and "printable t (ctx w)"
  shows "command_end_handle I r w =
     rbind (case tk_response_handler t of None \<Rightarrow> ok w | Some h \<Rightarrow> call_response_handler I h r w) (\<lambda>v.
     rbind (free_task I (current_send_task (ctx w)) v) (\<lambda>v.
     stack_clear (byte_stack (ctx v)) None (clear_response_buffer v)))"
  using assms by (simp add: command_end_handle_def free_task_def Let_def printable_def cong: option.case_cong)

text \<open>
  From the world \<open>v\<close> that the response handler leaves: the cells of the task are freed, and
  nothing else but the prompt stack changes.
\<close>

lemma command_end_from:
  assumes I: "complete I" and t: "task_ok w (current_send_task (ctx w)) t" "printable t (ctx w)"
    and st: "stack_rep w (byte_stack (ctx w)) ip cap xs"
    and v: "(case tk_response_handler t of None \<Rightarrow> ok w | Some h \<Rightarrow> call_response_handler I h r w) = ok v"
      "kept (\<lambda>ob. \<not> is_caller ob) w v" "callers_kept w v" "ctx v = ctx w"
  shows "\<exists>w'. command_end_handle I r w = ok w' \<and> ctx w' = cleared (ctx w) \<and> trace w' = trace v \<and>
    stack_rep w' (byte_stack (ctx w)) ip cap [] \<and>
    (\<forall>q \<in> task_cells (current_send_task (ctx w)) t. heap w' q = None \<and>
       (heap v q = Some (O_Task t) \<or> (\<exists>bs. heap v q = Some (O_Bytes bs)))) \<and>
    (\<exists>k. heap v (byte_stack (ctx w)) = Some (O_Stack k)) \<and>
    (\<forall>q. q \<notin> task_cells (current_send_task (ctx w)) t \<longrightarrow> q \<noteq> byte_stack (ctx w) \<longrightarrow> heap w' q = heap v q)"
proof -
  let ?p = "current_send_task (ctx w)" and ?s = "byte_stack (ctx w)"
  have t1: "task_ok v ?p t"
    using t(1) keptD [OF v(2)] callers_kept_sync [OF _ v(3)] by (fastforce simp: task_ok_def bytes_at_def)
  then have cells: "\<forall>q \<in> task_cells ?p t. heap v q = Some (O_Task t) \<or> (\<exists>bs. heap v q = Some (O_Bytes bs))"
    by (auto simp: task_cells_def task_ok_def bytes_at_def)
  from free_task_ok [OF I t1] obtain x where x: "free_task I ?p v = ok x" "ctx x = (ctx v)\<lparr>current_send_task := NULL\<rparr>"
      "trace x = trace v" "heap x = (\<lambda>q. if q \<in> task_cells ?p t then None else heap v q)" by blast
  define y where "y = clear_response_buffer x"
  have y: "heap y = heap x" "ctx y = cleared (ctx w)" "trace y = trace v"
    using v(4) x(2,3) by (simp_all add: y_def clear_response_buffer_def cleared_def)
  have sv: "kept is_stack w v" by (rule kept_mono [OF v(2)]) (case_tac ob, auto)
  have "kept is_stack v y" unfolding kept_def y(1) x(4) using cells by fastforce
  then have sy: "stack_rep y ?s ip cap xs" by (rule kept_stack_rep [OF st kept_trans [OF sv]])
  obtain w' where w': "stack_clear ?s None y = ok w'" "stack_rep w' ?s ip cap []" "only_heap {?s} y w'"
    using stack_clear_rep [OF sy] by blast
  have so: "\<exists>k. heap v ?s = Some (O_Stack k)" "heap y ?s \<noteq> None" using st sy keptD [OF sv] by (auto simp: stack_rep_def)
  have "byte_stack (ctx x) = ?s" using v(4) x(2) by simp
  then have "command_end_handle I r w = ok w'"
    using t(1) v(1) x(1) w'(1) command_end_unfold [OF I _ _ t(2), of r] by (simp add: task_ok_def y_def)
  moreover have "?s \<notin> task_cells ?p t" using so(2) y(1) x(4) by auto
  then have "\<forall>q \<in> task_cells ?p t. q \<noteq> ?s" by blast
  moreover have "heap w' q = (if q \<in> task_cells ?p t then None else heap v q)" if "q \<noteq> ?s" for q
    using that w'(3) y(1) x(4) by (simp add: only_heap_def)
  moreover have "ctx w' = ctx y" "trace w' = trace y" using w'(3) by (simp_all add: only_heap_def)
  ultimately show ?thesis using w'(2) so(1) cells y(2,3) by (intro exI [of _ w']) simp
qed

lemma command_end_ok:
  assumes I: "complete I" and t: "task_ok w (current_send_task (ctx w)) t"
    and n: "unat (response_length (ctx w)) \<le> length (response (ctx w))" "printable t (ctx w)"
    and st: "stack_rep w (byte_stack (ctx w)) ip cap xs"
  shows "\<exists>w'. command_end_handle I r w = ok w' \<and> ctx w' = cleared (ctx w) \<and>
    trace w' = trace w @ end_events t r (ctx w) \<and>
    stack_rep w' (byte_stack (ctx w)) ip cap [] \<and> callers_kept w w' \<and>
    kept (\<lambda>ob. is_table ob \<or> is_caller ob \<and> tk_response_handler t \<noteq> Some Sync_Response_Handler) w w' \<and>
    (\<forall>q \<in> task_cells (current_send_task (ctx w)) t. heap w' q = None) \<and>
    (tk_response_handler t = Some Sync_Response_Handler \<longrightarrow>
       delivered t r (response (ctx w)) (response_length (ctx w)) w w') \<and>
    (\<forall>q. q \<notin> task_cells (current_send_task (ctx w)) t \<longrightarrow> q \<noteq> byte_stack (ctx w) \<longrightarrow>
       q \<notin> answer_cells t \<longrightarrow> heap w' q = heap w q)"
proof -
  let ?p = "current_send_task (ctx w)" and ?s = "byte_stack (ctx w)"
  let ?sync = "tk_response_handler t = Some Sync_Response_Handler"
  from handler_ok [OF I t n(1), of r] obtain v where
    v: "(case tk_response_handler t of None \<Rightarrow> ok w | Some h \<Rightarrow> call_response_handler I h r w) = ok v"
      "kept (\<lambda>ob. \<not> is_caller ob) w v" "ctx v = ctx w" "\<forall>p. heap w p = None \<longrightarrow> heap v p = None"
      "trace v = trace w @ end_events t r (ctx w)"
      "?sync \<longrightarrow> delivered t r (response (ctx w)) (response_length (ctx w)) w v" "callers_kept w v"
      "\<forall>q. q \<notin> answer_cells t \<longrightarrow> heap v q = heap w q" by blast
  from command_end_from [OF I t n(2) st v(1,2,7,3)] obtain w' where w': "command_end_handle I r w = ok w'"
      "ctx w' = cleared (ctx w)" "trace w' = trace v" "stack_rep w' ?s ip cap []"
      "\<forall>q \<in> task_cells ?p t. heap w' q = None \<and> (heap v q = Some (O_Task t) \<or> (\<exists>bs. heap v q = Some (O_Bytes bs)))"
      "\<exists>k. heap v ?s = Some (O_Stack k)"
      "\<forall>q. q \<notin> task_cells ?p t \<longrightarrow> q \<noteq> ?s \<longrightarrow> heap w' q = heap v q" by blast
  have k1: "heap w' q = heap v q" if "heap v q = Some ob" "is_table ob \<or> is_caller ob" for q ob
  proof -
    have "q \<notin> task_cells ?p t" using w'(5) that by fastforce
    moreover have "q \<noteq> ?s" using w'(6) that by auto
    ultimately show ?thesis using w'(7) by blast
  qed
  have "heap v = heap w" if "\<not> ?sync"
    using v(1) that by (auto simp: call_response_handler_def split: option.splits response_handler.splits)
  then have k0: "heap v q = Some ob" if "heap w q = Some ob" "is_table ob \<or> is_caller ob \<and> \<not> ?sync" for q ob
    using that keptD [OF v(2) that(1)] by (cases "is_caller ob") (auto elim: is_caller.elims)
  have keep: "kept (\<lambda>ob. is_table ob \<or> is_caller ob \<and> \<not> ?sync) w w'"
    unfolding kept_def using k0 k1 by metis
  have "delivered t r (response (ctx w)) (response_length (ctx w)) w w'" if ?sync
    using v(6) that k1 unfolding delivered_def by (metis is_caller.simps(1-3))
  moreover have "heap w' q = heap w q"
    if q: "q \<notin> task_cells ?p t" "q \<noteq> ?s" "q \<notin> answer_cells t" for q
    using q w'(7) v(8) by simp
  moreover have "callers_kept w w'"
    by (rule callers_kept_trans [OF v(7) kept_callers]) (unfold kept_def, metis k1)
  ultimately show ?thesis using w' keep v(5) by (intro exI [of _ w']) simp
qed

lemma not_answer_cell:
  assumes t: "task_ok w p t" and q: "\<And>ob. heap w q = Some ob \<Longrightarrow> \<not> is_caller ob"
  shows "q \<notin> answer_cells t"
proof
  assume a: "q \<in> answer_cells t"
  then have "sync_ok w t" using t by (auto simp: answer_cells_def task_ok_def split: if_splits)
  then have "\<exists>ob. heap w q = Some ob \<and> is_caller ob"
    using a by (auto simp: answer_cells_def sync_cells_def sync_ok_def split: if_splits)
  then show False using q by blast
qed

text \<open>
  The end of the command of a blocked sender, in the order of its steps: the answer is written
  before anything of the platform is called, the semaphore is given next, and what is left to do
  follows.
\<close>

lemma command_end_order:
  assumes I: "complete I" and t: "task_ok w (current_send_task (ctx w)) t" "printable t (ctx w)"
    and n: "unat (response_length (ctx w)) \<le> length (response (ctx w))"
    and h: "tk_response_handler t = Some Sync_Response_Handler" "tk_semaphore t \<noteq> NULL" "caller_holds w t m b"
  shows "command_end_handle I r w =
    rbind (os_sem_give I (tk_semaphore t) (sync_answer t r (response (ctx w)) (response_length (ctx w)) m b w)) (\<lambda>v.
    rbind (free_task I (current_send_task (ctx w)) v) (\<lambda>v.
    stack_clear (byte_stack (ctx v)) None (clear_response_buffer v)))"
proof -
  have s: "sync_ok w t" and c: "current_send_task (ctx w) \<noteq> NULL" "heap w (current_send_task (ctx w)) = Some (O_Task t)"
    using t(1) h(1) by (simp_all add: task_ok_def)
  show ?thesis
    using command_end_unfold [OF I c t(2), of r] sync_answer_run [OF I t(1) s h(3) n, of r] h(1,2)
    by (simp add: call_response_handler_def)
qed

section \<open>The state behind the interface at the end of a command\<close>

text \<open>Nothing at the end of a command touches a queue: it only gives a semaphore and frees.\<close>

lemma within_clear [within_os]: "R s (os w) \<Longrightarrow> within R s (stack_clear p None w)"
  unfolding stack_clear_def option.case by (rule within_os | assumption | simp)+

lemma within_sync [within_os]: "os_keeps R I \<Longrightarrow> R s (os w) \<Longrightarrow> within R s (sync_response_handler I r resp n w)"
  unfolding sync_response_handler_def Let_def by (rule within_os | assumption | simp)+

lemma within_handler [within_os]: "os_keeps R I \<Longrightarrow> R s (os w) \<Longrightarrow> within R s (call_response_handler I h r w)"
  by (cases h) (simp_all add: call_response_handler_def within_sync within_intros(1))

lemma command_end_os: "os_keeps R I \<Longrightarrow> R s (os w) \<Longrightarrow> within R s (command_end_handle I r w)"
  unfolding command_end_handle_def Let_def
  by (rule within_os | assumption | simp add: clear_response_buffer_def)+

end
