(* ===== verification/Recv_Line.thy ===== *)
theory Recv_Line
  imports Command_End
begin

text \<open>
  The line mode of \<open>recv_data_handle.c\<close>: bytes are collected up to a newline, empty lines
  are dropped, unsolicited lines go to the URC handlers, and the other lines are appended to
  the response, which a line that begins with \<open>OK\<close> or \<open>ERROR\<close> ends.
\<close>

section \<open>Operations\<close>

definition marker_ok :: "u8 list" where "marker_ok = [79, 75, 0]"
definition marker_error :: "u8 list" where "marker_error = [69, 82, 82, 79, 82, 0]"

definition command_end_markers :: "u8 list list" where
  "command_end_markers = [marker_ok, marker_error]"

text \<open>The loop over the markers, with \<open>strcmp(marker, "OK") == 0\<close> deciding the result.\<close>

fun marker_loop :: "'os atc_interface \<Rightarrow> u8 list list \<Rightarrow> u8 list \<Rightarrow> size_t \<Rightarrow> 'os world \<Rightarrow> 'os world res" where
  "marker_loop I [] line_data len w = ok w"
| "marker_loop I (m # ms) line_data len w =
     rbind (c_strlen m) (\<lambda>k.
     rbind (if unat len \<ge> k then c_strncmp_eq line_data m k else ok False) (\<lambda>matches.
     if matches
     then command_end_handle I (if cstr m = cstr marker_ok then ATC_SUCCESS else ATC_ERROR) w
     else marker_loop I ms line_data len w))"

definition normal_line_handle :: "'os atc_interface \<Rightarrow> u8 list \<Rightarrow> size_t \<Rightarrow> 'os world \<Rightarrow> 'os world res" where
  "normal_line_handle I line_data len w =
     after (LOG_TRACE I)
       (rbind (push_to_response_buffer I line_data len w) (marker_loop I command_end_markers line_data len))"

definition line_handle :: "'os atc_interface \<Rightarrow> u8 list option \<Rightarrow> size_t \<Rightarrow> 'os world \<Rightarrow> 'os world res" where
  "line_handle I line_data len w =
     (case line_data of
        None \<Rightarrow> ok w
      | Some line \<Rightarrow>
          after (LOG_DEBUG I ''Received line: %s'' [Log_Str line])
          (if len \<le> 2 then ok w
           else rbind (urc_line_handle I (Some line) w) (\<lambda>(is_urc, w).
                if \<not> is_urc then normal_line_handle I line len w else ok w)))"

definition byte_line_handle :: "'os atc_interface \<Rightarrow> u8 \<Rightarrow> 'os world \<Rightarrow> 'os world res" where
  "byte_line_handle I byte w =
     (let i = line_buffer_index (ctx w) in
      if i < ATC_RX_LINE_MAX_SIZE - 1
      then rbind (arr_set (line_buffer (ctx w)) (unat i) byte) (\<lambda>buf.
           let w = upd_ctx (\<lambda>c. c\<lparr>line_buffer := buf, line_buffer_index := i + 1\<rparr>) w in
           if byte = 10
           then rbind (arr_set (line_buffer (ctx w)) (unat (line_buffer_index (ctx w))) 0) (\<lambda>buf.
                let w = upd_ctx (\<lambda>c. c\<lparr>line_buffer := buf\<rparr>) w in
                rbind (line_handle I (Some (line_buffer (ctx w))) (line_buffer_index (ctx w)) w) (\<lambda>w.
                ok (upd_ctx (\<lambda>c. c\<lparr>line_buffer_index := 0\<rparr>) w)))
           else ok w)
      else after (LOG_WARN I ''Line buffer overflow, discarding data'' []) (ok w))"

section \<open>The invariant of the receive path\<close>

text \<open>The response as text: what \<open>strncat\<close> needs to stay inside the array.\<close>

definition resp_text :: "atc_context \<Rightarrow> bool" where
  "resp_text c \<longleftrightarrow> length (response c) = 512 \<and> length (cstr (response c)) \<le> unat (response_length c) \<and>
     unat (response_length c) < 512"

lemma nul_in_shorter: "length (cstr xs) < length xs \<Longrightarrow> 0 \<in> set xs"
  by (induction xs) (auto simp: cstr_def split: if_splits)

lemma resp_text_nul: "resp_text c \<Longrightarrow> 0 \<in> set (response c)"
  by (rule nul_in_shorter) (simp add: resp_text_def)

definition buf_ok :: "atc_context \<Rightarrow> bool" where
  "buf_ok c \<longleftrightarrow> length (line_buffer c) = 256 \<and> unat (line_buffer_index c) \<le> 255"

text \<open>
  \<open>T\<close> is the current task, \<open>es\<close> the table of URC handlers, \<open>xs\<close> the contents of the
  prompt stack.
\<close>

definition task_state :: "'os world \<Rightarrow> send_task option \<Rightarrow> bool" where
  "task_state w T \<longleftrightarrow>
     (case T of
        None \<Rightarrow> current_send_task (ctx w) = NULL \<and> resp_text (ctx w)
      | Some t \<Rightarrow> task_ok w (current_send_task (ctx w)) t \<and>
          (if tk_status t = SEND_TASK_STATUS_BINARY
           then length (response (ctx w)) = 512 \<and> unat (response_length (ctx w)) \<le> 512
           else resp_text (ctx w)))"

definition rx_inv ::
  "'os atc_interface \<Rightarrow> 'os world \<Rightarrow> urc_table \<Rightarrow> addr \<Rightarrow> addr list \<Rightarrow> send_task option \<Rightarrow> bool" where
  "rx_inv I w es ip xs T \<longleftrightarrow> urc_inv I w es \<and> stack_rep w (byte_stack (ctx w)) ip 20 xs \<and>
     buf_ok (ctx w) \<and> task_state w T"

definition task_events :: "send_task option \<Rightarrow> atc_result \<Rightarrow> atc_context \<Rightarrow> event list" where
  "task_events T r c = (case T of None \<Rightarrow> [] | Some t \<Rightarrow> end_events t r c)"

text \<open>What a blocked sender has been handed, with the context \<open>c\<close> at the end of its command.\<close>

definition handed :: "send_task option \<Rightarrow> atc_result \<Rightarrow> atc_context \<Rightarrow> 'os world \<Rightarrow> 'os world \<Rightarrow> bool" where
  "handed T r c w w' \<longleftrightarrow> (\<forall>t. T = Some t \<longrightarrow> tk_response_handler t = Some Sync_Response_Handler \<longrightarrow>
     delivered t r (response c) (response_length c) w w')"

lemma handed_cong:
  "handed T r c v v' \<Longrightarrow> heap v = heap w \<Longrightarrow> heap v' = heap w' \<Longrightarrow> response c = response d \<Longrightarrow>
    response_length c = response_length d \<Longrightarrow> handed T r d w w'"
  unfolding handed_def delivered_def by metis

lemma handed_None [simp]: "handed None r c w w'"
  by (simp add: handed_def)

lemma rx_inv_interface: "rx_inv I w es ip xs T \<Longrightarrow> complete I \<and> malloc_fresh I"
  using urc_inv_interface by (auto simp: rx_inv_def)

text \<open>The invariant only reads the heap and parts of the context.\<close>

lemma rx_inv_cong:
  assumes "rx_inv I w es ip xs T" and "heap w' = heap w"
    and "urc_handler_list (ctx w') = urc_handler_list (ctx w)" "urc_next_id (ctx w') = urc_next_id (ctx w)"
    and "byte_stack (ctx w') = byte_stack (ctx w)" "current_send_task (ctx w') = current_send_task (ctx w)"
    and "buf_ok (ctx w')"
    and "(\<forall>t. T = Some t \<longrightarrow> tk_status t \<noteq> SEND_TASK_STATUS_BINARY) \<longrightarrow> resp_text (ctx w')"
    and "length (response (ctx w')) = 512" "unat (response_length (ctx w')) \<le> 512"
  shows "rx_inv I w' es ip xs T"
proof -
  have "urc_inv I w' es"
    using assms by (intro urc_inv_stable [of I w es w']) (simp_all add: rx_inv_def links_kept_heap)
  moreover have "task_state w' T"
    using assms by (auto simp: task_state_def rx_inv_def task_ok_def bytes_at_def sync_ok_def split: option.splits if_splits)
  ultimately show ?thesis using assms by (simp add: rx_inv_def stack_rep_def)
qed

text \<open>
  What the receive path leaves alone: every object but those of the current task, the prompt
  stack and the variables of blocked callers, which stay of their kind; the handles of the
  queues; and, behind the interface, everything but the calls it makes.
\<close>

definition own :: "'os world \<Rightarrow> addr set" where
  "own w = (let p = current_send_task (ctx w) in
     if p = NULL then {}
     else case heap w p of Some (O_Task t) \<Rightarrow> {p, tk_data t, tk_prompt t} - {NULL} | _ \<Rightarrow> {})"

definition os_steps :: "'os atc_interface \<Rightarrow> 'os \<Rightarrow> 'os \<Rightarrow> bool" where
  "os_steps I s s' \<longleftrightarrow> (\<forall>R. os_keeps R I \<longrightarrow> R s s')"

lemma os_stepsI: "(\<And>R. os_keeps R I \<Longrightarrow> R s s') \<Longrightarrow> os_steps I s s'"
  unfolding os_steps_def by blast

lemma os_stepsD: "os_steps I s s' \<Longrightarrow> os_keeps R I \<Longrightarrow> R s s'"
  unfolding os_steps_def by blast

lemma os_steps_refl [simp]: "os_steps I s s"
  by (rule os_stepsI) (rule os_keeps_refl)

lemma os_steps_trans: "os_steps I s t \<Longrightarrow> os_steps I t u \<Longrightarrow> os_steps I s u"
  by (rule os_stepsI) (metis os_stepsD os_keeps_trans)

definition spares :: "'os atc_interface \<Rightarrow> 'os world \<Rightarrow> 'os world \<Rightarrow> bool" where
  "spares I w w' \<longleftrightarrow>
     (\<forall>p ob. heap w p = Some ob \<longrightarrow> p \<notin> own w \<longrightarrow> \<not> is_stack ob \<longrightarrow> \<not> is_caller ob \<longrightarrow> heap w' p = Some ob) \<and>
     callers_kept w w' \<and> own w' \<subseteq> own w \<and>
     send_queue (ctx w') = send_queue (ctx w) \<and> external_api_queue (ctx w') = external_api_queue (ctx w) \<and>
     wake_semaphore (ctx w') = wake_semaphore (ctx w) \<and> os_steps I (os w) (os w')"

lemma own_task: "task_ok w (current_send_task (ctx w)) t \<Longrightarrow>
    own w = {current_send_task (ctx w), tk_data t, tk_prompt t} - {NULL}"
  by (simp add: own_def task_ok_def)

lemma own_none: "current_send_task (ctx w) = NULL \<Longrightarrow> own w = {}"
  by (simp add: own_def)

lemma spares_same:
  assumes "heap w' = heap w" "os w' = os w" "current_send_task (ctx w') = current_send_task (ctx w)"
    "send_queue (ctx w') = send_queue (ctx w)" "external_api_queue (ctx w') = external_api_queue (ctx w)"
    "wake_semaphore (ctx w') = wake_semaphore (ctx w)"
  shows "spares I w w'"
proof -
  have "own w' = own w" unfolding own_def assms ..
  then show ?thesis using assms by (simp add: spares_def callers_kept_heap)
qed

lemma spares_refl [simp]: "spares I w w"
  by (rule spares_same) simp_all

lemma spares_trans:
  assumes "spares I u v" and "spares I v w"
  shows "spares I u w"
proof -
  have "heap w p = Some ob" if "heap u p = Some ob" "p \<notin> own u" "\<not> is_stack ob" "\<not> is_caller ob" for p ob
    using assms that unfolding spares_def by blast
  moreover have "callers_kept u w"
    by (rule callers_kept_trans [of u v w]) (use assms in \<open>simp_all add: spares_def\<close>)
  moreover have "os_steps I (os u) (os w)"
    by (rule os_steps_trans [of I _ "os v"]) (use assms in \<open>simp_all add: spares_def\<close>)
  moreover have "own w \<subseteq> own u" using assms by (auto simp: spares_def)
  ultimately show ?thesis using assms by (simp add: spares_def)
qed

lemma spares_heapD:
  "spares I w w' \<Longrightarrow> heap w p = Some ob \<Longrightarrow> p \<notin> own w \<Longrightarrow> \<not> is_stack ob \<Longrightarrow> \<not> is_caller ob \<Longrightarrow> heap w' p = Some ob"
  unfolding spares_def by blast

text \<open>A change of the prompt stack only.\<close>

lemma spares_stack:
  assumes st: "stack_rep w s ip cap xs" "stack_rep w' s ip cap xs'" and h: "only_heap {s, ip} w w'"
  shows "spares I w w'"
proof -
  have o: "os w' = os w" "ctx w' = ctx w" and same: "\<And>p. p \<notin> {s, ip} \<Longrightarrow> heap w' p = heap w p"
    using h by (simp_all add: only_heap_def)
  have s: "\<exists>ob. heap w p = Some ob \<and> is_stack ob" "\<exists>ob. heap w' p = Some ob \<and> is_stack ob" if "p \<in> {s, ip}" for p
    using that st by (auto simp: stack_rep_def)
  have kept: "heap w' p = Some ob" if "heap w p = Some ob" "\<not> is_stack ob" for p ob
    using that same [of p] s(1) [of p] by (cases "p \<in> {s, ip}") auto
  have "callers_kept w w'"
    unfolding callers_kept_def using kept same_kind_refl same_kind_not_caller by (metis is_caller.simps(8,9) is_stack.elims(2))
  moreover have "own w' = own w"
    using same [of "current_send_task (ctx w)"] s [of "current_send_task (ctx w)"] o(2)
    by (cases "current_send_task (ctx w) \<in> {s, ip}") (auto simp: own_def Let_def elim!: is_stack.elims(2))
  ultimately show ?thesis using o kept by (auto simp: spares_def)
qed

text \<open>The end of a command.\<close>

lemma spares_end:
  assumes t: "task_ok w (current_send_task (ctx w)) t" and s: "\<exists>k. heap w (byte_stack (ctx w)) = Some (O_Stack k)"
    and run: "command_end_handle I r w = ok w'" and c: "ctx w' = cleared (ctx w)" "callers_kept w w'"
    and h: "\<forall>q. q \<notin> task_cells (current_send_task (ctx w)) t \<longrightarrow> q \<noteq> byte_stack (ctx w) \<longrightarrow>
       (\<forall>ob. heap w q = Some ob \<longrightarrow> \<not> is_caller ob) \<longrightarrow> heap w' q = heap w q"
  shows "spares I w w'"
proof -
  have cells: "task_cells (current_send_task (ctx w)) t = own w"
    using t own_task [OF t] by (auto simp: task_cells_def task_ok_def)
  have "heap w' p = Some ob" if "heap w p = Some ob" "p \<notin> own w" "\<not> is_stack ob" "\<not> is_caller ob" for p ob
  proof -
    have "p \<noteq> byte_stack (ctx w)" using s that by auto
    then show ?thesis using h that unfolding cells by simp
  qed
  moreover have "own w' = {}" using c(1) by (simp add: own_none cleared_def)
  moreover have "os_steps I (os w) (os w')"
  proof (rule os_stepsI)
    fix R assume R: "os_keeps R I"
    show "R (os w) (os w')" using command_end_os [OF R os_keeps_refl [OF R], of w r] run by (simp add: within_def)
  qed
  ultimately show ?thesis using c by (simp add: spares_def cleared_def)
qed

lemma cstr_zeros [simp]: "cstr (replicate n 0) = []"
  by (cases n) (simp_all add: cstr_def)

text \<open>The end of a command, also when there is none.\<close>

lemma rx_inv_printable: "rx_inv I w es ip xs (Some t) \<Longrightarrow> printable t (ctx w)"
  using resp_text_nul by (auto simp: rx_inv_def task_state_def printable_def split: if_splits)

text \<open>The end of a command when there is none: only the response and the stack are cleared.\<close>

lemma rx_end_idle:
  assumes inv: "rx_inv I w es ip xs None"
  shows "\<exists>w'. command_end_handle I r w = ok w' \<and> ctx w' = cleared (ctx w) \<and> trace w' = trace w \<and> kept is_table w w' \<and>
    stack_rep w' (byte_stack (ctx w)) ip 20 [] \<and> spares I w w'"
proof -
  have c: "current_send_task (ctx w) = NULL" and st: "stack_rep w (byte_stack (ctx w)) ip 20 xs"
    using inv by (auto simp: rx_inv_def task_state_def)
  let ?v = "clear_response_buffer w"
  have stv: "stack_rep ?v (byte_stack (ctx w)) ip 20 xs" using st by (simp add: clear_response_buffer_def stack_rep_def)
  from stack_clear_rep [OF stv] obtain w' where w': "stack_clear (byte_stack (ctx w)) None ?v = ok w'"
    "stack_rep w' (byte_stack (ctx w)) ip 20 []" "only_heap {byte_stack (ctx w)} ?v w'" by blast
  have "\<exists>k. heap w (byte_stack (ctx w)) = Some (O_Stack k)" using st by (auto simp: stack_rep_def)
  then have "kept is_table ?v w'" by (intro kept_only_heap [OF w'(3)]) (auto simp: clear_response_buffer_def)
  then have "kept is_table w w'" by (simp add: kept_def clear_response_buffer_def)
  moreover have "ctx w' = cleared (ctx w)" "trace w' = trace w"
    using w'(3) c by (simp_all add: only_heap_def clear_response_buffer_def cleared_def)
  moreover have "spares I ?v w'" by (rule spares_stack [OF stv w'(2) only_heap_mono [OF w'(3)]]) simp
  then have "spares I w w'" by (rule spares_trans [OF spares_same, rotated -1]) (simp_all add: clear_response_buffer_def)
  ultimately show ?thesis using c w' by (simp add: command_end_handle_def Let_def)
qed

lemma rx_end_ok:
  assumes inv: "rx_inv I w es ip xs T"
  shows "\<exists>w'. command_end_handle I r w = ok w' \<and> rx_inv I w' es ip [] None \<and> ctx w' = cleared (ctx w) \<and>
    trace w' = trace w @ task_events T r (ctx w) \<and> spares I w w' \<and> handed T r (ctx w) w w'"
proof -
  have I: "complete I" and st: "stack_rep w (byte_stack (ctx w)) ip 20 xs" and u: "urc_inv I w es"
    and b: "buf_ok (ctx w)" and n: "length (response (ctx w)) = 512"
    using inv rx_inv_interface [OF inv] by (auto simp: rx_inv_def task_state_def resp_text_def split: option.splits if_splits)
  have "\<exists>w'. command_end_handle I r w = ok w' \<and> ctx w' = cleared (ctx w) \<and>
      trace w' = trace w @ task_events T r (ctx w) \<and> kept is_table w w' \<and>
      stack_rep w' (byte_stack (ctx w)) ip 20 [] \<and> spares I w w' \<and> handed T r (ctx w) w w'"
  proof (cases T)
    case None
    then show ?thesis using rx_end_idle [of I w es ip xs r] inv by (simp add: task_events_def)
  next
    case (Some t)
    then have t: "task_ok w (current_send_task (ctx w)) t"
        "unat (response_length (ctx w)) \<le> length (response (ctx w))" "printable t (ctx w)"
      using inv rx_inv_printable [of I w es ip xs t] by (auto simp: rx_inv_def task_state_def resp_text_def split: if_splits)
    have "\<exists>k. heap w (byte_stack (ctx w)) = Some (O_Stack k)" using st by (auto simp: stack_rep_def)
    with command_end_ok [OF I t st, of r] show ?thesis
      using Some spares_end [OF t(1)] not_answer_cell [OF t(1)]
      by (auto simp: task_events_def handed_def intro: kept_mono)
  qed
  then obtain w' where w': "command_end_handle I r w = ok w'" "ctx w' = cleared (ctx w)"
      "trace w' = trace w @ task_events T r (ctx w)" "kept is_table w w'"
      "stack_rep w' (byte_stack (ctx w)) ip 20 []" "spares I w w'" "handed T r (ctx w) w w'" by blast
  have "urc_inv I w' es" using w'(2) by (intro kept_table_inv [OF u w'(4)]) (simp_all add: cleared_def)
  then have "rx_inv I w' es ip [] None"
    using w'(2,5) b n by (simp add: rx_inv_def task_state_def cleared_def buf_ok_def resp_text_def)
  then show ?thesis using w' by blast
qed

section \<open>One line\<close>

text \<open>
  The text of a received line, \<open>len\<close> bytes up to a NUL; the response after it; and what it
  says about the command.
\<close>

definition push_ctx :: "u8 list \<Rightarrow> size_t \<Rightarrow> atc_context \<Rightarrow> atc_context" where
  "push_ctx line len c =
     (if unat (response_length c) + unat len < 512
      then c\<lparr>response := cstr (response c) @ cstr (take (unat len) line) @
               0 # drop (Suc (length (cstr (response c)) + length (cstr (take (unat len) line)))) (response c),
             response_length := response_length c + len\<rparr>
      else c)"

definition verdict :: "u8 list \<Rightarrow> size_t \<Rightarrow> atc_result option" where
  "verdict line len =
     (if 2 \<le> unat len \<and> prefix [79, 75] (cstr line) then Some ATC_SUCCESS
      else if 5 \<le> unat len \<and> prefix [69, 82, 82, 79, 82] (cstr line) then Some ATC_ERROR
      else None)"

lemma push_ctx_simps [simp]:
  "line_buffer (push_ctx l n c) = line_buffer c" "line_buffer_index (push_ctx l n c) = line_buffer_index c"
  "current_send_task (push_ctx l n c) = current_send_task c" "byte_stack (push_ctx l n c) = byte_stack c"
  "urc_handler_list (push_ctx l n c) = urc_handler_list c" "urc_next_id (push_ctx l n c) = urc_next_id c"
  "rx_buffer (push_ctx l n c) = rx_buffer c"
  by (simp_all add: push_ctx_def)

lemma cstr_cat [simp]: "cstr (cstr a @ cstr b @ 0 # r) = cstr a @ cstr b"
  using cstr_append_nul [of "cstr a @ cstr b" r] by simp

lemma response_sum:
  assumes "unat n \<le> 255" and "unat m < 512"
  shows "unat (m + n :: size_t) = unat m + unat n"
  using assms by (simp add: unat_word_ariths)

lemma push_ok:
  assumes I: "complete I" and t: "resp_text (ctx w)" and n: "unat len \<le> 255" "unat len \<le> length line"
  shows "push_to_response_buffer I line len w = ok (upd_ctx (push_ctx line len) w)" and
    "resp_text (push_ctx line len (ctx w))"
proof -
  let ?c = "ctx w"
  have r: "length (response ?c) = 512" "length (cstr (response ?c)) \<le> unat (response_length ?c)"
      "unat (response_length ?c) < 512"
    using t by (auto simp: resp_text_def)
  have sum: "unat (response_length ?c + len) = unat (response_length ?c) + unat len"
    using response_sum n(1) r(3) by simp
  have lt: "(response_length ?c + len < ATC_RX_RESPONSE_MAX) = (unat (response_length ?c) + unat len < 512)"
    using sum by (simp add: word_less_nat_alt atc_constants)
  have k: "length (cstr (take (unat len) line)) \<le> unat len" by (rule length_cstr_take)
  have nul: "0 \<in> set (response ?c)" by (rule resp_text_nul [OF t])
  show "push_to_response_buffer I line len w = ok (upd_ctx (push_ctx line len) w)"
  proof (cases "unat (response_length ?c) + unat len < 512")
    case True
    then have "length (cstr (response ?c)) + length (cstr (take (unat len) line)) < length (response ?c)"
      using k r by simp
    from c_strncat_ok [OF nul n(2) this] show ?thesis using True lt
      by (simp add: push_to_response_buffer_def upd_ctx_def push_ctx_def)
  next
    case False
    then show ?thesis using lt I by (simp add: push_to_response_buffer_def upd_ctx_def push_ctx_def)
  qed
  show "resp_text (push_ctx line len ?c)"
  proof (cases "unat (response_length ?c) + unat len < 512")
    case True
    then show ?thesis using r k sum by (simp add: resp_text_def push_ctx_def)
  next
    case False
    then show ?thesis using t by (simp add: push_ctx_def)
  qed
qed

lemma markers_verdict:
  assumes "0 \<in> set line"
  shows "marker_loop I command_end_markers line len w =
    (case verdict line len of None \<Rightarrow> ok w | Some r \<Rightarrow> command_end_handle I r w)"
proof -
  have m: "c_strlen marker_ok = ok 2" "c_strlen marker_error = ok 5" "cstr marker_ok = [79, 75]"
      "cstr marker_error = [69, 82, 82, 79, 82]" "0 \<in> set marker_ok" "0 \<in> set marker_error"
    by (simp_all add: marker_ok_def marker_error_def cstr_def)
  have "c_strncmp_eq line marker_ok 2 = ok (prefix [79, 75] (cstr line))"
      "c_strncmp_eq line marker_error 5 = ok (prefix [69, 82, 82, 79, 82] (cstr line))"
    using c_strncmp_eq_prefix [OF assms m(5)] c_strncmp_eq_prefix [OF assms m(6)]
    unfolding m by (simp_all add: numeral_eq_Suc)
  then show ?thesis using m by (simp add: command_end_markers_def verdict_def)
qed

definition is_text_mode :: "send_task option \<Rightarrow> bool" where
  "is_text_mode T \<longleftrightarrow> (\<forall>t. T = Some t \<longrightarrow> tk_status t \<noteq> SEND_TASK_STATUS_BINARY)"

lemma text_mode_resp: "rx_inv I w es ip xs T \<Longrightarrow> is_text_mode T \<Longrightarrow> resp_text (ctx w)"
  by (auto simp: rx_inv_def task_state_def is_text_mode_def split: option.splits if_splits)

lemma rx_inv_push:
  assumes "rx_inv I w es ip xs T" "is_text_mode T" "unat len \<le> 255" "unat len \<le> length line"
  shows "rx_inv I (upd_ctx (push_ctx line len) w) es ip xs T"
proof -
  have r: "resp_text (push_ctx line len (ctx w))"
    using push_ok(2) [OF conjunct1 [OF rx_inv_interface [OF assms(1)]] text_mode_resp [OF assms(1,2)] assms(3,4)] .
  show ?thesis
    by (rule rx_inv_cong [OF assms(1)])
      (use r assms(1) in \<open>auto simp: rx_inv_def buf_ok_def resp_text_def\<close>)
qed

lemma normal_line_ok:
  assumes inv: "rx_inv I w es ip xs T" "is_text_mode T" and n: "unat len \<le> 255" "unat len \<le> length line"
    and nul: "0 \<in> set line"
  shows "\<exists>w'. normal_line_handle I line len w = ok w' \<and>
    (case verdict line len of
       None \<Rightarrow> w' = upd_ctx (push_ctx line len) w
     | Some r \<Rightarrow> rx_inv I w' es ip [] None \<and> ctx w' = cleared (push_ctx line len (ctx w)) \<and>
         trace w' = trace w @ task_events T r (push_ctx line len (ctx w)) \<and> spares I w w' \<and>
         handed T r (push_ctx line len (ctx w)) w w')"
proof -
  have I: "complete I" using rx_inv_interface [OF inv(1)] by simp
  let ?w = "upd_ctx (push_ctx line len) w"
  have run: "normal_line_handle I line len w =
      (case verdict line len of None \<Rightarrow> ok ?w | Some r \<Rightarrow> command_end_handle I r ?w)"
    using I push_ok(1) [OF I text_mode_resp [OF inv] n] markers_verdict [OF nul]
    by (simp add: normal_line_handle_def)
  show ?thesis
  proof (cases "verdict line len")
    case (Some r)
    have "spares I w ?w" by (rule spares_same) (simp_all add: push_ctx_def)
    moreover obtain w' where "command_end_handle I r ?w = ok w'" "rx_inv I w' es ip [] None" "ctx w' = cleared (ctx ?w)"
        "trace w' = trace ?w @ task_events T r (ctx ?w)" "spares I ?w w'" "handed T r (ctx ?w) ?w w'"
      using rx_end_ok [OF rx_inv_push [OF inv n], of r] by blast
    moreover have "handed T r (push_ctx line len (ctx w)) w w'" if "handed T r (ctx ?w) ?w w'" for w'
      by (rule handed_cong [OF that]) simp_all
    ultimately show ?thesis using run Some spares_trans by auto
  qed (use run in simp)
qed

text \<open>The whole line handler: ignored, unsolicited, or part of the response.\<close>

lemma line_handle_ok:
  assumes inv: "rx_inv I w es ip xs T" "is_text_mode T" and n: "unat len \<le> 255" "unat len \<le> length line"
    and nul: "0 \<in> set line"
  shows "\<exists>w'. line_handle I (Some line) len w = ok w' \<and>
    (if unat len \<le> 2 then w' = w
     else if \<exists>(a, e) \<in> set es. urc_match line e then w' = emits (urc_calls line es) w
     else case verdict line len of
         None \<Rightarrow> w' = upd_ctx (push_ctx line len) w
       | Some r \<Rightarrow> rx_inv I w' es ip [] None \<and> ctx w' = cleared (push_ctx line len (ctx w)) \<and>
           trace w' = trace w @ task_events T r (push_ctx line len (ctx w)) \<and> spares I w w' \<and>
         handed T r (push_ctx line len (ctx w)) w w')"
proof -
  have u: "urc_inv I w es" using inv(1) by (simp add: rx_inv_def)
  have I: "complete I" using rx_inv_interface [OF inv(1)] by simp
  have c: "(len \<le> 2) = (unat len \<le> 2)" by (simp add: word_le_nat_alt)
  have "urc_calls line es = []" if "\<not> (\<exists>(a, e) \<in> set es. urc_match line e)"
    using that by (force simp: urc_calls_def)
  then show ?thesis
    using I nul urc_line_handle_ok [OF u nul] normal_line_ok [OF inv n nul] c by (simp add: line_handle_def)
qed

section \<open>One byte\<close>

text \<open>
  The effect of a complete line \<open>ln\<close> (its newline included): \<open>w\<close> and \<open>w'\<close> are the
  worlds before and after \<open>line_handle\<close>.
\<close>

definition line_ends :: "urc_table \<Rightarrow> u8 list \<Rightarrow> atc_result option" where
  "line_ends es ln =
     (if length ln \<le> 2 \<or> (\<exists>(a, e) \<in> set es. urc_match (ln @ [0]) e) then None
      else verdict (ln @ [0]) (of_nat (length ln)))"

definition line_effect ::
  "'os atc_interface \<Rightarrow> urc_table \<Rightarrow> addr \<Rightarrow> send_task option \<Rightarrow> u8 list \<Rightarrow> 'os world \<Rightarrow> 'os world \<Rightarrow> bool" where
  "line_effect I es ip T ln w w' \<longleftrightarrow>
     (case line_ends es ln of
        Some r \<Rightarrow> rx_inv I w' es ip [] None \<and>
          ctx w' = cleared (push_ctx (ln @ [0]) (of_nat (length ln)) (ctx w)) \<and>
          trace w' = trace w @ task_events T r (push_ctx (ln @ [0]) (of_nat (length ln)) (ctx w)) \<and> spares I w w' \<and>
          handed T r (push_ctx (ln @ [0]) (of_nat (length ln)) (ctx w)) w w'
      | None \<Rightarrow>
          if length ln \<le> 2 then w' = w
          else if \<exists>(a, e) \<in> set es. urc_match (ln @ [0]) e then w' = emits (urc_calls (ln @ [0]) es) w
          else w' = upd_ctx (push_ctx (ln @ [0]) (of_nat (length ln))) w)"

definition pending :: "atc_context \<Rightarrow> u8 list" where
  "pending c = take (unat (line_buffer_index c)) (line_buffer c)"

lemma cstr_line: "cstr (ln @ 0 # rest) = cstr (ln @ [0])"
  by (induction ln) (auto simp: cstr_def)

lemma line_array:
  "urc_match (ln @ 0 # rest) e = urc_match (ln @ [0]) e"
  "urc_calls (ln @ 0 # rest) es = urc_calls (ln @ [0]) es"
  "verdict (ln @ 0 # rest) n = verdict (ln @ [0]) n"
  "unat n = length ln \<Longrightarrow> push_ctx (ln @ 0 # rest) n c = push_ctx (ln @ [0]) n c"
  unfolding urc_match_def urc_calls_def verdict_def push_ctx_def cstr_line [of ln rest] by simp_all

lemma line_handle_effect:
  assumes inv: "rx_inv I w es ip xs T" "is_text_mode T" and n: "length ln \<le> 255"
  shows "\<exists>w'. line_handle I (Some (ln @ 0 # rest)) (of_nat (length ln)) w = ok w' \<and> line_effect I es ip T ln w w'"
proof -
  have u: "unat (of_nat (length ln) :: size_t) = length ln" using n by (simp add: unat_of_nat)
  let ?n = "of_nat (length ln) :: size_t"
  have n1: "unat ?n \<le> 255" "unat ?n \<le> length (ln @ 0 # rest)" "0 \<in> set (ln @ 0 # rest)"
    using n u by simp_all
  obtain w' where w': "line_handle I (Some (ln @ 0 # rest)) ?n w = ok w'"
    "if unat ?n \<le> 2 then w' = w
     else if \<exists>(a, e) \<in> set es. urc_match (ln @ 0 # rest) e then w' = emits (urc_calls (ln @ 0 # rest) es) w
     else case verdict (ln @ 0 # rest) ?n of
         None \<Rightarrow> w' = upd_ctx (push_ctx (ln @ 0 # rest) ?n) w
       | Some r \<Rightarrow> rx_inv I w' es ip [] None \<and> ctx w' = cleared (push_ctx (ln @ 0 # rest) ?n (ctx w)) \<and>
           trace w' = trace w @ task_events T r (push_ctx (ln @ 0 # rest) ?n (ctx w)) \<and> spares I w w' \<and>
           handed T r (push_ctx (ln @ 0 # rest) ?n (ctx w)) w w'"
    using line_handle_ok [OF inv n1] by blast
  have push: "push_ctx (ln @ 0 # rest) ?n = push_ctx (ln @ [0]) ?n"
    by (rule ext) (rule line_array(4) [OF u])
  show ?thesis
  proof (intro exI [of _ w'] conjI)
    show "line_effect I es ip T ln w w'"
    proof (cases "length ln \<le> 2 \<or> (\<exists>(a, e) \<in> set es. urc_match (ln @ [0]) e)")
      case True
      then have "line_ends es ln = None" by (simp add: line_ends_def)
      then show ?thesis using w'(2) True
        unfolding line_effect_def u line_array(1,2) [of ln rest] by (cases "length ln \<le> 2") simp_all
    next
      case False
      then have "line_ends es ln = verdict (ln @ [0]) ?n" by (simp add: line_ends_def)
      then show ?thesis using w'(2) False
        unfolding line_effect_def u line_array(1,3) [of ln rest] push by (simp split: if_splits)
    qed
  qed (rule w'(1))
qed

text \<open>The effect keeps the invariant; a line that ends the command leaves no task.\<close>

lemma line_effect_inv:
  assumes "line_effect I es ip T ln w w'" and inv: "rx_inv I w es ip xs T" "is_text_mode T" and n: "length ln \<le> 255"
  shows "rx_inv I w' es ip (if line_ends es ln = None then xs else []) (if line_ends es ln = None then T else None)"
    and "line_buffer (ctx w') = line_buffer (ctx w)" and "line_buffer_index (ctx w') = line_buffer_index (ctx w)"
    and "rx_buffer (ctx w') = rx_buffer (ctx w)" and "spares I w w'"
proof -
  have u: "unat (of_nat (length ln) :: size_t) = length ln" using n by (simp add: unat_of_nat)
  have p: "rx_inv I (upd_ctx (push_ctx (ln @ [0]) (of_nat (length ln))) w) es ip xs T"
    using rx_inv_push [OF inv] u n by simp
  have e: "rx_inv I (emits ts w) es ip xs T" for ts
    by (rule rx_inv_cong [OF inv(1)])
      (use text_mode_resp [OF inv] inv(1) in \<open>auto simp: resp_text_def rx_inv_def\<close>)
  show "rx_inv I w' es ip (if line_ends es ln = None then xs else []) (if line_ends es ln = None then T else None)"
    using assms(1) inv(1) p e unfolding line_effect_def by (auto split: option.splits if_splits)
  show "line_buffer (ctx w') = line_buffer (ctx w)" "line_buffer_index (ctx w') = line_buffer_index (ctx w)"
    "rx_buffer (ctx w') = rx_buffer (ctx w)"
    using assms(1) unfolding line_effect_def by (auto simp: cleared_def split: option.splits if_splits)
  have s: "spares I w (emits ts w)" "spares I w (upd_ctx (push_ctx l m) w)" for ts l m
    by (rule spares_same; simp add: push_ctx_def)+
  show "spares I w w'"
    using assms(1) s unfolding line_effect_def by (auto split: option.splits if_splits)
qed

definition set_line :: "u8 list \<Rightarrow> u32 \<Rightarrow> 'os world \<Rightarrow> 'os world" where
  "set_line buf i w = upd_ctx (\<lambda>c. c\<lparr>line_buffer := buf, line_buffer_index := i\<rparr>) w"

lemma line_fields_swap:
  "c\<lparr>line_buffer_index := i, line_buffer := buf\<rparr> = c\<lparr>line_buffer := buf, line_buffer_index := i\<rparr>"
  by simp

lemma rx_inv_set_line:
  assumes "rx_inv I w es ip xs T" and "length buf = 256" and "unat i \<le> 255"
  shows "rx_inv I (set_line buf i w) es ip xs T"
proof -
  have "length (response (ctx w)) = 512" "unat (response_length (ctx w)) \<le> 512"
    using assms(1) by (auto simp: rx_inv_def task_state_def resp_text_def split: option.splits if_splits)
  moreover have "(\<forall>t. T = Some t \<longrightarrow> tk_status t \<noteq> SEND_TASK_STATUS_BINARY) \<longrightarrow> resp_text (ctx w)"
    using text_mode_resp [OF assms(1)] by (simp add: is_text_mode_def)
  ultimately show ?thesis
    using assms by (intro rx_inv_cong [OF assms(1)]) (auto simp: set_line_def buf_ok_def resp_text_def)
qed

text \<open>
  The byte handler: a full buffer swallows the byte, a byte other than a newline is
  appended to the pending line, a newline completes it and starts the next.
\<close>

text \<open>A byte that is no newline, and one that is, when there is room in the line buffer.\<close>

lemma byte_line_stored:
  assumes inv: "rx_inv I w es ip xs T" and room: "unat (line_buffer_index (ctx w)) < 255" and b: "b \<noteq> 10"
  shows "\<exists>buf. byte_line_handle I b w = ok (set_line buf (line_buffer_index (ctx w) + 1) w) \<and>
    pending (ctx (set_line buf (line_buffer_index (ctx w) + 1) w)) = pending (ctx w) @ [b] \<and>
    rx_inv I (set_line buf (line_buffer_index (ctx w) + 1) w) es ip xs T"
proof -
  let ?i = "line_buffer_index (ctx w)"
  let ?buf = "(line_buffer (ctx w))[unat ?i := b]"
  have n: "length (line_buffer (ctx w)) = 256" using inv by (simp add: rx_inv_def buf_ok_def)
  have i1: "unat (?i + 1) = Suc (unat ?i)" using room by (simp add: unat_word_ariths)
  have lt: "?i < ATC_RX_LINE_MAX_SIZE - 1" using room by (simp add: atc_constants word_less_nat_alt)
  have "byte_line_handle I b w = ok (set_line ?buf (?i + 1) w)"
    using room n lt b by (simp add: byte_line_handle_def Let_def set_line_def)
  moreover have "pending (ctx (set_line ?buf (?i + 1) w)) = pending (ctx w) @ [b]"
    using i1 room n by (simp add: pending_def set_line_def take_Suc_conv_app_nth)
  moreover have "rx_inv I (set_line ?buf (?i + 1) w) es ip xs T"
    using n room i1 by (intro rx_inv_set_line [OF inv]) simp_all
  ultimately show ?thesis by blast
qed

lemma byte_line_newline:
  assumes inv: "rx_inv I w es ip xs T" "is_text_mode T" and room: "unat (line_buffer_index (ctx w)) < 255"
  shows "\<exists>buf v. byte_line_handle I 10 w = ok (upd_ctx (\<lambda>c. c\<lparr>line_buffer_index := 0\<rparr>) v) \<and>
    rx_inv I (set_line buf (line_buffer_index (ctx w) + 1) w) es ip xs T \<and>
    line_effect I es ip T (pending (ctx w) @ [10]) (set_line buf (line_buffer_index (ctx w) + 1) w) v"
proof -
  let ?i = "line_buffer_index (ctx w)" and ?buf = "line_buffer (ctx w)" and ?ln = "pending (ctx w) @ [10]"
  have n: "length ?buf = 256" using inv(1) by (simp add: rx_inv_def buf_ok_def)
  have i1: "unat (?i + 1) = Suc (unat ?i)" using room by (simp add: unat_word_ariths)
  have lt: "?i < ATC_RX_LINE_MAX_SIZE - 1" using room by (simp add: atc_constants word_less_nat_alt)
  have take1: "take (Suc (unat ?i)) (?buf[unat ?i := 10]) = ?ln"
    using room n by (simp add: pending_def take_Suc_conv_app_nth)
  let ?arr = "(?buf[unat ?i := 10])[Suc (unat ?i) := 0]"
  have arr: "?arr = ?ln @ 0 # drop (Suc (Suc (unat ?i))) ?buf"
    using room n take1 by (subst upd_conv_take_nth_drop) (auto simp: drop_update_cancel)
  have l: "length ?ln = Suc (unat ?i)" using n room by (simp add: pending_def)
  then have idx: "of_nat (length ?ln) = ?i + 1" by (simp only: l i1 [symmetric]) simp
  let ?v = "set_line ?arr (?i + 1) w"
  have v: "rx_inv I ?v es ip xs T" using n room i1 by (intro rx_inv_set_line [OF inv(1)]) simp_all
  from line_handle_effect [OF v inv(2), of ?ln "drop (Suc (Suc (unat ?i))) ?buf"] l room obtain v' where
    v': "line_handle I (Some ?arr) (?i + 1) ?v = ok v'" "line_effect I es ip T ?ln ?v v'"
    unfolding arr idx by auto
  have "byte_line_handle I 10 w = ok (upd_ctx (\<lambda>c. c\<lparr>line_buffer_index := 0\<rparr>) v')"
    using room n lt i1 v'(1) by (simp add: byte_line_handle_def Let_def set_line_def upd_ctx_def line_fields_swap)
  then show ?thesis using v v'(2) by blast
qed

text \<open>The index is reset after the line: the invariant holds again.\<close>

lemma line_reset:
  assumes e: "line_effect I es ip T ln (set_line buf n w) v" and v: "rx_inv I (set_line buf n w) es ip xs T"
    and m: "is_text_mode T" "length ln \<le> 255"
  shows "rx_inv I (upd_ctx (\<lambda>c. c\<lparr>line_buffer_index := 0\<rparr>) v) es ip (if line_ends es ln = None then xs else [])
      (if line_ends es ln = None then T else None)"
    and "spares I w (upd_ctx (\<lambda>c. c\<lparr>line_buffer_index := 0\<rparr>) v)"
proof -
  note i = line_effect_inv [OF e v m]
  have "upd_ctx (\<lambda>c. c\<lparr>line_buffer_index := 0\<rparr>) v = set_line (line_buffer (ctx v)) 0 v"
    by (simp add: set_line_def upd_ctx_def)
  moreover have "length (line_buffer (ctx v)) = 256" using i(1) by (simp add: rx_inv_def buf_ok_def)
  ultimately show "rx_inv I (upd_ctx (\<lambda>c. c\<lparr>line_buffer_index := 0\<rparr>) v) es ip (if line_ends es ln = None then xs else [])
      (if line_ends es ln = None then T else None)"
    using rx_inv_set_line [OF i(1), of "line_buffer (ctx v)" 0] by simp
  show "spares I w (upd_ctx (\<lambda>c. c\<lparr>line_buffer_index := 0\<rparr>) v)"
  proof (rule spares_trans [OF spares_trans [OF _ i(5)]])
    show "spares I w (set_line buf n w)" "spares I v (upd_ctx (\<lambda>c. c\<lparr>line_buffer_index := 0\<rparr>) v)"
      by (rule spares_same; simp add: set_line_def)+
  qed
qed

lemma byte_line_ok:
  assumes inv: "rx_inv I w es ip xs T" "is_text_mode T"
  shows "\<exists>w'. byte_line_handle I b w = ok w' \<and>
    (if length (pending (ctx w)) = 255 then w' = w
     else if b \<noteq> 10
     then (\<exists>buf. w' = set_line buf (line_buffer_index (ctx w) + 1) w) \<and>
          pending (ctx w') = pending (ctx w) @ [b] \<and> rx_inv I w' es ip xs T
     else \<exists>buf v. line_effect I es ip T (pending (ctx w) @ [10])
            (set_line buf (line_buffer_index (ctx w) + 1) w) v \<and>
          w' = upd_ctx (\<lambda>c. c\<lparr>line_buffer_index := 0\<rparr>) v \<and> pending (ctx w') = [] \<and>
          rx_inv I w' es ip (if line_ends es (pending (ctx w) @ [10]) = None then xs else [])
            (if line_ends es (pending (ctx w) @ [10]) = None then T else None) \<and> spares I w w')"
proof -
  let ?i = "line_buffer_index (ctx w)"
  have I: "complete I" using rx_inv_interface [OF inv(1)] by simp
  have n: "length (line_buffer (ctx w)) = 256" "unat ?i \<le> 255" using inv(1) by (auto simp: rx_inv_def buf_ok_def)
  then have len: "length (pending (ctx w)) = unat ?i" by (simp add: pending_def)
  consider "unat ?i = 255" | "unat ?i < 255" "b \<noteq> 10" | "unat ?i < 255" "b = 10" using n(2) by linarith
  then show ?thesis
  proof cases
    case 1
    then have "\<not> ?i < ATC_RX_LINE_MAX_SIZE - 1" by (simp add: atc_constants word_less_nat_alt)
    then show ?thesis using I 1 len by (simp add: byte_line_handle_def Let_def)
  next
    case 2
    then show ?thesis using byte_line_stored [OF inv(1) 2] len by auto
  next
    case 3
    from byte_line_newline [OF inv 3(1)] obtain buf v where v:
      "byte_line_handle I 10 w = ok (upd_ctx (\<lambda>c. c\<lparr>line_buffer_index := 0\<rparr>) v)"
      "rx_inv I (set_line buf (?i + 1) w) es ip xs T" "line_effect I es ip T (pending (ctx w) @ [10]) (set_line buf (?i + 1) w) v"
      by blast
    have "length (pending (ctx w) @ [10]) \<le> 255" using 3(1) len by simp
    note r = line_reset [OF v(3,2) inv(2) this]
    have "pending (ctx (upd_ctx (\<lambda>c. c\<lparr>line_buffer_index := 0\<rparr>) v)) = []" by (simp add: pending_def)
    then show ?thesis using 3 len v(1,3) r
      by (intro exI [of _ "upd_ctx (\<lambda>c. c\<lparr>line_buffer_index := 0\<rparr>) v"]) auto
  qed
qed

end
