(* ===== verification/Recv_Prompt.thy ===== *)
theory Recv_Prompt
  imports Recv_Line
begin

text \<open>
  The prompt and binary modes of \<open>recv_data_handle.c\<close>: the last bytes received are kept in
  the prompt stack and compared, newest first, with the prompt from its end; after a match
  the following bytes are counted into the response until the wanted number is there.
\<close>

section \<open>Operations\<close>

text \<open>What is done on a complete match.\<close>

definition prompt_matched :: "'os atc_interface \<Rightarrow> 'os world \<Rightarrow> 'os world res" where
  "prompt_matched I w =
     rbind (stack_clear (byte_stack (ctx w)) None w) (\<lambda>w.
     rbind (get_task (current_send_task (ctx w)) w) (\<lambda>t.
     if tk_need_recv_len t \<noteq> 0
     then let w = clear_response_buffer w in
          rbind (get_task (current_send_task (ctx w)) w) (\<lambda>t.
          let w = put (current_send_task (ctx w)) (O_Task (t\<lparr>tk_status := SEND_TASK_STATUS_BINARY\<rparr>)) w in
          after (LOG_DEBUG I ''Prompt matched, start receiving binary data'' []) (ok w))
     else after (LOG_DEBUG I ''Prompt matched, no binary data to need receive'' [])
            (command_end_handle I ATC_SUCCESS w)))"

text \<open>The comparison loop; its condition reads \<open>context->current_send_task\<close> each time.\<close>

partial_function (option) prompt_loop :: "'os atc_interface \<Rightarrow> size_t \<Rightarrow> 'os world \<Rightarrow> 'os world res" where
  "prompt_loop I i w =
     rbind (get_task (current_send_task (ctx w)) w) (\<lambda>t.
     if i < tk_prompt_len t
     then rbind (stack_peek_at (byte_stack (ctx w)) i w) (\<lambda>stack_byte.
          if stack_byte = NULL then ok w
          else rbind (get_bytes (tk_prompt t) w) (\<lambda>p.
               rbind (arr_get p (unat (tk_prompt_len t - 1 - i))) (\<lambda>b.
               if (ucast stack_byte :: u8) \<noteq> b then ok w
               else if i = tk_prompt_len t - 1
               then rbind (prompt_matched I w) (prompt_loop I (i + 1))
               else prompt_loop I (i + 1) w)))
     else ok w)"

definition byte_prompt_handle :: "'os atc_interface \<Rightarrow> u8 \<Rightarrow> 'os world \<Rightarrow> 'os world res" where
  "byte_prompt_handle I byte w =
     rbind (stack_push_overwrite (byte_stack (ctx w)) (ucast byte) None w) (\<lambda>(pushed, w).
     after (if \<not> pushed then LOG_ERR I ''Failed to push byte to stack, stack full'' [] else ok ())
       (prompt_loop I 0 w))"

definition byte_binary_handle :: "'os atc_interface \<Rightarrow> u8 \<Rightarrow> 'os world \<Rightarrow> 'os world res" where
  "byte_binary_handle I byte w =
     (let current_send_task = current_send_task (ctx w) in
      if response_length (ctx w) < ATC_RX_RESPONSE_MAX
      then rbind (arr_set (response (ctx w)) (unat (response_length (ctx w))) byte) (\<lambda>r.
           let w = upd_ctx (\<lambda>c. c\<lparr>response := r, response_length := response_length c + 1\<rparr>) w in
           rbind (get_task current_send_task w) (\<lambda>t.
           if response_length (ctx w) \<ge> tk_need_recv_len t
           then after (LOG_DEBUG I ''Binary data received, length: %zu'' [Log_Int (uint (response_length (ctx w)))])
                  (command_end_handle I ATC_SUCCESS w)
           else ok w))
      else after (LOG_ERR I ''Response buffer overflow while receiving binary data'' []) (ok w))"

section \<open>Matching\<close>

abbreviation stack_bytes :: "u8 list \<Rightarrow> addr list" where
  "stack_bytes \<equiv> map ucast"

lemma ucast_u8_addr [simp]: "(ucast (ucast b :: addr) :: u8) = b" for b :: u8
  by (rule bit_word_eqI) (simp add: bit_simps)

lemma ucast_u8_zero [simp]: "((ucast b :: addr) = 0) = (b = 0)" for b :: u8
  using ucast_u8_addr [of b] by (metis ucast_0)

text \<open>The prompt of a task: the first \<open>prompt_len\<close> bytes at its pointer.\<close>

definition prompt_is :: "'os world \<Rightarrow> send_task \<Rightarrow> u8 list \<Rightarrow> bool" where
  "prompt_is w t p \<longleftrightarrow> tk_prompt t \<noteq> NULL \<and> length p = unat (tk_prompt_len t) \<and> p \<noteq> [] \<and>
     (\<exists>bs. heap w (tk_prompt t) = Some (O_Bytes (p @ bs)))"

definition prompt_seen :: "u8 list \<Rightarrow> u8 list \<Rightarrow> bool" where
  "prompt_seen p ys \<longleftrightarrow> 0 \<notin> set p \<and> suffix p ys"

lemma prompt_seen_iff:
  "prompt_seen p ys \<longleftrightarrow> length p \<le> length ys \<and> (\<forall>j < length p. rev ys ! j = rev p ! j \<and> rev p ! j \<noteq> 0)"
proof -
  have "0 \<notin> set p \<longleftrightarrow> (\<forall>j < length p. rev p ! j \<noteq> 0)"
    using in_set_conv_nth [of 0 "rev p"] by auto
  then show ?thesis by (auto simp: prompt_seen_def suffix_iff_nth_rev)
qed

text \<open>One turn of the loop, at the \<open>i\<close>-th byte from the end.\<close>

lemma prompt_loop_step:
  assumes p: "prompt_is w t p" and t: "task_ok w (current_send_task (ctx w)) t"
    and st: "stack_rep w (byte_stack (ctx w)) ip cap (stack_bytes ys)" and i: "i < length p"
  shows "prompt_loop I (of_nat i) w =
    (if i < length ys \<and> rev ys ! i = rev p ! i \<and> rev p ! i \<noteq> 0
     then if Suc i = length p then rbind (prompt_matched I w) (prompt_loop I (tk_prompt_len t))
          else prompt_loop I (of_nat (Suc i)) w
     else ok w)"
proof -
  have T: "get_task (current_send_task (ctx w)) w = ok t" using t by (simp add: task_ok_def)
  have n: "length p < 2 ^ 32" using p unsigned_less [of "tk_prompt_len t", where ?'a = nat] by (auto simp: prompt_is_def)
  have un: "unat (tk_prompt_len t) = length p" using p by (simp add: prompt_is_def)
  have ui: "unat (of_nat i :: size_t) = i" using i n by (simp add: unat_of_nat)
  have lt: "(of_nat i :: size_t) < tk_prompt_len t" using i ui un by (simp add: word_less_nat_alt)
  have u1: "unat (tk_prompt_len t - 1) = length p - 1" using i un by (subst unat_sub_le) auto
  then have fin: "(of_nat i :: size_t) = tk_prompt_len t - 1 \<longleftrightarrow> Suc i = length p"
    using i ui by (auto simp: word_unat_eq_iff)
  have inc: "(of_nat i :: size_t) + 1 = tk_prompt_len t" if "Suc i = length p"
    using fin that by (simp add: eq_diff_eq)
  show ?thesis
  proof (cases "i < length ys")
    case False
    then have "stack_peek_at (byte_stack (ctx w)) (of_nat i) w = ok NULL"
      using stack_peek_at_out [OF st, of "of_nat i"] ui by simp
    then show ?thesis using False T lt by (subst prompt_loop.simps) simp
  next
    case True
    then have peek: "stack_peek_at (byte_stack (ctx w)) (of_nat i) w = ok (ucast (rev ys ! i))"
      using stack_peek_at_in [OF st, of "of_nat i"] ui by (simp add: rev_map)
    obtain bs where bs: "tk_prompt t \<noteq> NULL" "heap w (tk_prompt t) = Some (O_Bytes (p @ bs))"
      using p by (auto simp: prompt_is_def)
    have idx: "unat (tk_prompt_len t - 1 - of_nat i) = length p - 1 - i"
      using i ui u1 by (subst unat_sub_le) auto
    have "length p - 1 - i < length p" using i by linarith
    then have "(p @ bs) ! (length p - 1 - i) = rev p ! i" using i by (simp add: rev_nth nth_append)
    moreover have "length p - 1 - i < length (p @ bs)" using i by (simp add: trans_less_add1)
    ultimately have get: "arr_get (p @ bs) (unat (tk_prompt_len t - 1 - of_nat i)) = ok (rev p ! i)"
      using idx by (simp del: length_append)
    show ?thesis using True T lt peek bs get fin inc
      by (subst prompt_loop.simps) (auto simp: add.commute)
  qed
qed

lemma prompt_loop_scan:
  assumes p: "prompt_is w t p" and t: "task_ok w (current_send_task (ctx w)) t"
    and st: "stack_rep w (byte_stack (ctx w)) ip cap (stack_bytes ys)"
  shows "i < length p \<Longrightarrow> i \<le> length ys \<Longrightarrow> \<forall>j < i. rev ys ! j = rev p ! j \<and> rev p ! j \<noteq> 0 \<Longrightarrow>
    prompt_loop I (of_nat i) w =
      (if prompt_seen p ys then rbind (prompt_matched I w) (prompt_loop I (tk_prompt_len t)) else ok w)"
proof (induction "length p - i" arbitrary: i)
  case (Suc d)
  note step = prompt_loop_step [OF p t st Suc.prems(1), of I]
  show ?case
  proof (cases "i < length ys \<and> rev ys ! i = rev p ! i \<and> rev p ! i \<noteq> 0")
    case False
    then have "\<not> prompt_seen p ys" using Suc.prems(1,2) by (auto simp: prompt_seen_iff)
    then show ?thesis using step False by simp
  next
    case same: True
    then have upto: "\<forall>j < Suc i. rev ys ! j = rev p ! j \<and> rev p ! j \<noteq> 0" using Suc.prems(3) by (simp add: less_Suc_eq)
    show ?thesis
    proof (cases "Suc i = length p")
      case True
      then have "prompt_seen p ys" using upto same by (simp add: prompt_seen_iff)
      then show ?thesis using step same True by simp
    next
      case False
      then show ?thesis using step same upto Suc.hyps(1) [of "Suc i"] Suc.hyps(2) Suc.prems(1) by simp
    qed
  qed
qed simp

section \<open>One byte in prompt mode\<close>

lemma last_n_map: "last_n k (map f xs) = map f (last_n k xs)"
  by (simp add: last_n_def drop_map)

lemma task_ok_kept:
  assumes "task_ok w p t" and "kept (\<lambda>ob. \<not> is_stack ob) w w'"
  shows "task_ok w' p t"
proof -
  note k = keptD [OF assms(2)]
  have "bytes_at w' q n" if "bytes_at w q n" for q n using that k by (fastforce simp: bytes_at_def)
  moreover have "sync_ok w' t" if "sync_ok w t" using that k by (fastforce simp: sync_ok_def)
  ultimately show ?thesis using assms(1) k by (auto simp: task_ok_def)
qed

lemma stack_objects:
  assumes "stack_rep w s ip cap xs" and "only_heap {s, ip} w w'"
  shows "kept (\<lambda>ob. \<not> is_stack ob) w w'"
  using assms(1) by (intro kept_only_heap [OF assms(2)]) (auto simp: stack_rep_def)

lemma rx_inv_stack:
  assumes inv: "rx_inv I w es ip xs T" and w': "only_heap {byte_stack (ctx w), ip} w w'"
    and st: "stack_rep w' (byte_stack (ctx w)) ip 20 xs'"
  shows "rx_inv I w' es ip xs' T"
proof -
  have c: "ctx w' = ctx w" using w' by (simp add: only_heap_def)
  have k: "kept (\<lambda>ob. \<not> is_stack ob) w w'" using inv stack_objects [OF _ w'] by (auto simp: rx_inv_def)
  have "kept is_table w w'" by (rule kept_mono [OF k]) (case_tac ob, auto)
  then have "urc_inv I w' es" using inv c by (auto simp: rx_inv_def intro: kept_table_inv [of I w es w'])
  moreover have "task_state w' T"
  proof (cases T)
    case (Some t)
    then have "task_ok w (current_send_task (ctx w)) t" using inv by (simp add: rx_inv_def task_state_def)
    from task_ok_kept [OF this k] show ?thesis using inv c Some by (simp add: rx_inv_def task_state_def)
  qed (use inv c in \<open>simp add: rx_inv_def task_state_def\<close>)
  ultimately show ?thesis using inv st c by (simp add: rx_inv_def)
qed

lemma prompt_is_kept: "prompt_is w t p \<Longrightarrow> kept (\<lambda>ob. \<not> is_stack ob) w w' \<Longrightarrow> prompt_is w' t p"
  unfolding prompt_is_def using keptD by fastforce

text \<open>The push of the new byte and the comparison with the prompt.\<close>

lemma byte_prompt_scan:
  assumes inv: "rx_inv I w es ip (stack_bytes ys) (Some t)" and p: "prompt_is w t p"
  shows "\<exists>w1. rx_inv I w1 es ip (stack_bytes (last_n 20 (ys @ [b]))) (Some t) \<and> ctx w1 = ctx w \<and>
    trace w1 = trace w \<and> prompt_is w1 t p \<and> kept is_caller w w1 \<and> spares I w w1 \<and>
    byte_prompt_handle I b w =
      (if prompt_seen p (last_n 20 (ys @ [b]))
       then rbind (prompt_matched I w1) (prompt_loop I (tk_prompt_len t)) else ok w1)"
proof -
  let ?ys = "last_n 20 (ys @ [b])"
  have st: "stack_rep w (byte_stack (ctx w)) ip 20 (stack_bytes ys)" using inv by (simp add: rx_inv_def)
  from stack_push_overwrite_rep [OF st, of "ucast b"] obtain w1 where w1:
    "stack_push_overwrite (byte_stack (ctx w)) (ucast b) None w = ok (True, w1)"
    "stack_rep w1 (byte_stack (ctx w)) ip 20 (stack_bytes ?ys)" "only_heap {byte_stack (ctx w), ip} w w1"
    by (auto simp: last_n_map [symmetric])
  have inv1: "rx_inv I w1 es ip (stack_bytes ?ys) (Some t)" by (rule rx_inv_stack [OF inv w1(3,2)])
  have c: "ctx w1 = ctx w" "trace w1 = trace w" using w1(3) by (simp_all add: only_heap_def)
  have p1: "prompt_is w1 t p" by (rule prompt_is_kept [OF p stack_objects [OF st w1(3)]])
  have t1: "task_ok w1 (current_send_task (ctx w1)) t" using inv1 by (simp add: rx_inv_def task_state_def)
  have "p \<noteq> []" using p by (simp add: prompt_is_def)
  then have ne: "0 < length p" by simp
  have "prompt_loop I 0 w1 = (if prompt_seen p ?ys then rbind (prompt_matched I w1) (prompt_loop I (tk_prompt_len t)) else ok w1)"
    using prompt_loop_scan [OF p1 t1 _ ne, of ip 20 ?ys I] w1(2) c by simp
  moreover have "kept is_caller w w1" by (rule kept_mono [OF stack_objects [OF st w1(3)]]) (case_tac ob, auto)
  ultimately show ?thesis using inv1 c p1 w1 spares_stack [OF st w1(2,3)]
    by (intro exI [of _ w1]) (simp add: byte_prompt_handle_def)
qed

definition start_binary :: "atc_context \<Rightarrow> atc_context" where
  "start_binary c = c\<lparr>response := replicate (length (response c)) 0, response_length := 0\<rparr>"

text \<open>The task is switched to binary reception: its cell, and the response, are the only ones written.\<close>

lemma switch_to_binary:
  assumes inv: "rx_inv I w es ip [] (Some t)"
    and w': "w' = put (current_send_task (ctx w)) (O_Task (t\<lparr>tk_status := SEND_TASK_STATUS_BINARY\<rparr>)) (clear_response_buffer w)"
  shows "rx_inv I w' es ip [] (Some (t\<lparr>tk_status := SEND_TASK_STATUS_BINARY\<rparr>))" and "ctx w' = start_binary (ctx w)"
    and "spares I w w'" and "kept is_caller w w'"
proof -
  let ?p = "current_send_task (ctx w)" and ?t = "t\<lparr>tk_status := SEND_TASK_STATUS_BINARY\<rparr>"
  have t: "task_ok w ?p t" "length (response (ctx w)) = 512"
    using inv by (auto simp: rx_inv_def task_state_def resp_text_def split: if_splits)
  then have T: "heap w ?p = Some (O_Task t)" "?p \<noteq> NULL" by (auto simp: task_ok_def)
  have h: "heap w' = (heap w)(?p \<mapsto> O_Task ?t)" and o: "os w' = os w"
    by (simp_all add: w' clear_response_buffer_def)
  show c: "ctx w' = start_binary (ctx w)" by (simp add: w' clear_response_buffer_def start_binary_def)
  show "kept is_caller w w'" using T by (auto intro: kept_upd [OF h])
  have k: "kept is_table w w'" "kept is_stack w w'" using T by (auto intro: kept_upd [OF h])
  have "urc_inv I w' es"
    by (rule kept_table_inv [OF _ k(1)]) (use inv c in \<open>auto simp: rx_inv_def start_binary_def\<close>)
  moreover have "stack_rep w' (byte_stack (ctx w)) ip 20 []"
    by (rule kept_stack_rep [OF _ k(2)]) (use inv in \<open>simp add: rx_inv_def\<close>)
  moreover have ok: "task_ok w' ?p ?t"
  proof -
    have "bytes_at w' q n" if "bytes_at w q n" for q n using that T h by (auto simp: bytes_at_def)
    moreover have "sync_ok w' ?t" if "sync_ok w t" using that T unfolding sync_ok_def h by auto
    ultimately show ?thesis using t(1) T h by (simp add: task_ok_def)
  qed
  ultimately show "rx_inv I w' es ip [] (Some ?t)"
    using inv c t(2) by (simp add: rx_inv_def task_state_def start_binary_def buf_ok_def)
  have own: "own w = {?p, tk_data t, tk_prompt t} - {NULL}" "own w' = {?p, tk_data t, tk_prompt t} - {NULL}"
    using own_task [OF t(1)] own_task [of w' ?t] ok c by (simp_all add: start_binary_def)
  have "callers_kept w w'" using T unfolding callers_kept_def h by auto
  then show "spares I w w'" using T own c o unfolding spares_def h by (auto simp: start_binary_def)
qed

lemma prompt_matched_binary:
  assumes inv: "rx_inv I w es ip xs (Some t)" and need: "tk_need_recv_len t \<noteq> 0"
  shows "\<exists>w'. prompt_matched I w = ok w' \<and>
    rx_inv I w' es ip [] (Some (t\<lparr>tk_status := SEND_TASK_STATUS_BINARY\<rparr>)) \<and>
    ctx w' = start_binary (ctx w) \<and> trace w' = trace w \<and> spares I w w' \<and> kept is_caller w w'"
proof -
  let ?s = "byte_stack (ctx w)" and ?p = "current_send_task (ctx w)"
  let ?t = "t\<lparr>tk_status := SEND_TASK_STATUS_BINARY\<rparr>"
  have I: "complete I" using rx_inv_interface [OF inv] by simp
  have st: "stack_rep w ?s ip 20 xs" using inv by (simp add: rx_inv_def)
  from stack_clear_rep [OF st] obtain w1 where w1: "stack_clear ?s None w = ok w1"
      "stack_rep w1 ?s ip 20 []" "only_heap {?s, ip} w w1"
    by (auto intro: only_heap_mono)
  have inv1: "rx_inv I w1 es ip [] (Some t)" by (rule rx_inv_stack [OF inv w1(3,2)])
  have c: "ctx w1 = ctx w" "trace w1 = trace w" using w1(3) by (simp_all add: only_heap_def)
  have T: "heap w1 ?p = Some (O_Task t)" "?p \<noteq> NULL" using inv1 c by (simp_all add: rx_inv_def task_state_def task_ok_def)
  let ?w = "put ?p (O_Task ?t) (clear_response_buffer w1)"
  have run: "prompt_matched I w = ok ?w"
    using I w1(1) T c need by (simp add: prompt_matched_def Let_def clear_response_buffer_def)
  note b = switch_to_binary [OF inv1, of ?w, unfolded c(1), OF refl]
  have "kept is_caller w w1" by (rule kept_mono [OF stack_objects [OF st w1(3)]]) (case_tac ob, auto)
  then have "kept is_caller w ?w" using b(4) by (rule kept_trans)
  moreover have "spares I w ?w" by (rule spares_trans [OF spares_stack [OF st w1(2,3)] b(3)])
  moreover have "trace ?w = trace w" using c(2) by (simp add: clear_response_buffer_def)
  ultimately show ?thesis using run b(1,2) by (intro exI [of _ ?w]) simp
qed

text \<open>A byte in prompt mode, when data is to follow the prompt.\<close>

lemma byte_prompt_ok:
  assumes inv: "rx_inv I w es ip (stack_bytes ys) (Some t)" and p: "prompt_is w t p"
    and need: "tk_need_recv_len t \<noteq> 0"
  shows "\<exists>w'. byte_prompt_handle I b w = ok w' \<and> trace w' = trace w \<and> spares I w w' \<and> kept is_caller w w' \<and>
    (if prompt_seen p (last_n 20 (ys @ [b]))
     then rx_inv I w' es ip [] (Some (t\<lparr>tk_status := SEND_TASK_STATUS_BINARY\<rparr>)) \<and> ctx w' = start_binary (ctx w)
     else rx_inv I w' es ip (stack_bytes (last_n 20 (ys @ [b]))) (Some t) \<and> ctx w' = ctx w \<and> prompt_is w' t p)"
proof -
  from byte_prompt_scan [OF inv p, of b] obtain w1 where w1:
    "rx_inv I w1 es ip (stack_bytes (last_n 20 (ys @ [b]))) (Some t)" "ctx w1 = ctx w" "trace w1 = trace w"
    "prompt_is w1 t p" "spares I w w1" "kept is_caller w w1"
    "byte_prompt_handle I b w =
      (if prompt_seen p (last_n 20 (ys @ [b]))
       then rbind (prompt_matched I w1) (prompt_loop I (tk_prompt_len t)) else ok w1)" by blast
  show ?thesis
  proof (cases "prompt_seen p (last_n 20 (ys @ [b]))")
    case True
    from prompt_matched_binary [OF w1(1) need] obtain w' where w':
      "prompt_matched I w1 = ok w'" "rx_inv I w' es ip [] (Some (t\<lparr>tk_status := SEND_TASK_STATUS_BINARY\<rparr>))"
      "ctx w' = start_binary (ctx w1)" "trace w' = trace w1" "spares I w1 w'" "kept is_caller w1 w'" by blast
    then have "get_task (current_send_task (ctx w')) w' = ok (t\<lparr>tk_status := SEND_TASK_STATUS_BINARY\<rparr>)"
      by (simp add: rx_inv_def task_state_def task_ok_def)
    then have "prompt_loop I (tk_prompt_len t) w' = ok w'" by (simp add: prompt_loop.simps)
    then show ?thesis using True w1 w' spares_trans [OF w1(5) w'(5)] kept_trans [OF w1(6) w'(6)] by simp
  qed (use w1 in simp)
qed

text \<open>
  When no data is to follow, a match ends the command and the loop then reads the task
  through the null pointer.
\<close>

lemma byte_prompt_zero:
  assumes inv: "rx_inv I w es ip (stack_bytes ys) (Some t)" and p: "prompt_is w t p"
    and need: "tk_need_recv_len t = 0"
  shows "byte_prompt_handle I b w = fail NullDeref \<longleftrightarrow> prompt_seen p (last_n 20 (ys @ [b]))"
proof -
  from byte_prompt_scan [OF inv p, of b] obtain w1 where w1:
    "rx_inv I w1 es ip (stack_bytes (last_n 20 (ys @ [b]))) (Some t)" "ctx w1 = ctx w" "trace w1 = trace w"
    "byte_prompt_handle I b w =
      (if prompt_seen p (last_n 20 (ys @ [b]))
       then rbind (prompt_matched I w1) (prompt_loop I (tk_prompt_len t)) else ok w1)" by blast
  have st: "stack_rep w1 (byte_stack (ctx w1)) ip 20 (stack_bytes (last_n 20 (ys @ [b])))"
    using w1(1) by (simp add: rx_inv_def)
  from stack_clear_rep [OF st] obtain w2 where w2: "stack_clear (byte_stack (ctx w1)) None w1 = ok w2"
      "stack_rep w2 (byte_stack (ctx w1)) ip 20 []" "only_heap {byte_stack (ctx w1), ip} w1 w2"
    by (auto intro: only_heap_mono)
  have inv2: "rx_inv I w2 es ip [] (Some t)" by (rule rx_inv_stack [OF w1(1) w2(3,2)])
  then have T: "get_task (current_send_task (ctx w2)) w2 = ok t" by (simp add: rx_inv_def task_state_def task_ok_def)
  from rx_end_ok [OF inv2, of ATC_SUCCESS] obtain w3 where w3:
    "command_end_handle I ATC_SUCCESS w2 = ok w3" "ctx w3 = cleared (ctx w2)" by blast
  have "prompt_matched I w1 = ok w3"
    using w2(1) T need w3(1) rx_inv_interface [OF inv] by (simp add: prompt_matched_def)
  moreover have "prompt_loop I (tk_prompt_len t) w3 = fail NullDeref"
    using w3(2) by (simp add: prompt_loop.simps cleared_def)
  ultimately show ?thesis using w1(4) by auto
qed

section \<open>One byte in binary mode\<close>

definition push_byte :: "u8 \<Rightarrow> atc_context \<Rightarrow> atc_context" where
  "push_byte b c = c\<lparr>response := (response c)[unat (response_length c) := b], response_length := response_length c + 1\<rparr>"

lemma byte_binary_ok:
  assumes inv: "rx_inv I w es ip xs (Some t)" and bin: "tk_status t = SEND_TASK_STATUS_BINARY"
  shows "\<exists>w'. byte_binary_handle I b w = ok w' \<and>
    (if unat (response_length (ctx w)) = 512 then w' = w
     else if Suc (unat (response_length (ctx w))) \<ge> unat (tk_need_recv_len t)
     then rx_inv I w' es ip [] None \<and> ctx w' = cleared (push_byte b (ctx w)) \<and>
          trace w' = trace w @ end_events t ATC_SUCCESS (push_byte b (ctx w)) \<and> spares I w w' \<and>
          handed (Some t) ATC_SUCCESS (push_byte b (ctx w)) w w'
     else rx_inv I w' es ip xs (Some t) \<and> w' = upd_ctx (push_byte b) w)"
proof -
  let ?n = "response_length (ctx w)"
  have I: "complete I" using rx_inv_interface [OF inv] by simp
  have r: "length (response (ctx w)) = 512" "unat ?n \<le> 512"
    using inv bin by (auto simp: rx_inv_def task_state_def)
  have lt: "(?n < ATC_RX_RESPONSE_MAX) = (unat ?n < 512)" by (simp add: atc_constants word_less_nat_alt)
  show ?thesis
  proof (cases "unat ?n = 512")
    case True
    then show ?thesis using I lt by (simp add: byte_binary_handle_def Let_def)
  next
    case False
    then have n: "unat ?n < 512" using r by simp
    then have n1: "unat (?n + 1) = Suc (unat ?n)" by (simp add: unat_word_ariths)
    let ?w = "upd_ctx (push_byte b) w"
    have invw: "rx_inv I ?w es ip xs (Some t)"
      by (rule rx_inv_cong [OF inv]) (use r n n1 bin inv in \<open>auto simp: push_byte_def rx_inv_def buf_ok_def\<close>)
    then have "get_task (current_send_task (ctx w)) ?w = ok t"
      by (simp add: rx_inv_def task_state_def task_ok_def push_byte_def)
    then have run: "byte_binary_handle I b w =
        (if tk_need_recv_len t \<le> ?n + 1 then command_end_handle I ATC_SUCCESS ?w else ok ?w)"
      using I n r lt by (simp add: byte_binary_handle_def Let_def push_byte_def upd_ctx_def)
    have le: "(tk_need_recv_len t \<le> ?n + 1) = (unat (tk_need_recv_len t) \<le> Suc (unat ?n))"
      by (simp add: word_le_nat_alt n1)
    have "spares I w ?w" by (rule spares_same) (simp_all add: push_byte_def)
    then show ?thesis
      using run le False invw rx_end_ok [OF invw, of ATC_SUCCESS] spares_trans handed_cong [of "Some t" ATC_SUCCESS "ctx ?w" ?w _ w]
      by (auto simp: task_events_def)
  qed
qed

end
