(* ===== verification/Recv_Data.thy ===== *)
theory Recv_Data
  imports Recv_Prompt
begin

text \<open>
  \<open>recv_data_handle.c\<close>: the loop that empties the receive ring into the byte handlers,
  the interrupt entry point that fills it, and the initialisation; then what a sequence of
  received bytes does, whatever the moments at which it arrives.
\<close>

section \<open>Operations\<close>

text \<open>The body of the loop: the byte goes to the handler of the current task's state.\<close>

definition handle_byte :: "'os atc_interface \<Rightarrow> u8 \<Rightarrow> 'os world \<Rightarrow> 'os world res" where
  "handle_byte I byte w =
     (if current_send_task (ctx w) \<noteq> NULL
      then rbind (get_task (current_send_task (ctx w)) w) (\<lambda>t.
           case tk_status t of
             SEND_TASK_STATUS_LINE_RECV \<Rightarrow> byte_line_handle I byte w
           | SEND_TASK_STATUS_PROMPT \<Rightarrow> byte_prompt_handle I byte w
           | SEND_TASK_STATUS_BINARY \<Rightarrow> byte_binary_handle I byte w)
      else byte_line_handle I byte w)"

definition with_rx :: "ring_buffer \<Rightarrow> 'os world \<Rightarrow> 'os world" where
  "with_rx h w = upd_ctx (\<lambda>c. c\<lparr>rx_buffer := h\<rparr>) w"

partial_function (option) recv_data_handle :: "'os atc_interface \<Rightarrow> 'os world \<Rightarrow> 'os world res" where
  "recv_data_handle I w =
     rbind (ring_buffer_read (Some (rx_buffer (ctx w))) True) (\<lambda>(r, byte, h).
     if r \<noteq> 0
     then rbind (the_init byte) (\<lambda>byte.
          after (log_dump I ''[RECV]:'' [byte])
            (rbind (handle_byte I byte (with_rx (the h) w)) (recv_data_handle I)))
     else ok w)"

text \<open>
  Called in the receive interrupt.  The bytes are offered to the ring one by one; the wake
  semaphore is given only when all of them were taken.
\<close>

definition atc_receive_data ::
  "'os atc_interface \<Rightarrow> u8 list option \<Rightarrow> size_t \<Rightarrow> 'os world \<Rightarrow> (int \<times> 'os world) res" where
  "atc_receive_data I data len w =
     (if data = None \<or> len = 0 then ok (0, w)
      else rbind (mem_read (the data) (unat len)) (\<lambda>bytes.
           rbind (write_loop ring_buffer_write (Some (rx_buffer (ctx w))) bytes 0) (\<lambda>(all, count, h).
           let w = with_rx (the h) w in
           if all then rbind (os_sem_give_isr I (wake_semaphore (ctx w)) w) (\<lambda>w. ok (count, w))
           else ok (count, w))))"

text \<open>\<open>rx_buffer_data\<close> is the array of that name in the context.\<close>

definition recv_data_init ::
  "'os atc_interface \<Rightarrow> u8 list \<Rightarrow> 'os world \<Rightarrow> (atc_result \<times> 'os world) res" where
  "recv_data_init I rx_buffer_data w =
     (case ring_buffer_init (Some (rx_buffer (ctx w))) (Some rx_buffer_data) (of_nat (length rx_buffer_data)) of
        (ret, h) \<Rightarrow>
          let w = with_rx (the h) w in
          if ret = 0 then after (LOG_ERR I ''Failed to initialize ring buffer'' []) (ok (ATC_ERROR, w))
          else rbind (stack_create I ATC_PROMPT_STACK_MAX_DEPTH w) (\<lambda>(s, w).
               let w = upd_ctx (\<lambda>c. c\<lparr>byte_stack := s\<rparr>) w in
               if s = NULL then after (LOG_ERR I ''Failed to create byte stack'' []) (ok (ATC_ERROR, w))
               else ok (ATC_SUCCESS, w)))"

section \<open>Safety of one byte\<close>

lemma with_rx_simps [simp]:
  "heap (with_rx h w) = heap w" "os (with_rx h w) = os w" "trace (with_rx h w) = trace w"
  "ctx (with_rx h w) = (ctx w)\<lparr>rx_buffer := h\<rparr>"
  by (simp_all add: with_rx_def)

lemma rx_inv_resp:
  assumes "rx_inv I w es ip xs T"
  shows "length (response (ctx w)) = 512" and "unat (response_length (ctx w)) \<le> 512"
  using assms by (auto simp: rx_inv_def task_state_def resp_text_def split: option.splits if_splits)

lemma rx_inv_with_rx_imp:
  assumes "rx_inv I w es ip xs T"
  shows "rx_inv I (with_rx h w) es ip xs T"
  by (rule rx_inv_cong [OF assms])
    (use assms rx_inv_resp [OF assms] text_mode_resp [OF assms] in
      \<open>auto simp: rx_inv_def buf_ok_def is_text_mode_def resp_text_def\<close>)

lemma with_rx_back: "with_rx (rx_buffer (ctx w)) (with_rx h w) = w"
  by (simp add: with_rx_def upd_ctx_def)

lemma rx_inv_with_rx [simp]: "rx_inv I (with_rx h w) es ip xs T = rx_inv I w es ip xs T"
  using rx_inv_with_rx_imp [of I "with_rx h w" es ip xs T "rx_buffer (ctx w)"] rx_inv_with_rx_imp [of I w es ip xs T h]
  by (auto simp: with_rx_back)

lemma prompt_is_with_rx [simp]: "prompt_is (with_rx h w) t p = prompt_is w t p"
  by (simp add: prompt_is_def)

text \<open>
  The states in which receiving is safe: the invariant, and in prompt mode a prompt and a
  number of bytes to follow it.
\<close>

definition prompt_ready :: "'os world \<Rightarrow> send_task option \<Rightarrow> bool" where
  "prompt_ready w T \<longleftrightarrow> (\<forall>t. T = Some t \<longrightarrow> tk_status t = SEND_TASK_STATUS_PROMPT \<longrightarrow>
     tk_need_recv_len t \<noteq> 0 \<and> (\<exists>p. prompt_is w t p))"

definition rx_good :: "'os atc_interface \<Rightarrow> urc_table \<Rightarrow> 'os world \<Rightarrow> bool" where
  "rx_good I es w \<longleftrightarrow> (\<exists>ip ys T. rx_inv I w es ip (stack_bytes ys) T \<and> prompt_ready w T)"

lemma rx_good_interface: "rx_good I es w \<Longrightarrow> complete I"
  by (auto simp: rx_good_def dest: rx_inv_interface)

lemma rx_good_with_rx [simp]: "rx_good I es (with_rx h w) = rx_good I es w"
  by (simp add: rx_good_def prompt_ready_def)

lemma handle_byte_mode:
  assumes "rx_inv I w es ip xs T"
  shows "handle_byte I b w =
    (case T of None \<Rightarrow> byte_line_handle I b w
     | Some t \<Rightarrow> (case tk_status t of
             SEND_TASK_STATUS_LINE_RECV \<Rightarrow> byte_line_handle I b w
           | SEND_TASK_STATUS_PROMPT \<Rightarrow> byte_prompt_handle I b w
           | SEND_TASK_STATUS_BINARY \<Rightarrow> byte_binary_handle I b w))"
  using assms by (auto simp: rx_inv_def task_state_def handle_byte_def task_ok_def split: option.splits)

definition line_mode :: "send_task option \<Rightarrow> bool" where
  "line_mode T \<longleftrightarrow> (\<forall>t. T = Some t \<longrightarrow> tk_status t = SEND_TASK_STATUS_LINE_RECV)"

lemma line_mode_text [simp]: "line_mode T \<Longrightarrow> is_text_mode T"
  by (simp add: line_mode_def is_text_mode_def)

lemma line_mode_ready [simp]: "line_mode T \<Longrightarrow> prompt_ready w T"
  by (simp add: line_mode_def prompt_ready_def)

lemma line_mode_None [simp]: "line_mode None"
  by (simp add: line_mode_def)

lemma handle_byte_line: "rx_inv I w es ip xs T \<Longrightarrow> line_mode T \<Longrightarrow> handle_byte I b w = byte_line_handle I b w"
  by (auto simp: handle_byte_mode line_mode_def split: option.splits)

text \<open>In line mode a byte leaves the invariant, and the ring, as it was.\<close>

lemma handle_byte_line_good:
  assumes inv: "rx_inv I w es ip (stack_bytes ys) T" and m: "line_mode T"
  shows "\<exists>w'. handle_byte I b w = ok w' \<and> rx_good I es w' \<and> rx_buffer (ctx w') = rx_buffer (ctx w) \<and> spares I w w'"
proof -
  from byte_line_ok [OF inv line_mode_text [OF m], of b] obtain w' where
    w': "byte_line_handle I b w = ok w'"
    "if length (pending (ctx w)) = 255 then w' = w
     else if b \<noteq> 10
     then (\<exists>buf. w' = set_line buf (line_buffer_index (ctx w) + 1) w) \<and>
          pending (ctx w') = pending (ctx w) @ [b] \<and> rx_inv I w' es ip (stack_bytes ys) T
     else \<exists>buf v. line_effect I es ip T (pending (ctx w) @ [10])
            (set_line buf (line_buffer_index (ctx w) + 1) w) v \<and>
          w' = upd_ctx (\<lambda>c. c\<lparr>line_buffer_index := 0\<rparr>) v \<and> pending (ctx w') = [] \<and>
          rx_inv I w' es ip (if line_ends es (pending (ctx w) @ [10]) = None then stack_bytes ys else [])
            (if line_ends es (pending (ctx w) @ [10]) = None then T else None) \<and> spares I w w'" by blast
  have "rx_good I es w'" if "rx_inv I w' es ip (stack_bytes zs) S" "line_mode S" for zs S
    using that unfolding rx_good_def by (metis line_mode_ready)
  note good = this [of ys T] this [of "[]" None]
  have rx: "rx_buffer (ctx v) = rx_buffer (ctx w)" if "line_effect I es ip T ln (set_line buf i w) v" for ln buf i v
    using that unfolding line_effect_def
    by (auto simp: cleared_def set_line_def split: option.splits if_splits)
  show ?thesis
  proof (cases "length (pending (ctx w)) = 255 \<or> b \<noteq> 10")
    case True
    have "spares I w (set_line buf i w)" for buf i by (rule spares_same) (simp_all add: set_line_def)
    then show ?thesis using True w' good(1) inv m handle_byte_line [OF inv m]
      by (auto simp: set_line_def split: if_splits)
  next
    case False
    then obtain buf v where v: "line_effect I es ip T (pending (ctx w) @ [10])
            (set_line buf (line_buffer_index (ctx w) + 1) w) v" "w' = upd_ctx (\<lambda>c. c\<lparr>line_buffer_index := 0\<rparr>) v"
          "rx_inv I w' es ip (if line_ends es (pending (ctx w) @ [10]) = None then stack_bytes ys else [])
            (if line_ends es (pending (ctx w) @ [10]) = None then T else None)" "spares I w w'"
      using w'(2) by auto
    have "rx_good I es w'"
      using v(3) good m by (cases "line_ends es (pending (ctx w) @ [10])") auto
    then show ?thesis using w'(1) rx [OF v(1)] v(2,4) handle_byte_line [OF inv m] by simp
  qed
qed

lemma rx_goodI: "rx_inv I w es ip (stack_bytes ys) T \<Longrightarrow> prompt_ready w T \<Longrightarrow> rx_good I es w"
  unfolding rx_good_def by blast

lemma handle_byte_prompt_good:
  assumes inv: "rx_inv I w es ip (stack_bytes ys) (Some t)" and p: "prompt_ready w (Some t)"
    and st: "tk_status t = SEND_TASK_STATUS_PROMPT"
  shows "\<exists>w'. handle_byte I b w = ok w' \<and> rx_good I es w' \<and> rx_buffer (ctx w') = rx_buffer (ctx w) \<and> spares I w w'"
proof -
  obtain q where q: "prompt_is w t q" "tk_need_recv_len t \<noteq> 0" using p st by (auto simp: prompt_ready_def)
  let ?seen = "prompt_seen q (last_n 20 (ys @ [b]))"
  from byte_prompt_ok [OF inv q, of b] obtain w' where w': "byte_prompt_handle I b w = ok w'" "spares I w w'"
    "if ?seen then rx_inv I w' es ip [] (Some (t\<lparr>tk_status := SEND_TASK_STATUS_BINARY\<rparr>)) \<and> ctx w' = start_binary (ctx w)
     else rx_inv I w' es ip (stack_bytes (last_n 20 (ys @ [b]))) (Some t) \<and> ctx w' = ctx w \<and> prompt_is w' t q"
    by blast
  have "rx_good I es w'"
    using w'(3) q(2) rx_goodI [of I w' es ip "[]"] rx_goodI [of I w' es ip "last_n 20 (ys @ [b])" "Some t"]
    by (auto simp: prompt_ready_def split: if_splits)
  moreover have "rx_buffer (ctx w') = rx_buffer (ctx w)" using w'(3) by (auto simp: start_binary_def split: if_splits)
  ultimately show ?thesis using w'(1,2) st handle_byte_mode [OF inv] by simp
qed

lemma handle_byte_binary_good:
  assumes inv: "rx_inv I w es ip (stack_bytes ys) (Some t)" and st: "tk_status t = SEND_TASK_STATUS_BINARY"
  shows "\<exists>w'. handle_byte I b w = ok w' \<and> rx_good I es w' \<and> rx_buffer (ctx w') = rx_buffer (ctx w) \<and> spares I w w'"
proof -
  let ?n = "unat (response_length (ctx w))"
  from byte_binary_ok [OF inv st, of b] obtain w' where w': "byte_binary_handle I b w = ok w'" and
    cases: "?n = 512 \<and> w' = w \<or> rx_inv I w' es ip [] None \<and> ctx w' = cleared (push_byte b (ctx w)) \<and> spares I w w' \<or>
      rx_inv I w' es ip (stack_bytes ys) (Some t) \<and> w' = upd_ctx (push_byte b) w"
    by (auto split: if_splits)
  have "rx_good I es w'"
    using cases rx_goodI [of I w' es ip "[]" None] rx_goodI [of I w' es ip ys "Some t"] inv st
    by (auto simp: prompt_ready_def)
  moreover have "rx_buffer (ctx w') = rx_buffer (ctx w)" using cases by (auto simp: push_byte_def cleared_def)
  moreover have "spares I w w'" using cases by (auto simp: push_byte_def intro: spares_same)
  ultimately show ?thesis using w' st handle_byte_mode [OF inv] by simp
qed

lemma handle_byte_good:
  assumes "rx_good I es w"
  shows "\<exists>w'. handle_byte I b w = ok w' \<and> rx_good I es w' \<and> rx_buffer (ctx w') = rx_buffer (ctx w) \<and> spares I w w'"
proof -
  obtain ip ys T where inv: "rx_inv I w es ip (stack_bytes ys) T" and p: "prompt_ready w T"
    using assms by (auto simp: rx_good_def)
  show ?thesis
  proof (cases "line_mode T")
    case True
    then show ?thesis using handle_byte_line_good [OF inv] by blast
  next
    case False
    then obtain t where t: "T = Some t" "tk_status t \<noteq> SEND_TASK_STATUS_LINE_RECV" by (auto simp: line_mode_def)
    then show ?thesis
      using handle_byte_prompt_good [of I w es ip ys t b] handle_byte_binary_good [of I w es ip ys t b] inv p
      by (cases "tk_status t") simp_all
  qed
qed

section \<open>The loop\<close>

text \<open>One round, for a ring that is empty and for one that is not.\<close>

lemma recv_empty:
  assumes "rb_inv (rx_buffer (ctx w))" and "rb_contents (rx_buffer (ctx w)) = []"
  shows "recv_data_handle I w = ok w"
proof -
  have "ring_buffer_read (Some (rx_buffer (ctx w))) True = ok (0, None, Some (rx_buffer (ctx w)))"
    using assms by (intro ring.deq_empty) (auto simp: rb_option_inv_def)
  then show ?thesis by (simp add: recv_data_handle.simps)
qed

lemma recv_cons:
  assumes "complete I" and "rb_inv (rx_buffer (ctx w))" and "rb_contents (rx_buffer (ctx w)) = b # bs"
  shows "\<exists>h. rb_inv h \<and> rb_contents h = bs \<and>
    recv_data_handle I w = rbind (handle_byte I b (with_rx h w)) (recv_data_handle I)"
proof -
  obtain r y q where q: "ring_buffer_read (Some (rx_buffer (ctx w))) True = ok (r, y, q)" "r = 1" "y = Some b"
      "rb_option_inv q" "rb_contents (the q) = bs"
    using ring.deq_cons [of "Some (rx_buffer (ctx w))" b bs] assms(2,3)
    by (auto simp: rb_option_inv_def runs_iff)
  then show ?thesis using assms(1) by (auto simp: rb_option_inv_def recv_data_handle.simps)
qed

lemma recv_data_ok:
  assumes "rx_good I es w" and "rb_inv (rx_buffer (ctx w))"
  shows "\<exists>w'. recv_data_handle I w = ok w' \<and> rx_good I es w' \<and> rb_inv (rx_buffer (ctx w')) \<and>
    rb_contents (rx_buffer (ctx w')) = [] \<and> spares I w w'"
  using assms
proof (induction "rb_contents (rx_buffer (ctx w))" arbitrary: w)
  case Nil
  then show ?case using recv_empty spares_refl by metis
next
  case (Cons b bs)
  from recv_cons [OF rx_good_interface [OF Cons.prems(1)] Cons.prems(2) Cons.hyps(2) [symmetric]] obtain h where h:
    "rb_inv h" "rb_contents h = bs"
    "recv_data_handle I w = rbind (handle_byte I b (with_rx h w)) (recv_data_handle I)" by blast
  from handle_byte_good [of I es "with_rx h w" b] Cons.prems(1) obtain v where v:
    "handle_byte I b (with_rx h w) = ok v" "rx_good I es v" "rx_buffer (ctx v) = h" "spares I (with_rx h w) v" by auto
  have "spares I w (with_rx h w)" by (rule spares_same) simp_all
  then have "spares I w v" using v(4) by (rule spares_trans)
  then show ?case using Cons.hyps(1) [of v] h v spares_trans by auto
qed

section \<open>Sequences of received bytes\<close>

text \<open>
  \<open>rx_run I bs w w'\<close>: the event loop has taken the bytes \<open>bs\<close>, in this order, from the
  ring; between two of them the interrupt may have changed the ring, and only the ring.
\<close>

inductive rx_run :: "'os atc_interface \<Rightarrow> u8 list \<Rightarrow> 'os world \<Rightarrow> 'os world \<Rightarrow> bool" for I where
  rx_done: "rx_run I [] w w"
| rx_arrive: "rx_run I bs (with_rx h w) w' \<Longrightarrow> rx_run I bs w w'"
| rx_byte: "handle_byte I b w = ok v \<Longrightarrow> rx_run I bs v w' \<Longrightarrow> rx_run I (b # bs) w w'"

lemma rx_run_append:
  "rx_run I xs w v \<Longrightarrow> rx_run I ys v w' \<Longrightarrow> rx_run I (xs @ ys) w w'"
  by (induction rule: rx_run.induct) (auto intro: rx_run.intros)

lemma rx_run_split:
  "rx_run I zs w w' \<Longrightarrow> zs = xs @ ys \<Longrightarrow> \<exists>v. rx_run I xs w v \<and> rx_run I ys v w'"
proof (induction arbitrary: xs rule: rx_run.induct)
  case (rx_done w)
  then show ?case by (auto intro: rx_run.intros)
next
  case (rx_arrive bs h w w')
  then show ?case by (auto intro: rx_run.intros)
next
  case (rx_byte b w v bs w')
  show ?case
  proof (cases xs)
    case Nil
    then show ?thesis using rx_byte by (auto intro: rx_run.intros)
  next
    case (Cons c cs)
    then show ?thesis using rx_byte by (auto intro: rx_run.intros)
  qed
qed

text \<open>Invariants of the bytes taken so far, independent of the ring.\<close>

lemma rx_run_steps:
  assumes "rx_run I bs w w'" and "P xs w"
    and ring: "\<And>ys v h. P ys v \<Longrightarrow> P ys (with_rx h v)"
    and step: "\<And>ys v b v'. P ys v \<Longrightarrow> handle_byte I b v = ok v' \<Longrightarrow> prefix (ys @ [b]) (xs @ bs) \<Longrightarrow> P (ys @ [b]) v'"
  shows "P (xs @ bs) w'"
  using assms(1,2) step
proof (induction arbitrary: xs rule: rx_run.induct)
  case (rx_done w)
  then show ?case by simp
next
  case (rx_arrive bs h w w')
  show ?case using rx_arrive.IH [OF ring [OF rx_arrive.prems(1)]] rx_arrive.prems(2) by blast
next
  case (rx_byte b w v bs w')
  have "P (xs @ [b]) v" using rx_byte.prems(2) [OF rx_byte.prems(1) rx_byte.hyps(1)] by simp
  from rx_byte.IH [OF this] rx_byte.prems(2) show ?case by simp
qed

text \<open>The loop runs through the contents of the ring, first in first out.\<close>

lemma recv_data_run:
  assumes "rx_good I es w" and "rb_inv (rx_buffer (ctx w))" and "recv_data_handle I w = ok w'"
  shows "rx_run I (rb_contents (rx_buffer (ctx w))) w w'"
  using assms
proof (induction "rb_contents (rx_buffer (ctx w))" arbitrary: w)
  case Nil
  then show ?case using recv_empty [of w I] by (simp add: rx_done)
next
  case (Cons b bs)
  from recv_cons [OF rx_good_interface [OF Cons.prems(1)] Cons.prems(2) Cons.hyps(2) [symmetric]] obtain h where h:
    "rb_inv h" "rb_contents h = bs"
    "recv_data_handle I w = rbind (handle_byte I b (with_rx h w)) (recv_data_handle I)" by blast
  from handle_byte_good [of I es "with_rx h w" b] Cons.prems(1) obtain v where v:
    "handle_byte I b (with_rx h w) = ok v" "rx_good I es v" "rx_buffer (ctx v) = h" by auto
  then have "rx_run I bs v w'" using Cons.hyps(1) [of v] Cons.prems(3) h by simp
  then show ?case using v(1) Cons.hyps(2) by (metis rx_arrive rx_byte)
qed

lemma rx_run_good:
  "rx_run I bs w w' \<Longrightarrow> rx_good I es w \<Longrightarrow> rx_good I es w'"
proof (induction rule: rx_run.induct)
  case (rx_byte b w v bs w')
  then show ?case using handle_byte_good [OF rx_byte.prems, of b] by auto
qed simp_all

lemma rx_run_exists: "rx_good I es w \<Longrightarrow> \<exists>w'. rx_run I bs w w'"
proof (induction bs arbitrary: w)
  case (Cons b bs)
  from handle_byte_good [OF Cons.prems, of b] obtain v where "handle_byte I b w = ok v" "rx_good I es v" by blast
  then show ?case using Cons.IH rx_byte by metis
qed (auto intro: rx_done)

section \<open>Interrupt entry and initialisation\<close>

lemma atc_receive_data_ok:
  assumes I: "complete I" and inv: "rb_inv (rx_buffer (ctx w))" and n: "0 < unat len" "unat len \<le> length bs"
  shows "\<exists>w' h. atc_receive_data I (Some bs) len w =
      ok (int (min (unat len) (unat (rb_capacity (rx_buffer (ctx w))) - 1 - rb_count (rx_buffer (ctx w)))), w') \<and>
    ctx w' = (ctx w)\<lparr>rx_buffer := h\<rparr> \<and> heap w' = heap w \<and> rb_inv h \<and>
    rb_contents h = rb_contents (rx_buffer (ctx w)) @
      take (unat (rb_capacity (rx_buffer (ctx w))) - 1 - rb_count (rx_buffer (ctx w))) (take (unat len) bs) \<and>
    trace w' = trace w @
      (if unat len \<le> unat (rb_capacity (rx_buffer (ctx w))) - 1 - rb_count (rx_buffer (ctx w))
       then [Ev_Give_Isr (wake_semaphore (ctx w))] else [])"
proof -
  let ?h = "rx_buffer (ctx w)"
  let ?free = "unat (rb_capacity ?h) - 1 - rb_count ?h"
  have "rb_option_inv (Some ?h)" using inv by (simp add: rb_option_inv_def)
  from ring.write_loop_spec [OF this, of "take (unat len) bs" 0] obtain all h where wl:
    "write_loop ring_buffer_write (Some ?h) (take (unat len) bs) 0 = ok (all, int (min (unat len) ?free), Some h)"
    "rb_inv h" "rb_contents h = rb_contents ?h @ take ?free (take (unat len) bs)" "all = (unat len \<le> ?free)"
    using n by (auto simp: runs_iff rb_option_inv_def rb_room_def min_absorb2)
  obtain s where g: "os_sem_give_isr I (wake_semaphore (ctx (with_rx h w))) (with_rx h w) =
      ok (emit (Ev_Give_Isr (wake_semaphore (ctx (with_rx h w)))) ((with_rx h w)\<lparr>os := s\<rparr>))"
    using os_sem_give_isr_ok [OF I] by blast
  have "len \<noteq> 0" using n by auto
  then have run: "atc_receive_data I (Some bs) len w =
      (if all then ok (int (min (unat len) ?free), emit (Ev_Give_Isr (wake_semaphore (ctx w))) ((with_rx h w)\<lparr>os := s\<rparr>))
       else ok (int (min (unat len) ?free), with_rx h w))"
    using wl(1) n g by (simp add: atc_receive_data_def mem_read_def Let_def)
  show ?thesis
  proof (cases all)
    case True
    then show ?thesis using run wl
      by (intro exI [of _ "emit (Ev_Give_Isr (wake_semaphore (ctx w))) ((with_rx h w)\<lparr>os := s\<rparr>)"] exI [of _ h]) simp
  next
    case False
    then show ?thesis using run wl by (intro exI [of _ "with_rx h w"] exI [of _ h]) simp
  qed
qed

end
