(* ===== verification/Recv_Scenarios.thy ===== *)
theory Recv_Scenarios
  imports Recv_Data
begin

text \<open>
  What sequences of received bytes achieve, over \<open>rx_run\<close>: lines, whole command responses,
  prompts followed by binary data, and the states that never end by themselves.
\<close>

section \<open>Lines\<close>

definition same_reply :: "'os world \<Rightarrow> 'os world \<Rightarrow> bool" where
  "same_reply w v \<longleftrightarrow> response (ctx v) = response (ctx w) \<and> response_length (ctx v) = response_length (ctx w) \<and>
     trace v = trace w \<and> heap v = heap w"

lemma same_reply_simps [simp]:
  "same_reply w w" "same_reply w (with_rx h v) = same_reply w v" "same_reply w (set_line buf i v) = same_reply w v"
  by (simp_all add: same_reply_def set_line_def)

lemma handed_with_rx [simp]: "handed T r c w (with_rx h v) = handed T r c w v"
  by (simp add: handed_def delivered_def)

lemma pending_with_rx [simp]: "pending (ctx w\<lparr>rx_buffer := h\<rparr>) = pending (ctx w)"
  by (simp add: pending_def)

lemma line_step:
  assumes inv: "rx_inv I w es ip xs T" "line_mode T" and room: "length (pending (ctx w)) < 255" and b: "b \<noteq> 10"
    and run: "handle_byte I b w = ok w'"
  shows "rx_inv I w' es ip xs T" and "pending (ctx w') = pending (ctx w) @ [b]" and "same_reply w w'"
  using byte_line_ok [OF inv(1) line_mode_text [OF inv(2)], of b] run room b
  by (auto simp: handle_byte_line [OF inv])

text \<open>Bytes without a newline collect in the line buffer.\<close>

lemma rx_run_from_start:
  assumes "rx_run I bs w w'" and "P [] w"
    and "\<And>ys v h. P ys v \<Longrightarrow> P ys (with_rx h v)"
    and "\<And>ys v b v'. P ys v \<Longrightarrow> handle_byte I b v = ok v' \<Longrightarrow> prefix (ys @ [b]) bs \<Longrightarrow> P (ys @ [b]) v'"
  shows "P bs w'"
  using rx_run_steps [OF assms(1), of P "[]"] assms(2-4) by simp

lemma prefix_snoc_in: "prefix (ys @ [b]) bs \<Longrightarrow> b \<in> set bs \<and> length ys < length bs"
  by (auto simp: prefix_def)

lemma line_collect:
  assumes run: "rx_run I ln w w'" and inv: "rx_inv I w es ip xs T" "line_mode T"
    and ln: "10 \<notin> set ln" "length (pending (ctx w)) + length ln \<le> 255"
  shows "rx_inv I w' es ip xs T \<and> pending (ctx w') = pending (ctx w) @ ln \<and> same_reply w w'"
proof -
  let ?P = "\<lambda>ys v. rx_inv I v es ip xs T \<and> pending (ctx v) = pending (ctx w) @ ys \<and> same_reply w v"
  have "?P ln w'"
  proof (rule rx_run_from_start [OF run, where P = ?P])
    fix ys v b v'
    assume v: "?P ys v" "handle_byte I b v = ok v'" "prefix (ys @ [b]) ln"
    have "b \<noteq> 10" "length (pending (ctx v)) < 255" using v(1) prefix_snoc_in [OF v(3)] ln by auto
    from line_step [OF conjunct1 [OF v(1)] inv(2) this(2,1) v(2)] show "?P (ys @ [b]) v'"
      using v(1) by (simp add: same_reply_def)
  qed (use inv in auto)
  then show ?thesis .
qed

text \<open>What a complete line adds to the trace, and the response after it.\<close>

definition line_trace :: "urc_table \<Rightarrow> send_task option \<Rightarrow> u8 list \<Rightarrow> atc_context \<Rightarrow> event list" where
  "line_trace es T ln c =
     (case line_ends es ln of
        Some r \<Rightarrow> task_events T r (push_ctx (ln @ [0]) (of_nat (length ln)) c)
      | None \<Rightarrow> if length ln \<le> 2 then [] else urc_calls (ln @ [0]) es)"

definition is_reply :: "urc_table \<Rightarrow> u8 list \<Rightarrow> bool" where
  "is_reply es ln \<longleftrightarrow> 2 < length ln \<and> \<not> (\<exists>(a, e) \<in> set es. urc_match (ln @ [0]) e)"

lemma urc_calls_none: "\<not> (\<exists>(a, e) \<in> set es. urc_match ln e) \<Longrightarrow> urc_calls ln es = []"
  by (force simp: urc_calls_def)

lemma task_events_cong:
  "response c = response d \<Longrightarrow> response_length c = response_length d \<Longrightarrow> task_events T r c = task_events T r d"
  by (auto simp: task_events_def end_events_def split: option.splits response_handler.splits)

lemma push_ctx_response:
  assumes "response c = response d" "response_length c = response_length d"
  shows "response (push_ctx l n c) = response (push_ctx l n d)"
    "response_length (push_ctx l n c) = response_length (push_ctx l n d)"
  using assms by (simp_all add: push_ctx_def)

lemma line_complete:
  assumes inv: "rx_inv I w es ip xs T" "line_mode T" and room: "length (pending (ctx w)) < 255"
    and run: "handle_byte I 10 w = ok w'"
  shows "rx_inv I w' es ip (if line_ends es (pending (ctx w) @ [10]) = None then xs else [])
           (if line_ends es (pending (ctx w) @ [10]) = None then T else None)"
    and "pending (ctx w') = []"
    and "trace w' = trace w @ line_trace es T (pending (ctx w) @ [10]) (ctx w)"
    and "line_ends es (pending (ctx w) @ [10]) = None \<Longrightarrow>
      (let c = if is_reply es (pending (ctx w) @ [10])
               then push_ctx (pending (ctx w) @ [10, 0]) (of_nat (Suc (length (pending (ctx w))))) (ctx w) else ctx w
       in response (ctx w') = response c \<and> response_length (ctx w') = response_length c) \<and> heap w' = heap w"
    and "line_ends es (pending (ctx w) @ [10]) = Some r \<Longrightarrow>
      handed T r (push_ctx (pending (ctx w) @ [10, 0]) (of_nat (Suc (length (pending (ctx w))))) (ctx w)) w w'"
proof -
  let ?ln = "pending (ctx w) @ [10]"
  from byte_line_ok [OF inv(1) line_mode_text [OF inv(2)], of 10] run room obtain buf v where
    v: "line_effect I es ip T ?ln (set_line buf (line_buffer_index (ctx w) + 1) w) v"
      "w' = upd_ctx (\<lambda>c. c\<lparr>line_buffer_index := 0\<rparr>) v" "pending (ctx w') = []"
      "rx_inv I w' es ip (if line_ends es ?ln = None then xs else []) (if line_ends es ?ln = None then T else None)"
    by (auto simp: handle_byte_line [OF inv])
  show "rx_inv I w' es ip (if line_ends es ?ln = None then xs else []) (if line_ends es ?ln = None then T else None)"
    "pending (ctx w') = []" by (rule v)+
  let ?u = "set_line buf (line_buffer_index (ctx w) + 1) w"
  have u: "response (ctx ?u) = response (ctx w)" "response_length (ctx ?u) = response_length (ctx w)" "trace ?u = trace w"
      "heap ?u = heap w"
    by (simp_all add: set_line_def)
  have ev: "task_events T r (push_ctx l n (ctx ?u)) = task_events T r (push_ctx l n (ctx w))" for r l n
    by (intro task_events_cong push_ctx_response u)
  have t: "trace w' = trace v" "response (ctx w') = response (ctx v)" "response_length (ctx w') = response_length (ctx v)"
      "heap w' = heap v"
    using v(2) by simp_all
  show "trace w' = trace w @ line_trace es T ?ln (ctx w)"
    using v(1) t(1) u(3) urc_calls_none [of es "?ln @ [0]"] ev unfolding line_effect_def line_trace_def
    by (auto split: option.splits if_splits)
  show "handed T r (push_ctx (pending (ctx w) @ [10, 0]) (of_nat (Suc (length (pending (ctx w))))) (ctx w)) w w'"
    if "line_ends es ?ln = Some r"
    using v(1) that handed_cong [OF _ u(4) t(4) [symmetric] push_ctx_response [OF u(1,2)]]
    unfolding line_effect_def by (auto split: if_splits)
  assume "line_ends es ?ln = None"
  then show "(let c = if is_reply es ?ln
               then push_ctx (pending (ctx w) @ [10, 0]) (of_nat (Suc (length (pending (ctx w))))) (ctx w) else ctx w
       in response (ctx w') = response c \<and> response_length (ctx w') = response_length c) \<and> heap w' = heap w"
    using v(1) t u push_ctx_response [of "ctx ?u" "ctx w"] unfolding line_effect_def is_reply_def Let_def
    by (auto split: if_splits)
qed

section \<open>Command responses\<close>

text \<open>A text line as a modem sends it: one newline, at the end, no NUL, not too long.\<close>

definition text_line :: "u8 list \<Rightarrow> bool" where
  "text_line ln \<longleftrightarrow> (\<exists>x. ln = x @ [10] \<and> 10 \<notin> set x \<and> 0 \<notin> set x \<and> length x < 255)"

text \<open>The response holds \<open>bs\<close> and is padded with zeros.\<close>

definition resp_is :: "atc_context \<Rightarrow> u8 list \<Rightarrow> bool" where
  "resp_is c bs \<longleftrightarrow> response c = bs @ replicate (512 - length bs) 0 \<and> response_length c = of_nat (length bs) \<and>
     length bs \<le> 512"

lemma cstr_nul_free: "0 \<notin> set bs \<Longrightarrow> cstr (bs @ replicate n 0) = bs"
proof (induction bs)
  case (Cons b bs)
  then show ?case by (simp add: cstr_def)
qed simp

text \<open>
  What the response buffer takes of a sequence of reply lines: a line that does not fit is
  left out as a whole, and a shorter one that comes later may fit again.
\<close>

primrec gather :: "u8 list \<Rightarrow> u8 list list \<Rightarrow> u8 list" where
  "gather acc [] = acc"
| "gather acc (ln # lns) = gather (if length acc + length ln < 512 then acc @ ln else acc) lns"

lemma gather_append [simp]: "gather acc (xs @ ys) = gather (gather acc xs) ys"
  by (induction xs arbitrary: acc) simp_all

lemma gather_bound: "length acc < 512 \<Longrightarrow> length (gather acc lns) < 512"
  by (induction lns arbitrary: acc) auto

lemma gather_fits: "length acc + length (concat lns) < 512 \<Longrightarrow> gather acc lns = acc @ concat lns"
  by (induction lns arbitrary: acc) auto

lemma gather_starts: "\<exists>ys. gather acc lns = acc @ ys"
  by (induction lns arbitrary: acc) (auto, metis append.assoc)

lemma gather_nonempty:
  assumes "lns \<noteq> []" and "\<forall>ln \<in> set lns. 0 < length ln \<and> length ln < 512"
  shows "gather [] lns \<noteq> []"
proof (cases lns)
  case (Cons ln rest)
  then show ?thesis using assms(2) gather_starts [of ln rest] by auto
qed (use assms(1) in simp)

lemma resp_is_push:
  assumes c: "resp_is c bs" "0 \<notin> set bs" "length bs < 512" and ln: "0 \<notin> set ln" "length ln \<le> 255"
  shows "resp_is (push_ctx (ln @ [0]) (of_nat (length ln)) c) (gather bs [ln])"
proof -
  have u: "unat (response_length c) = length bs" "unat (of_nat (length ln) :: size_t) = length ln"
    using c ln(2) by (simp_all add: resp_is_def unat_of_nat)
  have s: "cstr (response c) = bs" using c cstr_nul_free by (simp add: resp_is_def)
  have "cstr (take (length ln) (ln @ [0])) = ln"
    using cstr_nul_free [OF ln(1), of 0] by simp
  then show ?thesis
    using c u s by (cases "length bs + length ln < 512")
      (simp_all add: push_ctx_def resp_is_def replicate_app_Cons_same flip: replicate_Suc)
qed

lemma resp_is_text: "resp_is c bs \<Longrightarrow> length bs < 512 \<Longrightarrow> take (unat (response_length c)) (response c) = bs"
  by (simp add: resp_is_def unat_of_nat)

text \<open>One text line from its first byte to its newline.\<close>

lemma line_run:
  assumes run: "rx_run I ln w w'" and inv: "rx_inv I w es ip xs T" "line_mode T" and p: "pending (ctx w) = []"
    and ln: "text_line ln"
  shows "rx_inv I w' es ip (if line_ends es ln = None then xs else []) (if line_ends es ln = None then T else None)"
    and "pending (ctx w') = []" and "trace w' = trace w @ line_trace es T ln (ctx w)"
    and "line_ends es ln = None \<Longrightarrow>
      (let c = if is_reply es ln then push_ctx (ln @ [0]) (of_nat (length ln)) (ctx w) else ctx w
       in response (ctx w') = response c \<and> response_length (ctx w') = response_length c) \<and> heap w' = heap w"
    and "line_ends es ln = Some r \<Longrightarrow> handed T r (push_ctx (ln @ [0]) (of_nat (length ln)) (ctx w)) w w'"
proof -
  obtain x where x: "ln = x @ [10]" "10 \<notin> set x" "length x < 255" using ln by (auto simp: text_line_def)
  let ?P = "\<lambda>w'. rx_inv I w' es ip (if line_ends es ln = None then xs else []) (if line_ends es ln = None then T else None) \<and>
    pending (ctx w') = [] \<and> trace w' = trace w @ line_trace es T ln (ctx w) \<and>
    (line_ends es ln = None \<longrightarrow>
      (let c = if is_reply es ln then push_ctx (ln @ [0]) (of_nat (length ln)) (ctx w) else ctx w
       in response (ctx w') = response c \<and> response_length (ctx w') = response_length c) \<and> heap w' = heap w) \<and>
    (\<forall>r. line_ends es ln = Some r \<longrightarrow> handed T r (push_ctx (ln @ [0]) (of_nat (length ln)) (ctx w)) w w')"
  obtain v where v: "rx_run I x w v" "rx_run I [10] v w'" using rx_run_split [OF run x(1)] by blast
  have c: "rx_inv I v es ip xs T" "pending (ctx v) = x" "same_reply w v"
    using line_collect [OF v(1) inv x(2)] p x(3) by auto
  have "?P w'"
    using v(2) c
  proof (induction "[10 :: u8]" v w' rule: rx_run.induct)
    case (rx_arrive h v w')
    then show ?case by simp
  next
    case (rx_byte v u w')
    have room: "length (pending (ctx v)) < 255" using rx_byte.prems(2) x(3) by simp
    note fin = line_complete [OF rx_byte.prems(1) inv(2) room rx_byte.hyps(1), unfolded rx_byte.prems(2), folded x(1)]
    have eq: "response (ctx v) = response (ctx w)" "response_length (ctx v) = response_length (ctx w)" "trace v = trace w"
      "heap v = heap w"
      using rx_byte.prems(3) by (simp_all add: same_reply_def)
    have hd: "handed T r (push_ctx (ln @ [0]) (of_nat (length ln)) (ctx w)) w u" if "line_ends es ln = Some r" for r
      by (rule handed_cong [OF _ eq(4) refl push_ctx_response [OF eq(1,2)]]) (use fin(5) that x(1) in simp)
    have lt: "line_trace es T ln (ctx v) = line_trace es T ln (ctx w)"
      unfolding line_trace_def
      using task_events_cong [OF push_ctx_response [OF eq(1,2)]] by (auto split: option.splits)
    have "?P u"
      using fin(1-4) eq lt hd push_ctx_response [OF eq(1,2)] x(1) by (auto simp: Let_def)
    with rx_byte.hyps(2) show ?case
    proof (induction "[] :: u8 list" u w' rule: rx_run.induct)
      case (rx_arrive h u w')
      then show ?case by simp
    qed
  qed
  then show "rx_inv I w' es ip (if line_ends es ln = None then xs else []) (if line_ends es ln = None then T else None)"
    and "pending (ctx w') = []" and "trace w' = trace w @ line_trace es T ln (ctx w)"
    and "line_ends es ln = None \<Longrightarrow>
      (let c = if is_reply es ln then push_ctx (ln @ [0]) (of_nat (length ln)) (ctx w) else ctx w
       in response (ctx w') = response c \<and> response_length (ctx w') = response_length c) \<and> heap w' = heap w"
    and "line_ends es ln = Some r \<Longrightarrow> handed T r (push_ctx (ln @ [0]) (of_nat (length ln)) (ctx w)) w w'"
    by auto
qed

text \<open>
  A whole exchange: lines that do not end the command, replies and unsolicited ones in any
  order, then the line that ends it.
\<close>

definition line_calls :: "urc_table \<Rightarrow> u8 list list \<Rightarrow> event list" where
  "line_calls es lns = concat (map (\<lambda>ln. if length ln \<le> 2 then [] else urc_calls (ln @ [0]) es) lns)"

lemma text_line_facts: "text_line ln \<Longrightarrow> 0 \<notin> set ln \<and> length ln \<le> 255 \<and> 0 < length ln"
  by (auto simp: text_line_def)

lemma lines_run:
  assumes "rx_run I (concat lns) w w'" and "rx_inv I w es ip xs T" and "line_mode T" and "pending (ctx w) = []"
    and "\<forall>ln \<in> set lns. text_line ln \<and> line_ends es ln = None"
    and "resp_is (ctx w) bs" "0 \<notin> set bs" "length bs < 512"
  shows "rx_inv I w' es ip xs T \<and> pending (ctx w') = [] \<and> trace w' = trace w @ line_calls es lns \<and> heap w' = heap w \<and>
    (let bs' = gather bs (filter (is_reply es) lns) in resp_is (ctx w') bs' \<and> 0 \<notin> set bs' \<and> length bs' < 512)"
  using assms
proof (induction lns arbitrary: w bs)
  case Nil
  have "rx_run I [] w w' \<Longrightarrow> rx_inv I w es ip xs T \<Longrightarrow> rx_inv I w' es ip xs T \<and> pending (ctx w') = pending (ctx w) \<and>
      trace w' = trace w \<and> heap w' = heap w \<and> response (ctx w') = response (ctx w) \<and>
      response_length (ctx w') = response_length (ctx w)" for w
    by (induction "[] :: u8 list" w w' rule: rx_run.induct) auto
  then show ?case using Nil by (simp add: resp_is_def line_calls_def)
next
  case (Cons ln lns)
  obtain v where v: "rx_run I ln w v" "rx_run I (concat lns) v w'"
    using rx_run_split [OF Cons.prems(1), of ln "concat lns"] by auto
  have ln: "text_line ln" "line_ends es ln = None" using Cons.prems(5) by auto
  note f = text_line_facts [OF ln(1)]
  note one = line_run [OF v(1) Cons.prems(2,3,4) ln(1)]
  let ?bs = "if is_reply es ln then gather bs [ln] else bs"
  have len: "length ?bs < 512" "0 \<notin> set ?bs"
    using Cons.prems(7,8) f by auto
  have resp: "resp_is (ctx v) ?bs"
  proof (cases "is_reply es ln")
    case True
    have "resp_is (push_ctx (ln @ [0]) (of_nat (length ln)) (ctx w)) (gather bs [ln])"
      using f by (intro resp_is_push [OF Cons.prems(6,7,8)]) auto
    then show ?thesis using one(4) [OF ln(2)] True by (simp add: Let_def resp_is_def)
  next
    case False
    then show ?thesis using one(4) [OF ln(2)] Cons.prems(6) by (simp add: Let_def resp_is_def)
  qed
  have "trace v = trace w @ line_calls es [ln]"
    using one(3) ln(2) by (simp add: line_trace_def line_calls_def)
  moreover have "gather ?bs (filter (is_reply es) lns) = gather bs (filter (is_reply es) (ln # lns))" by simp
  moreover have "rx_inv I v es ip xs T" "heap v = heap w" using one(1,4) ln(2) by simp_all
  ultimately show ?case
    using Cons.IH [OF v(2) _ Cons.prems(3) one(2) _ resp len(2,1)] Cons.prems(5)
    by (simp add: line_calls_def)
qed

text \<open>How the sender of \<open>t\<close> learns the end of its command.\<close>

abbreviation answer_events :: "send_task \<Rightarrow> atc_result \<Rightarrow> u8 list \<Rightarrow> event list" where
  "answer_events t r reply \<equiv>
     (case tk_response_handler t of
        None \<Rightarrow> []
      | Some Sync_Response_Handler \<Rightarrow> if tk_semaphore t \<noteq> NULL then [Ev_Give (tk_semaphore t)] else []
      | Some (App_Response_Handler f) \<Rightarrow> [Ev_Response f r reply (of_nat (length reply))])"

lemma end_events_reply: "resp_is c reply \<Longrightarrow> end_events t r c = answer_events t r reply"
  by (auto simp: end_events_def resp_is_def unat_of_nat split: option.split response_handler.split)

lemma command_run:
  assumes run: "rx_run I (concat lns @ fin) w w'" and inv: "rx_inv I w es ip xs (Some t)"
    and m: "tk_status t = SEND_TASK_STATUS_LINE_RECV" and p: "pending (ctx w) = []"
    and lns: "\<forall>ln \<in> set lns. text_line ln \<and> line_ends es ln = None"
    and fin: "text_line fin" "line_ends es fin = Some r" and resp: "resp_is (ctx w) []"
    and reply: "reply = gather [] (filter (is_reply es) lns @ [fin])"
  shows "rx_inv I w' es ip [] None \<and> pending (ctx w') = [] \<and>
    trace w' = trace w @ line_calls es lns @ answer_events t r reply \<and>
    (\<exists>c. resp_is c reply \<and> handed (Some t) r c w w')"
proof -
  obtain v where v: "rx_run I (concat lns) w v" "rx_run I fin v w'" using rx_run_split [OF run] by blast
  have mode: "line_mode (Some t)" using m by (simp add: line_mode_def)
  let ?bs = "gather [] (filter (is_reply es) lns)"
  from lines_run [OF v(1) inv mode p lns resp]
  have l: "rx_inv I v es ip xs (Some t)" "pending (ctx v) = []" "trace v = trace w @ line_calls es lns"
      "resp_is (ctx v) ?bs" "0 \<notin> set ?bs" "heap v = heap w" "length ?bs < 512" by (auto simp: Let_def)
  note f = text_line_facts [OF fin(1)]
  note e = line_run [OF v(2) l(1) mode l(2) fin(1)]
  let ?c = "push_ctx (fin @ [0]) (of_nat (length fin)) (ctx v)"
  have push: "resp_is ?c reply"
    unfolding reply gather_append by (rule resp_is_push [OF l(4,5,7)]) (use f in auto)
  have tr: "trace w' = trace v @ answer_events t r reply"
    using e(3) fin(2) end_events_reply [OF push, of t r] by (simp add: line_trace_def task_events_def)
  have "handed (Some t) r ?c w w'" by (rule handed_cong [OF e(5) [OF fin(2)]]) (use l(6) in simp_all)
  then show ?thesis using e(1,2) fin(2) l(3) tr push by auto
qed

section \<open>Prompts and binary data\<close>

lemma handle_byte_prompt:
  "rx_inv I w es ip xs (Some t) \<Longrightarrow> tk_status t = SEND_TASK_STATUS_PROMPT \<Longrightarrow> handle_byte I b w = byte_prompt_handle I b w"
  by (simp add: handle_byte_mode)

lemma handle_byte_binary:
  "rx_inv I w es ip xs (Some t) \<Longrightarrow> tk_status t = SEND_TASK_STATUS_BINARY \<Longrightarrow> handle_byte I b w = byte_binary_handle I b w"
  by (simp add: handle_byte_mode)

text \<open>The window sees the prompt exactly when the bytes received so far end with it.\<close>

lemma prompt_seen_window: "length p \<le> 20 \<Longrightarrow> prompt_seen p (last_n 20 ys) \<longleftrightarrow> 0 \<notin> set p \<and> suffix p ys"
  by (simp add: prompt_seen_def suffix_last_n_iff)

definition prompt_state ::
  "'os atc_interface \<Rightarrow> urc_table \<Rightarrow> addr \<Rightarrow> send_task \<Rightarrow> u8 list \<Rightarrow> 'os world \<Rightarrow> u8 list \<Rightarrow> 'os world \<Rightarrow> bool" where
  "prompt_state I es ip t p w ys v \<longleftrightarrow>
     rx_inv I v es ip (stack_bytes (last_n 20 ys)) (Some t) \<and> prompt_is v t p \<and> trace v = trace w \<and>
     kept is_caller w v"

lemma prompt_state_with_rx [simp]:
  "prompt_state I es ip t p w ys (with_rx h v) = prompt_state I es ip t p w ys v"
  by (simp add: prompt_state_def kept_def)

lemma prompt_step:
  assumes "prompt_state I es ip t p w ys v" and "tk_status t = SEND_TASK_STATUS_PROMPT"
    and "tk_need_recv_len t \<noteq> 0" and "\<not> prompt_seen p (last_n 20 (ys @ [b]))" and "handle_byte I b v = ok v'"
  shows "prompt_state I es ip t p w (ys @ [b]) v'"
proof -
  have v: "rx_inv I v es ip (stack_bytes (last_n 20 ys)) (Some t)" "prompt_is v t p" "trace v = trace w"
      "kept is_caller w v"
    using assms(1) by (simp_all add: prompt_state_def)
  show ?thesis
    using byte_prompt_ok [OF v(1,2) assms(3), of b] assms(4,5) v(3) kept_trans [OF v(4)] handle_byte_prompt [OF v(1) assms(2), of b]
    by (auto simp: prompt_state_def last_n_snoc)
qed

lemma prompt_waits:
  assumes "rx_run I bs w w'" and "prompt_state I es ip t p u ys w" and "tk_status t = SEND_TASK_STATUS_PROMPT"
    and "tk_need_recv_len t \<noteq> 0" and "\<And>zs. prefix zs bs \<Longrightarrow> zs \<noteq> [] \<Longrightarrow> \<not> prompt_seen p (last_n 20 (ys @ zs))"
  shows "prompt_state I es ip t p u (ys @ bs) w'"
proof (rule rx_run_from_start [OF assms(1), where P = "\<lambda>zs v. prompt_state I es ip t p u (ys @ zs) v"])
  fix zs v b v'
  assume "prompt_state I es ip t p u (ys @ zs) v" "handle_byte I b v = ok v'" "prefix (zs @ [b]) bs"
  then show "prompt_state I es ip t p u (ys @ zs @ [b]) v'"
    using prompt_step [of I es ip t p u "ys @ zs" v b v'] assms(3,4) assms(5) [of "zs @ [b]"] by simp
qed (use assms(2) in simp_all)

text \<open>Binary reception: \<open>ys\<close> has been received, fewer bytes than wanted.\<close>

definition binary_state ::
  "'os atc_interface \<Rightarrow> urc_table \<Rightarrow> addr \<Rightarrow> addr list \<Rightarrow> send_task \<Rightarrow> 'os world \<Rightarrow> u8 list \<Rightarrow> 'os world \<Rightarrow> bool" where
  "binary_state I es ip xs t w ys v \<longleftrightarrow> rx_inv I v es ip xs (Some t) \<and> resp_is (ctx v) ys \<and> trace v = trace w \<and> kept is_caller w v"

lemma binary_state_with_rx [simp]:
  "binary_state I es ip xs t w ys (with_rx h v) = binary_state I es ip xs t w ys v"
  by (simp add: binary_state_def resp_is_def kept_def)

lemma resp_is_push_byte:
  assumes "resp_is c ys" and "length ys < 512"
  shows "resp_is (push_byte b c) (ys @ [b])"
proof -
  have "unat (response_length c) = length ys" using assms by (simp add: resp_is_def unat_of_nat)
  moreover obtain k where k: "512 - length ys = Suc k" using assms(2) by (metis Suc_diff_Suc)
  moreover have "512 - length (ys @ [b]) = k" using k by simp
  moreover have "(ys @ replicate (Suc k) 0)[length ys := b] = (ys @ [b]) @ replicate k 0"
    by (simp add: list_update_length)
  ultimately show ?thesis using assms by (simp add: resp_is_def push_byte_def)
qed

lemma resp_is_length: "resp_is c ys \<Longrightarrow> unat (response_length c) = length ys"
  by (simp add: resp_is_def unat_of_nat)

lemma binary_step:
  assumes s: "binary_state I es ip xs t w ys v" and bin: "tk_status t = SEND_TASK_STATUS_BINARY"
    and n: "Suc (length ys) < unat (tk_need_recv_len t)" "length ys < 512" and run: "handle_byte I b v = ok v'"
  shows "binary_state I es ip xs t w (ys @ [b]) v'"
proof -
  have v: "rx_inv I v es ip xs (Some t)" "resp_is (ctx v) ys" "trace v = trace w" "kept is_caller w v"
    using s by (simp_all add: binary_state_def)
  show ?thesis
    using byte_binary_ok [OF v(1) bin, of b] run n v(3,4) resp_is_length [OF v(2)] resp_is_push_byte [OF v(2) n(2)]
    by (auto simp: binary_state_def kept_def handle_byte_binary [OF v(1) bin])
qed

text \<open>All of \<open>ys\<close> has been received, and the command of \<open>t\<close> has ended with it.\<close>

definition binary_done ::
  "'os atc_interface \<Rightarrow> urc_table \<Rightarrow> addr \<Rightarrow> send_task \<Rightarrow> 'os world \<Rightarrow> u8 list \<Rightarrow> 'os world \<Rightarrow> bool" where
  "binary_done I es ip t w ys v \<longleftrightarrow> rx_inv I v es ip [] None \<and> trace v = trace w @ answer_events t ATC_SUCCESS ys \<and>
     (\<exists>c. resp_is c ys \<and> handed (Some t) ATC_SUCCESS c w v)"

lemma binary_done_with_rx [simp]: "binary_done I es ip t w ys (with_rx h v) = binary_done I es ip t w ys v"
  by (simp add: binary_done_def handed_def delivered_def)

lemma handed_kept:
  assumes "handed (Some t) r c v v'" and "kept is_caller w v" and "rx_inv I w es ip xs (Some t)"
  shows "handed (Some t) r c w v'"
proof -
  have "sync_ok w t" if "tk_response_handler t = Some Sync_Response_Handler"
    using assms(3) that by (simp add: rx_inv_def task_state_def task_ok_def)
  moreover have "heap v p = Some (O_Size m)" if "heap w p = Some (O_Size m)" for p m using keptD [OF assms(2) that] by simp
  moreover have "heap v p = Some (O_Buf b)" if "heap w p = Some (O_Buf b)" for p b using keptD [OF assms(2) that] by simp
  ultimately show ?thesis using assms(1) unfolding handed_def delivered_def sync_ok_def by fastforce
qed

lemma end_events_status: "end_events (t\<lparr>tk_status := s\<rparr>) r c = end_events t r c"
  by (simp add: end_events_def split: option.split response_handler.split)

lemma handed_status: "handed (Some (t\<lparr>tk_status := s\<rparr>)) r c w w' = handed (Some t) r c w w'"
  by (simp add: handed_def delivered_def cong: if_cong)

lemma binary_last:
  assumes s: "binary_state I es ip xs t w ys v" and bin: "tk_status t = SEND_TASK_STATUS_BINARY"
    and n: "Suc (length ys) = unat (tk_need_recv_len t)" "length ys < 512" and run: "handle_byte I b v = ok v'"
    and u: "rx_inv I w es ip' xs' (Some t')" "t = t'\<lparr>tk_status := SEND_TASK_STATUS_BINARY\<rparr>"
  shows "binary_done I es ip t' w (ys @ [b]) v'"
proof -
  have v: "rx_inv I v es ip xs (Some t)" "resp_is (ctx v) ys" "trace v = trace w" "kept is_caller w v"
    using s by (simp_all add: binary_state_def)
  let ?c = "push_byte b (ctx v)"
  have c: "resp_is ?c (ys @ [b])" by (rule resp_is_push_byte [OF v(2) n(2)])
  have e: "trace v' = trace v @ end_events t ATC_SUCCESS ?c" "rx_inv I v' es ip [] None" "handed (Some t) ATC_SUCCESS ?c v v'"
    using byte_binary_ok [OF v(1) bin, of b] run n resp_is_length [OF v(2)]
    by (auto simp: handle_byte_binary [OF v(1) bin])
  moreover have "handed (Some t') ATC_SUCCESS ?c w v'"
    by (rule handed_kept [OF _ v(4) u(1)]) (use e(3) u(2) in \<open>simp add: handed_status\<close>)
  ultimately show ?thesis using v(3) c u(2) end_events_reply [OF c, of t' ATC_SUCCESS]
    by (auto simp: binary_done_def end_events_status)
qed

lemma rx_run_one:
  assumes "rx_run I [b] w w'" and "P w" and ring: "\<And>v h. P v \<Longrightarrow> P (with_rx h v)"
    and step: "\<And>v v'. P v \<Longrightarrow> handle_byte I b v = ok v' \<Longrightarrow> Q v'" and ringQ: "\<And>v h. Q v \<Longrightarrow> Q (with_rx h v)"
  shows "Q w'"
  using rx_run_from_start [OF assms(1), where P = "\<lambda>ys v. if ys = [] then P v else Q v"] assms(2) ring ringQ step
  by (auto simp: prefix_Cons)

text \<open>The prompt, then exactly the wanted number of bytes.\<close>

lemma prompt_binary_run:
  assumes run: "rx_run I (pre @ data) w w'"
    and inv: "rx_inv I w es ip [] (Some t)" and st: "tk_status t = SEND_TASK_STATUS_PROMPT"
    and p: "prompt_is w t p" "0 \<notin> set p" "length p \<le> 20"
    and pre: "suffix p pre" "\<And>q. strict_prefix q pre \<Longrightarrow> \<not> suffix p q"
    and n: "unat (tk_need_recv_len t) = length data" "1 \<le> length data" "length data \<le> 512"
  shows "binary_done I es ip t w data w'"
proof -
  let ?t = "t\<lparr>tk_status := SEND_TASK_STATUS_BINARY\<rparr>"
  have need: "tk_need_recv_len t \<noteq> 0" using n by auto
  have "p \<noteq> []" using p(1) by (simp add: prompt_is_def)
  then have "pre \<noteq> []" using pre(1) by auto
  then obtain a b where ab: "pre = a @ [b]" by (metis rev_exhaust)
  obtain d e where de: "data = d @ [e]" using n(2) by (metis rev_exhaust list.size(3) not_one_le_zero)
  obtain u where u: "rx_run I a w u" "rx_run I ([b] @ data) u w'" using rx_run_split [OF run, of a "[b] @ data"] ab by auto
  obtain v where v: "rx_run I [b] u v" "rx_run I data v w'" using rx_run_split [OF u(2)] by blast
  obtain x where x: "rx_run I d v x" "rx_run I [e] x w'" using rx_run_split [OF v(2) de] by blast
  have s0: "prompt_state I es ip t p w [] w" using inv p(1) by (simp add: prompt_state_def last_n_def kept_def)
  have su: "prompt_state I es ip t p w a u"
  proof (rule prompt_waits [OF u(1) s0 st need, simplified])
    fix zs assume "prefix zs a"
    then have "strict_prefix zs pre" using ab by (auto simp: strict_prefix_def prefix_def)
    then show "\<not> prompt_seen p (last_n 20 zs)" using pre(2) prompt_seen_window [OF p(3)] by blast
  qed
  have sv: "binary_state I es ip [] ?t w [] v"
  proof (rule rx_run_one [OF v(1), where P = "prompt_state I es ip t p w a"])
    fix q q' assume q: "prompt_state I es ip t p w a q" "handle_byte I b q = ok q'"
    then have iq: "rx_inv I q es ip (stack_bytes (last_n 20 a)) (Some t)" "prompt_is q t p" "trace q = trace w"
        "kept is_caller w q" by (simp_all add: prompt_state_def)
    have "prompt_seen p (last_n 20 (last_n 20 a @ [b]))"
      using pre(1) p(2) prompt_seen_window [OF p(3)] ab by (simp add: last_n_snoc)
    moreover have "resp_is (start_binary (ctx q)) []" using rx_inv_resp(1) [OF iq(1)] by (simp add: resp_is_def start_binary_def)
    ultimately show "binary_state I es ip [] ?t w [] q'"
      using byte_prompt_ok [OF iq(1,2) need, of b] q(2) iq(3) kept_trans [OF iq(4)] by (auto simp: binary_state_def handle_byte_prompt [OF iq(1) st])
  qed (use su in simp_all)
  have sx: "binary_state I es ip [] ?t w d x"
  proof (rule rx_run_from_start [OF x(1), where P = "binary_state I es ip [] ?t w"])
    fix ys q c q'
    assume "binary_state I es ip [] ?t w ys q" "handle_byte I c q = ok q'" "prefix (ys @ [c]) d"
    then show "binary_state I es ip [] ?t w (ys @ [c]) q'"
      using binary_step [of I es ip "[]" ?t w ys q c q'] n de prefix_length_le [of "ys @ [c]" d] by simp
  qed (use sv in simp_all)
  show ?thesis
  proof (rule rx_run_one [OF x(2), where P = "binary_state I es ip [] ?t w d"])
    fix q q' assume "binary_state I es ip [] ?t w d q" "handle_byte I e q = ok q'"
    then show "binary_done I es ip t w data q'"
      using binary_last [of I es ip "[]" ?t w d q e q' ip "[]" t] n de inv by simp
  qed (use sx in simp_all)
qed

section \<open>States that do not end by themselves\<close>

text \<open>A full line buffer: nothing is received any more.\<close>

lemma line_wedged:
  assumes run: "rx_run I bs w w'" and inv: "rx_inv I w es ip xs T" "line_mode T" and full: "length (pending (ctx w)) = 255"
  shows "rx_inv I w' es ip xs T \<and> pending (ctx w') = pending (ctx w) \<and> trace w' = trace w"
proof (rule rx_run_from_start [OF run, where P = "\<lambda>ys v. rx_inv I v es ip xs T \<and> pending (ctx v) = pending (ctx w) \<and> trace v = trace w"])
  fix ys v b v'
  assume v: "rx_inv I v es ip xs T \<and> pending (ctx v) = pending (ctx w) \<and> trace v = trace w" "handle_byte I b v = ok v'"
  then have "v' = v"
    using byte_line_ok [of I v es ip xs T b] inv(2) full by (auto simp: handle_byte_line [OF _ inv(2)])
  then show "rx_inv I v' es ip xs T \<and> pending (ctx v') = pending (ctx w) \<and> trace v' = trace w" using v by simp
qed (use inv in simp_all)

text \<open>A prompt that is too long for the window, or that contains a NUL.\<close>

lemma prompt_never:
  assumes run: "rx_run I bs w w'" and inv: "rx_inv I w es ip [] (Some t)" and st: "tk_status t = SEND_TASK_STATUS_PROMPT"
    and need: "tk_need_recv_len t \<noteq> 0" and p: "prompt_is w t p" "20 < length p \<or> 0 \<in> set p"
  shows "rx_inv I w' es ip (stack_bytes (last_n 20 bs)) (Some t) \<and> trace w' = trace w"
proof -
  have s0: "prompt_state I es ip t p w [] w" using inv p(1) by (simp add: prompt_state_def last_n_def kept_def)
  have "\<not> prompt_seen p (last_n 20 zs)" for zs
    using p(2) suffix_length_le [of p "last_n 20 zs"] by (auto simp: prompt_seen_def)
  with prompt_waits [OF run s0 st need] show ?thesis by (simp add: prompt_state_def)
qed

text \<open>More binary data than the response can hold.\<close>

lemma binary_never:
  assumes run: "rx_run I bs w w'" and inv: "rx_inv I w es ip xs (Some t)" and bin: "tk_status t = SEND_TASK_STATUS_BINARY"
    and n: "512 < unat (tk_need_recv_len t)"
  shows "rx_inv I w' es ip xs (Some t) \<and> trace w' = trace w"
proof (rule rx_run_from_start [OF run, where P = "\<lambda>ys v. rx_inv I v es ip xs (Some t) \<and> trace v = trace w"])
  fix ys v b v'
  assume v: "rx_inv I v es ip xs (Some t) \<and> trace v = trace w" "handle_byte I b v = ok v'"
  have "Suc (unat (response_length (ctx v))) < unat (tk_need_recv_len t) \<or> unat (response_length (ctx v)) = 512"
    using rx_inv_resp(2) [of I v es ip xs "Some t"] v(1) n by auto
  then show "rx_inv I v' es ip xs (Some t) \<and> trace v' = trace w"
    using byte_binary_ok [of I v es ip xs t b] v bin by (auto simp: handle_byte_binary split: if_splits)
qed (use inv in simp_all)

section \<open>The end of a command, from the invariant\<close>

lemma rx_end_frame:
  assumes "rx_inv I w es ip xs (Some t)"
  shows "\<exists>w'. command_end_handle I r w = ok w' \<and> rx_inv I w' es ip [] None \<and> ctx w' = cleared (ctx w) \<and>
    trace w' = trace w @ end_events t r (ctx w) \<and> callers_kept w w' \<and>
    (\<forall>q \<in> {current_send_task (ctx w), tk_data t, tk_prompt t} - {NULL}. heap w' q = None) \<and>
    (tk_response_handler t = Some Sync_Response_Handler \<longrightarrow>
       delivered t r (response (ctx w)) (response_length (ctx w)) w w') \<and>
    (\<forall>q. q \<notin> {current_send_task (ctx w), tk_data t, tk_prompt t} - {NULL} \<longrightarrow> q \<noteq> byte_stack (ctx w) \<longrightarrow>
       q \<notin> answer_cells t \<longrightarrow> heap w' q = heap w q)"
proof -
  have a: "complete I" "task_ok w (current_send_task (ctx w)) t" "stack_rep w (byte_stack (ctx w)) ip 20 xs"
    using assms rx_inv_interface [OF assms] by (auto simp: rx_inv_def task_state_def)
  have n: "unat (response_length (ctx w)) \<le> length (response (ctx w))" using rx_inv_resp [OF assms] by simp
  have c: "task_cells (current_send_task (ctx w)) t = {current_send_task (ctx w), tk_data t, tk_prompt t} - {NULL}"
    using a(2) by (auto simp: task_cells_def task_ok_def)
  obtain w' where "command_end_handle I r w = ok w'" "rx_inv I w' es ip [] None"
    using rx_end_ok [OF assms, of r] by blast
  then show ?thesis using command_end_ok [OF a(1,2) n rx_inv_printable [OF assms] a(3), of r] unfolding c by (intro exI [of _ w']) auto
qed

section \<open>Properties\<close>

text \<open>
  A world in which a command is under way: the two URC handlers for \<open>+\<close>, an empty prompt
  stack, the task \<open>t\<close>, and the bytes \<open>bs\<close> in a ring of eight cells.
\<close>

definition demo_task :: "send_task_status \<Rightarrow> size_t \<Rightarrow> send_task" where
  "demo_task st need = zero_task\<lparr>tk_data := 61, tk_length := 2, tk_response_handler := Some (App_Response_Handler 9),
     tk_timeout := 1000, tk_prompt := 62, tk_prompt_len := 1, tk_need_recv_len := need, tk_status := st\<rparr>"

definition demo_rx_prompt :: "u8 list \<Rightarrow> send_task \<Rightarrow> platform world" where
  "demo_rx_prompt p t = demo_urc_world\<lparr>
     heap := (heap demo_urc_world)(50 \<mapsto> O_Stack \<lparr>sk_items = 51, sk_capacity = 20, sk_top = 0\<rparr>,
       51 \<mapsto> O_Items (replicate 20 None), 60 \<mapsto> O_Task t, 61 \<mapsto> O_Bytes [65, 84], 62 \<mapsto> O_Bytes p),
     ctx := (ctx demo_urc_world)\<lparr>byte_stack := 50, current_send_task := 60,
       rx_buffer := \<lparr>rb_buffer = Some [79, 75, 10, 0], rb_capacity = 4, rb_read_index = 0, rb_write_index = 3\<rparr>\<rparr>\<rparr>"

abbreviation demo_rx :: "send_task \<Rightarrow> platform world" where
  "demo_rx \<equiv> demo_rx_prompt [62]"

lemma demo_urc_fields:
  "line_buffer (ctx demo_urc_world) = replicate 256 0" "line_buffer_index (ctx demo_urc_world) = 0"
  "response (ctx demo_urc_world) = replicate 512 0" "response_length (ctx demo_urc_world) = 0"
  "trace demo_urc_world = []"
  by (simp_all add: demo_urc_world_def demo_list_world_def platform_world_def demo_context_def)

lemma demo_rx_inv:
  assumes "unat (tk_prompt_len t) \<le> length p" "tk_data t = 61" "tk_length t = 2" "tk_prompt t = 62"
    "tk_response_handler t = Some (App_Response_Handler 9)"
  shows "rx_inv platform_interface (demo_rx_prompt p t) demo_table 51 [] (Some t)"
proof -
  have free: "heap demo_urc_world q = None" if "q \<in> {50, 51, 60, 61, 62}" for q
    using that by (auto simp: demo_urc_world_def demo_list_world_def)
  have "urc_inv platform_interface (demo_rx_prompt p t) demo_table"
    by (rule urc_inv_stable [OF demo_urc_inv]) (use free in \<open>auto simp: links_kept_def demo_rx_prompt_def\<close>)
  then show ?thesis using assms demo_urc_fields
    by (simp add: rx_inv_def stack_rep_def buf_ok_def task_state_def task_ok_def bytes_at_def resp_text_def
        demo_rx_prompt_def)
qed

lemma demo_rx_facts:
  "pending (ctx (demo_rx_prompt p t)) = []" "resp_is (ctx (demo_rx_prompt p t)) []" "trace (demo_rx_prompt p t) = []"
  "rx_buffer (ctx (demo_rx_prompt p t)) =
    \<lparr>rb_buffer = Some [79, 75, 10, 0], rb_capacity = 4, rb_read_index = 0, rb_write_index = 3\<rparr>"
  using demo_urc_fields by (simp_all add: pending_def resp_is_def demo_rx_prompt_def)

lemma demo_rx_task:
  "rx_inv platform_interface (demo_rx (demo_task st need)) demo_table 51 [] (Some (demo_task st need))"
  "prompt_is (demo_rx (demo_task st need)) (demo_task st need) [62]"
  by (rule demo_rx_inv) (simp_all add: demo_task_def prompt_is_def demo_rx_prompt_def)

lemma demo_rx_good:
  "st \<noteq> SEND_TASK_STATUS_PROMPT \<or> need \<noteq> 0 \<Longrightarrow> rx_good platform_interface demo_table (demo_rx (demo_task st need))"
  unfolding rx_good_def using demo_rx_task [of st need]
  by (intro exI [of _ 51] exI [of _ "[]"] exI [of _ "Some (demo_task st need)"])
    (auto simp: prompt_ready_def demo_task_def)

text \<open>
  C10: The receive loop always returns, never has undefined behaviour, empties the ring, and
  takes the bytes in the order in which they were received: from every state in which the
  invariant holds, for every contents of the ring.
\<close>

theorem recv_loop_total:
  assumes "rx_good I es w" and "rb_inv (rx_buffer (ctx w))"
  shows "\<exists>w'. recv_data_handle I w = ok w' \<and> rx_good I es w' \<and> rb_inv (rx_buffer (ctx w')) \<and>
    rb_contents (rx_buffer (ctx w')) = [] \<and> rx_run I (rb_contents (rx_buffer (ctx w))) w w'"
  using recv_data_ok [OF assms] recv_data_run [OF assms] by blast

theorem recv_loop_total_witness:
  "\<exists>w'. recv_data_handle platform_interface (demo_rx (demo_task SEND_TASK_STATUS_LINE_RECV 0)) = ok w' \<and>
     rx_run platform_interface [79, 75, 10] (demo_rx (demo_task SEND_TASK_STATUS_LINE_RECV 0)) w'"
proof -
  let ?w = "demo_rx (demo_task SEND_TASK_STATUS_LINE_RECV 0)"
  have "rb_inv (rx_buffer (ctx ?w))" "rb_contents (rx_buffer (ctx ?w)) = [79, 75, 10]"
    by (simp_all add: demo_rx_facts rb_inv_def rb_contents_def rb_count_def upt_rec)
  then show ?thesis using recv_loop_total [OF demo_rx_good, of SEND_TASK_STATUS_LINE_RECV 0] by auto
qed

text \<open>
  C1: A command in line mode gets its whole response: whatever lines arrive, replies and
  unsolicited ones mixed, and however they are spread over interrupts, the unsolicited lines
  go to their handlers, the replies up to and including the line that begins with \<open>OK\<close> or
  \<open>ERROR\<close> are passed to the response handler in one call with the matching result, and
  no task is left.  The response holds them one after the other; a line that does not fit into
  its 512 bytes is left out, and the handler is not told.
\<close>

theorem command_response_delivered:
  assumes "rx_run I (concat lns @ fin) w w'" and "rx_inv I w es ip xs (Some t)"
    and "tk_status t = SEND_TASK_STATUS_LINE_RECV"
    and "tk_response_handler t = Some (App_Response_Handler f)"
    and "pending (ctx w) = []" and "resp_is (ctx w) []"
    and "\<forall>ln \<in> set lns. text_line ln \<and> line_ends es ln = None"
    and "text_line fin" and "line_ends es fin = Some r"
    and "reply = gather [] (filter (is_reply es) lns @ [fin])"
  shows "current_send_task (ctx w') = NULL \<and>
    trace w' = trace w @ line_calls es lns @ [Ev_Response f r reply (of_nat (length reply))] \<and>
    (length (concat (filter (is_reply es) lns) @ fin) < 512 \<longrightarrow> reply = concat (filter (is_reply es) lns) @ fin)"
  using command_run [OF assms(1-3,5,7-9,6,10)] assms(4) gather_fits [of "[]" "filter (is_reply es) lns @ [fin]"]
  unfolding assms(10) by (simp add: rx_inv_def task_state_def)

theorem command_response_delivered_witness:
  "\<exists>w'. rx_run platform_interface ([43, 67, 10] @ [65, 66, 10] @ [79, 75, 10])
       (demo_rx (demo_task SEND_TASK_STATUS_LINE_RECV 0)) w' \<and>
     trace w' = [Ev_Urc 7 [43, 67, 10], Ev_Urc 7 [43, 67, 10], Ev_Response 9 ATC_SUCCESS [65, 66, 10, 79, 75, 10] 6]"
proof -
  let ?t = "demo_task SEND_TASK_STATUS_LINE_RECV 0" and ?lns = "[[43, 67, 10], [65, 66, 10]] :: u8 list list"
  obtain w' where run: "rx_run platform_interface (concat ?lns @ [79, 75, 10]) (demo_rx ?t) w'"
    using rx_run_exists [OF demo_rx_good] by blast
  have m: "urc_match ln e = prefix [43] (cstr ln)" if "(a, e) \<in> set demo_table" for a e ln
    using that by (auto simp: demo_table_def demo_entry_def urc_match_def cstr_def)
  have l: "\<forall>ln \<in> set ?lns. text_line ln \<and> line_ends demo_table ln = None" "text_line [79, 75, 10 :: u8]"
    by (auto simp: text_line_def line_ends_def verdict_def demo_table_def demo_entry_def urc_match_def cstr_def
        Cons_eq_append_conv)
  have e: "line_ends demo_table [79, 75, 10] = Some ATC_SUCCESS" "filter (is_reply demo_table) ?lns = [[65, 66, 10]]"
    "line_calls demo_table ?lns = [Ev_Urc 7 [43, 67, 10], Ev_Urc 7 [43, 67, 10]]"
    by (simp_all add: line_ends_def verdict_def is_reply_def line_calls_def urc_calls_def demo_table_def demo_entry_def
        urc_match_def cstr_def)
  have st: "tk_status ?t = SEND_TASK_STATUS_LINE_RECV" "tk_response_handler ?t = Some (App_Response_Handler 9)"
    by (simp_all add: demo_task_def)
  show ?thesis
    using command_response_delivered [OF run demo_rx_task(1) st demo_rx_facts(1,2) l e(1) refl] run e demo_rx_facts(3)
    by auto
qed

text \<open>
  The prompt is recognised at the first position where the received bytes end with it,
  however they are split and overlap, and exactly the wanted number of bytes after it is
  delivered, for prompts of 1 to 20 bytes without NUL and 1 to 512 bytes of data.
\<close>

theorem prompt_then_binary:
  assumes "rx_run I (pre @ data) w w'" and "rx_inv I w es ip [] (Some t)"
    and "tk_status t = SEND_TASK_STATUS_PROMPT" and "tk_response_handler t = Some (App_Response_Handler f)"
    and "prompt_is w t p" and "0 \<notin> set p" and "length p \<le> 20"
    and "suffix p pre" and "\<And>q. strict_prefix q pre \<Longrightarrow> \<not> suffix p q"
    and "unat (tk_need_recv_len t) = length data" and "1 \<le> length data" and "length data \<le> 512"
  shows "current_send_task (ctx w') = NULL \<and>
    trace w' = trace w @ [Ev_Response f ATC_SUCCESS data (tk_need_recv_len t)]"
  using prompt_binary_run [OF assms(1-3,5-12)] assms(4) unfolding binary_done_def
  by (auto simp: rx_inv_def task_state_def simp flip: assms(10))

theorem prompt_then_binary_witness:
  "\<exists>w'. rx_run platform_interface ([13, 10, 62] @ [1, 0]) (demo_rx (demo_task SEND_TASK_STATUS_PROMPT 2)) w' \<and>
     trace w' = [Ev_Response 9 ATC_SUCCESS [1, 0] 2]"
proof -
  let ?t = "demo_task SEND_TASK_STATUS_PROMPT 2"
  obtain w' where run: "rx_run platform_interface ([13, 10, 62] @ [1, 0]) (demo_rx ?t) w'"
    using rx_run_exists [OF demo_rx_good] by force
  have first: "\<not> suffix [62] q" if "strict_prefix q [13, 10, 62 :: u8]" for q
    using that by (auto simp: strict_prefix_def prefix_Cons suffix_def)
  have "suffix [62] [13, 10, 62 :: u8]" by (simp add: suffix_def)
  from prompt_then_binary [OF run demo_rx_task(1) _ _ demo_rx_task(2) _ _ this first] show ?thesis
    using run demo_rx_facts(3) by (auto simp: demo_task_def)
qed

text \<open>
  C29: A prompt with no data to follow crashes the event loop: \<open>recv_len = 0\<close> is documented,
  but on a match \<open>command_end_handle\<close> clears the task, and the loop condition then
  reads \<open>context->current_send_task->prompt_len\<close> through the null pointer.  This happens
  exactly when the received bytes end with the prompt.
\<close>

theorem prompt_without_data_crashes:
  assumes "rx_inv I w es ip (stack_bytes ys) (Some t)" and "tk_status t = SEND_TASK_STATUS_PROMPT"
    and "prompt_is w t p" and "tk_need_recv_len t = 0"
  shows "handle_byte I b w = fail NullDeref \<longleftrightarrow> 0 \<notin> set p \<and> suffix p (last_n 20 (ys @ [b]))"
  using byte_prompt_zero [OF assms(1,3,4), of b] handle_byte_prompt [OF assms(1,2), of b]
  by (simp add: prompt_seen_def)

theorem prompt_without_data_crashes_witness:
  "handle_byte platform_interface 62 (demo_rx (demo_task SEND_TASK_STATUS_PROMPT 0)) = fail NullDeref"
  using prompt_without_data_crashes [of platform_interface "demo_rx (demo_task SEND_TASK_STATUS_PROMPT 0)"
      demo_table 51 "[]" "demo_task SEND_TASK_STATUS_PROMPT 0" "[62]" 62] demo_rx_task
  by (simp add: demo_task_def last_n_def)

text \<open>
  C30: A line of 255 bytes without a newline blocks line reception for good: from then on,
  whatever is received, no handler is called and no response ends, because the full buffer
  also swallows the newline and \<open>line_buffer_index\<close> is never reset.
\<close>

theorem full_line_buffer_wedges:
  assumes "rx_run I (ln @ bs) w w'" and "rx_inv I w es ip xs T" and "line_mode T"
    and "pending (ctx w) = []" and "length ln = 255" and "10 \<notin> set ln"
  shows "trace w' = trace w \<and> pending (ctx w') = ln"
proof -
  obtain v where v: "rx_run I ln w v" "rx_run I bs v w'" using rx_run_split [OF assms(1)] by blast
  have "rx_inv I v es ip xs T" "pending (ctx v) = ln" "trace v = trace w"
    using line_collect [OF v(1) assms(2,3,6)] assms(4,5) by (auto simp: same_reply_def)
  then show ?thesis using line_wedged [OF v(2) _ assms(3)] assms(5) by auto
qed

theorem full_line_buffer_wedges_witness:
  "\<exists>w'. rx_run platform_interface (replicate 255 65 @ [10, 79, 75, 10])
     (demo_rx (demo_task SEND_TASK_STATUS_LINE_RECV 0)) w' \<and> trace w' = []"
proof -
  let ?w = "demo_rx (demo_task SEND_TASK_STATUS_LINE_RECV 0)"
  obtain w' where run: "rx_run platform_interface (replicate 255 65 @ [10, 79, 75, 10]) ?w w'"
    using rx_run_exists [OF demo_rx_good] by blast
  have "line_mode (Some (demo_task SEND_TASK_STATUS_LINE_RECV 0))" by (simp add: line_mode_def demo_task_def)
  from full_line_buffer_wedges [OF run demo_rx_task(1) this demo_rx_facts(1)] show ?thesis
    using run demo_rx_facts(3) by auto
qed

text \<open>
  C31: A prompt of more than 20 bytes, or with a NUL in it, is never recognised, although the
  API takes any \<open>prompt\<close> and \<open>prompt_len\<close>: the task stays in prompt mode whatever arrives.
\<close>

theorem prompt_unmatchable:
  assumes "rx_run I bs w w'" and "rx_inv I w es ip [] (Some t)" and "tk_status t = SEND_TASK_STATUS_PROMPT"
    and "tk_need_recv_len t \<noteq> 0" and "prompt_is w t p" and "20 < length p \<or> 0 \<in> set p"
  shows "trace w' = trace w \<and> task_ok w' (current_send_task (ctx w')) t"
  using prompt_never [OF assms] by (simp add: rx_inv_def task_state_def)

theorem prompt_unmatchable_witness:
  "\<exists>w'. rx_run platform_interface [0, 62] (demo_rx_prompt [0] (demo_task SEND_TASK_STATUS_PROMPT 2)) w' \<and> trace w' = []"
proof -
  let ?t = "demo_task SEND_TASK_STATUS_PROMPT 2" and ?w = "demo_rx_prompt [0] (demo_task SEND_TASK_STATUS_PROMPT 2)"
  have inv: "rx_inv platform_interface ?w demo_table 51 [] (Some ?t)" and p: "prompt_is ?w ?t [0]"
    by (rule demo_rx_inv) (simp_all add: demo_task_def prompt_is_def demo_rx_prompt_def)
  have "rx_good platform_interface demo_table ?w"
    unfolding rx_good_def using inv p
    by (intro exI [of _ 51] exI [of _ "[]"] exI [of _ "Some ?t"]) (auto simp: prompt_ready_def demo_task_def)
  then obtain w' where run: "rx_run platform_interface [0, 62] ?w w'" using rx_run_exists by blast
  from prompt_unmatchable [OF run inv _ _ p] show ?thesis
    using run demo_rx_facts(3) by (auto simp: demo_task_def)
qed

text \<open>
  C32: A request for more than 512 bytes never completes: the response is full before the
  wanted number is reached, the further bytes are dropped, and only the timeout ends the task.
\<close>

theorem binary_oversized_stuck:
  assumes "rx_run I bs w w'" and "rx_inv I w es ip xs (Some t)" and "tk_status t = SEND_TASK_STATUS_BINARY"
    and "512 < unat (tk_need_recv_len t)"
  shows "trace w' = trace w \<and> task_ok w' (current_send_task (ctx w')) t"
  using binary_never [OF assms] by (simp add: rx_inv_def task_state_def)

theorem binary_oversized_stuck_witness:
  "\<exists>w'. rx_run platform_interface [1, 2] (demo_rx (demo_task SEND_TASK_STATUS_BINARY 513)) w' \<and> trace w' = []"
proof -
  obtain w' where run: "rx_run platform_interface [1, 2] (demo_rx (demo_task SEND_TASK_STATUS_BINARY 513)) w'"
    using rx_run_exists [OF demo_rx_good] by force
  from binary_oversized_stuck [OF run demo_rx_task(1)] show ?thesis
    using run demo_rx_facts(3) by (auto simp: demo_task_def)
qed

text \<open>
  C28: The interrupt entry appends to the ring as many of the offered bytes as fit, in
  order, and returns their number; it wakes the event loop exactly when all of them fit.
\<close>

theorem receive_data_appends:
  assumes "complete I" and "rb_inv (rx_buffer (ctx w))" and "0 < unat len" and "unat len \<le> length bs"
  shows "\<exists>k w'. atc_receive_data I (Some bs) len w = ok (int k, w') \<and>
    k = min (unat len) (unat (rb_capacity (rx_buffer (ctx w))) - 1 - rb_count (rx_buffer (ctx w))) \<and>
    rb_contents (rx_buffer (ctx w')) = rb_contents (rx_buffer (ctx w)) @ take k bs \<and>
    rb_inv (rx_buffer (ctx w')) \<and> heap w' = heap w \<and>
    trace w' = trace w @ (if k = unat len then [Ev_Give_Isr (wake_semaphore (ctx w))] else [])"
proof -
  let ?free = "unat (rb_capacity (rx_buffer (ctx w))) - 1 - rb_count (rx_buffer (ctx w))"
  have "take ?free (take (unat len) bs) = take (min (unat len) ?free) bs" by (simp add: min.commute)
  moreover have "(unat len \<le> ?free) = (min (unat len) ?free = unat len)" by linarith
  ultimately show ?thesis using atc_receive_data_ok [OF assms] by auto
qed

theorem receive_data_appends_witness:
  "\<exists>w'. atc_receive_data platform_interface (Some [65, 66]) 2
       (with_rx \<lparr>rb_buffer = Some [0, 0, 0], rb_capacity = 3, rb_read_index = 0, rb_write_index = 1\<rparr> platform_world) =
     ok (1, w') \<and> rb_contents (rx_buffer (ctx w')) = [0, 65] \<and> trace w' = []"
proof -
  let ?h = "\<lparr>rb_buffer = Some [0, 0, 0], rb_capacity = 3, rb_read_index = 0, rb_write_index = 1\<rparr>"
  have "rb_inv ?h" "rb_count ?h = 1" "rb_contents ?h = [0]"
    by (simp_all add: rb_inv_def rb_count_def rb_contents_def)
  then show ?thesis
    using receive_data_appends [OF platform_complete, of "with_rx ?h platform_world" 2 "[65, 66]"]
    by (auto simp: platform_world_def)
qed

text \<open>
  C26: The end of a command leaks nothing and frees nothing else: the handler runs once; the
  task, its data and its prompt are freed; the task pointer is reset, all 512 bytes of the response
  are cleared and its length is 0, and no other field of the context changes; the prompt stack is
  empty; and no other object changes but those variables of a blocked caller that its own task
  names, if it has any (\<open>answer_cells\<close>: the result, and the buffer with its length).
\<close>

theorem command_end_releases:
  assumes "rx_inv I w es ip xs (Some t)"
  shows "\<exists>w'. command_end_handle I r w = ok w' \<and>
    ctx w' = (ctx w)\<lparr>current_send_task := NULL, response := replicate 512 0, response_length := 0\<rparr> \<and>
    stack_rep w' (byte_stack (ctx w')) ip 20 [] \<and> trace w' = trace w @ end_events t r (ctx w) \<and>
    (\<forall>q. let freed = q \<in> {current_send_task (ctx w), tk_data t, tk_prompt t} - {NULL} in
      (freed \<longrightarrow> heap w' q = None) \<and>
      (\<not> freed \<and> q \<noteq> byte_stack (ctx w) \<and> q \<notin> answer_cells t \<longrightarrow> heap w' q = heap w q))"
  using rx_end_frame [OF assms, of r] rx_inv_resp(1) [OF assms] unfolding Let_def by (auto simp: cleared_def rx_inv_def)

theorem command_end_releases_witness:
  "\<exists>w'. command_end_handle platform_interface ATC_TIMEOUT (demo_rx (demo_task SEND_TASK_STATUS_PROMPT 0)) = ok w' \<and>
     heap w' 60 = None \<and> heap w' 61 = None \<and> heap w' 62 = None \<and> heap w' 30 = Some (O_Entry (demo_entry 1)) \<and>
     trace w' = [Ev_Response 9 ATC_TIMEOUT [] 0]"
proof -
  let ?t = "demo_task SEND_TASK_STATUS_PROMPT 0" and ?w = "demo_rx (demo_task SEND_TASK_STATUS_PROMPT 0)"
  obtain w' where w': "command_end_handle platform_interface ATC_TIMEOUT ?w = ok w'"
      "trace w' = trace ?w @ end_events ?t ATC_TIMEOUT (ctx ?w)"
      "\<forall>q. let freed = q \<in> {current_send_task (ctx ?w), tk_data ?t, tk_prompt ?t} - {NULL} in
      (freed \<longrightarrow> heap w' q = None) \<and>
      (\<not> freed \<and> q \<noteq> byte_stack (ctx ?w) \<and> q \<notin> answer_cells ?t \<longrightarrow> heap w' q = heap ?w q)"
    using command_end_releases [OF demo_rx_task(1), of ATC_TIMEOUT] by blast
  have c: "current_send_task (ctx ?w) = 60" "byte_stack (ctx ?w) = 50" "tk_data ?t = 61" "tk_prompt ?t = 62"
      "heap ?w 30 = Some (O_Entry (demo_entry 1))" "end_events ?t ATC_TIMEOUT (ctx ?w) = [Ev_Response 9 ATC_TIMEOUT [] 0]"
      "answer_cells ?t = {}"
    using demo_rx_facts(2) [of "[62]" ?t]
    by (simp_all add: demo_rx_prompt_def demo_task_def demo_urc_world_def demo_list_world_def end_events_def resp_is_def
        answer_cells_def)
  show ?thesis using w' c demo_rx_facts(3) spec [OF w'(3), of 30] spec [OF w'(3), of 60] spec [OF w'(3), of 61]
      spec [OF w'(3), of 62] by auto
qed

text \<open>
  C27: A blocked sender gets the result, and of the response as many bytes as both sides
  have: at most the size it offered, never beyond its buffer.  An empty response leaves the length
  variable at the size that was offered.  It is woken exactly once, after its variables were
  written: its semaphore is given in a world \<open>v\<close> that already holds the whole answer, is otherwise
  the one the command ended in, and in which nothing of the platform has been called yet.  The
  task is freed only after that, and the variables are not touched again.
\<close>

theorem sync_end_delivers:
  assumes "rx_inv I w es ip xs (Some t)" and "tk_response_handler t = Some Sync_Response_Handler"
    and "tk_sync_response_buf t \<noteq> NULL" and "tk_sync_response_length t \<noteq> NULL" and "tk_semaphore t \<noteq> NULL"
  shows "\<exists>w' m b v. command_end_handle I r w = ok w' \<and> trace w' = trace w @ [Ev_Give (tk_semaphore t)] \<and>
    heap w (tk_sync_response_length t) = Some (O_Size m) \<and> heap w (tk_sync_response_buf t) = Some (O_Buf b) \<and>
    (let n = response_length (ctx w); k = unat (min n m) in
       k \<le> length b \<and>
       heap v (tk_sync_response_buf t) = Some (O_Buf (take k (response (ctx w)) @ drop k b)) \<and>
       heap v (tk_sync_response_length t) = Some (O_Size (if n = 0 then m else min n m))) \<and>
    (tk_sync_send_result t \<noteq> NULL \<longrightarrow> heap v (tk_sync_send_result t) = Some (O_Result r)) \<and>
    (\<forall>q. q \<notin> answer_cells t \<longrightarrow> heap v q = heap w q) \<and> ctx v = ctx w \<and> os v = os w \<and> trace v = trace w \<and>
    command_end_handle I r w = rbind (os_sem_give I (tk_semaphore t) v) (\<lambda>v.
      rbind (free_task I (current_send_task (ctx w)) v) (\<lambda>v.
      stack_clear (byte_stack (ctx v)) None (clear_response_buffer v))) \<and>
    (\<forall>q \<in> answer_cells t. heap w' q = heap v q)"
proof -
  have t: "task_ok w (current_send_task (ctx w)) t" using assms(1) by (simp add: rx_inv_def task_state_def)
  obtain w' where w': "command_end_handle I r w = ok w'" "trace w' = trace w @ end_events t r (ctx w)"
      "delivered t r (response (ctx w)) (response_length (ctx w)) w w'"
    using rx_end_frame [OF assms(1), of r] assms(2) by blast
  have s: "sync_ok w t" using t assms(2) by (simp add: task_ok_def)
  then obtain m b where mb: "heap w (tk_sync_response_length t) = Some (O_Size m)"
      "heap w (tk_sync_response_buf t) = Some (O_Buf b)" "unat m \<le> length b"
    using assms(3,4) by (auto simp: sync_ok_def)
  have k: "unat (min (response_length (ctx w)) m) \<le> length b"
    using mb(3) by (auto simp: min_def word_le_nat_alt)
  have n: "unat (response_length (ctx w)) \<le> length (response (ctx w))" using rx_inv_resp [OF assms(1)] by simp
  have c: "caller_holds w t m b" using mb by (simp add: caller_holds_def)
  let ?v = "sync_answer t r (response (ctx w)) (response_length (ctx w)) m b w"
  note v = sync_answer_frame [OF s c, where r = r and resp = "response (ctx w)" and n = "response_length (ctx w)"]
  have d: "delivered t r (response (ctx w)) (response_length (ctx w)) w ?v" by (rule sync_answer_delivered [OF s c n])
  have a: "answer_cells t = sync_cells t" using assms(2) by (simp add: answer_cells_def)
  have "trace w' = trace w @ [Ev_Give (tk_semaphore t)]" using w'(2) assms(2,5) by (simp add: end_events_def)
  moreover have "heap w' q = heap ?v q" if "q \<in> answer_cells t" for q
    using that w'(3) d mb assms(3,4) unfolding a by (auto simp: sync_cells_def delivered_def split: if_splits)
  moreover have "heap ?v (tk_sync_response_buf t) =
       Some (O_Buf (take (unat (min (response_length (ctx w)) m)) (response (ctx w)) @ drop (unat (min (response_length (ctx w)) m)) b))"
    "heap ?v (tk_sync_response_length t) = Some (O_Size (if response_length (ctx w) = 0 then m else min (response_length (ctx w)) m))"
    "tk_sync_send_result t \<noteq> NULL \<longrightarrow> heap ?v (tk_sync_send_result t) = Some (O_Result r)"
    using d mb assms(3,4) by (auto simp: delivered_def split: if_splits)
  ultimately show ?thesis
    using w'(1) mb(1,2) k v(1,2,5,6) a command_end_order [OF _ t rx_inv_printable [OF assms(1)] n assms(2,5) c, of I r]
      rx_inv_interface [OF assms(1)]
    by (intro exI [of _ w'] exI [of _ m] exI [of _ b] exI [of _ ?v]) (simp add: Let_def)
qed

definition demo_sync_world :: "platform world" where
  "demo_sync_world = (let t = (demo_task SEND_TASK_STATUS_LINE_RECV 0)\<lparr>tk_response_handler := Some Sync_Response_Handler,
        tk_semaphore := 5, tk_sync_send_result := 70, tk_sync_response_buf := 71, tk_sync_response_length := 72\<rparr>;
      w = demo_rx t
    in w\<lparr>heap := (heap w)(70 \<mapsto> O_Result ATC_ERROR, 71 \<mapsto> O_Buf [1, 2], 72 \<mapsto> O_Size 2),
         ctx := (ctx w)\<lparr>response := [79, 75, 10] @ replicate 509 0, response_length := 3\<rparr>\<rparr>)"

lemma demo_sync_inv:
  "rx_inv platform_interface demo_sync_world demo_table 51 []
    (Some ((demo_task SEND_TASK_STATUS_LINE_RECV 0)\<lparr>tk_response_handler := Some Sync_Response_Handler,
        tk_semaphore := 5, tk_sync_send_result := 70, tk_sync_response_buf := 71, tk_sync_response_length := 72\<rparr>))"
proof -
  have free: "heap demo_urc_world q = None" if "q \<in> {50, 51, 60, 61, 62, 70, 71, 72}" for q
    using that by (auto simp: demo_urc_world_def demo_list_world_def)
  have "urc_inv platform_interface demo_sync_world demo_table"
    by (rule urc_inv_stable [OF demo_urc_inv])
      (use free in \<open>auto simp: links_kept_def demo_rx_prompt_def demo_sync_world_def Let_def\<close>)
  then show ?thesis using demo_urc_fields
    by (simp add: rx_inv_def stack_rep_def buf_ok_def task_state_def task_ok_def bytes_at_def resp_text_def sync_ok_def
        demo_rx_prompt_def demo_sync_world_def demo_task_def Let_def cstr_nul_free cstr_def)
qed

theorem sync_end_delivers_witness:
  "\<exists>w'. command_end_handle platform_interface ATC_SUCCESS demo_sync_world = ok w' \<and>
     heap w' 70 = Some (O_Result ATC_SUCCESS) \<and> heap w' 71 = Some (O_Buf [79, 75]) \<and> heap w' 72 = Some (O_Size 2)"
  using sync_end_delivers [OF demo_sync_inv, of ATC_SUCCESS]
  by (simp add: demo_sync_world_def demo_rx_prompt_def Let_def answer_cells_def sync_cells_def) (auto simp: min_def)

end
