(* ===== verification/Recv_Status.thy ===== *)
theory Recv_Status
  imports Recv_Scenarios
begin

text \<open>
  The status of the current task while bytes are received: the order of the C enumeration,
  and that reception only moves it forward and changes nothing else in the task.
\<close>

section \<open>The order of the statuses\<close>

primrec status_code :: "send_task_status \<Rightarrow> nat" where
  "status_code SEND_TASK_STATUS_LINE_RECV = 0"
| "status_code SEND_TASK_STATUS_PROMPT = 1"
| "status_code SEND_TASK_STATUS_BINARY = 2"

lemma status_code_inj: "status_code s = status_code t \<Longrightarrow> s = t"
  by (cases s; cases t) simp_all

instantiation send_task_status :: linorder
begin

definition less_eq_send_task_status :: "send_task_status \<Rightarrow> send_task_status \<Rightarrow> bool" where
  "s \<le> t \<longleftrightarrow> status_code s \<le> status_code t"

definition less_send_task_status :: "send_task_status \<Rightarrow> send_task_status \<Rightarrow> bool" where
  "s < t \<longleftrightarrow> status_code s < status_code t"

instance
  by standard (auto simp: less_eq_send_task_status_def less_send_task_status_def dest: status_code_inj)

end

lemma prompt_before_binary [simp]: "SEND_TASK_STATUS_PROMPT \<le> SEND_TASK_STATUS_BINARY"
  by (simp add: less_eq_send_task_status_def)

section \<open>One byte\<close>

text \<open>The task \<open>t\<close> at \<open>p\<close> has ended, or is still current with the status \<open>s\<close>.\<close>

definition task_at :: "'os atc_interface \<Rightarrow> urc_table \<Rightarrow> send_task \<Rightarrow> addr \<Rightarrow> send_task_status \<Rightarrow> 'os world \<Rightarrow> bool" where
  "task_at I es t p s w \<longleftrightarrow> current_send_task (ctx w) = p \<and>
     (\<exists>ip ys. rx_inv I w es ip (stack_bytes ys) (Some (t\<lparr>tk_status := s\<rparr>)) \<and> prompt_ready w (Some (t\<lparr>tk_status := s\<rparr>)))"

definition task_over :: "'os atc_interface \<Rightarrow> urc_table \<Rightarrow> 'os world \<Rightarrow> bool" where
  "task_over I es w \<longleftrightarrow> (\<exists>ip ys. rx_inv I w es ip (stack_bytes ys) None)"

lemma task_at_cell:
  "task_at I es t p s w \<Longrightarrow> current_send_task (ctx w) = p \<and> heap w p = Some (O_Task (t\<lparr>tk_status := s\<rparr>))"
  by (auto simp: task_at_def rx_inv_def task_state_def task_ok_def)

lemma task_at_ring [simp]: "task_at I es t p s (with_rx h w) = task_at I es t p s w"
  by (simp add: task_at_def prompt_ready_def prompt_is_def)

lemma task_over_ring [simp]: "task_over I es (with_rx h w) = task_over I es w"
  by (simp add: task_over_def)

lemma task_overI: "rx_inv I w es ip (stack_bytes ys) None \<Longrightarrow> task_over I es w"
  unfolding task_over_def by blast

lemma byte_task_over:
  assumes "task_over I es w" and run: "handle_byte I b w = ok w'"
  shows "task_over I es w'"
proof -
  obtain ip ys where inv: "rx_inv I w es ip (stack_bytes ys) None" using assms(1) by (auto simp: task_over_def)
  have m: "line_mode None" "is_text_mode None" by (simp_all add: line_mode_def is_text_mode_def)
  have "\<exists>zs. rx_inv I w' es ip zs None \<and> (zs = [] \<or> zs = stack_bytes ys)"
    using byte_line_ok [OF inv m(2), of b] run inv by (auto simp: handle_byte_line [OF inv m(1)] split: if_splits)
  then show ?thesis unfolding task_over_def by (metis list.simps(8))
qed

lemma byte_line_task:
  assumes inv: "rx_inv I w es ip xs (Some t)" and st: "tk_status t = SEND_TASK_STATUS_LINE_RECV"
    and run: "handle_byte I b w = ok w'"
  shows "(\<exists>zs. rx_inv I w' es ip zs None \<and> (zs = [] \<or> zs = xs)) \<or>
    rx_inv I w' es ip xs (Some t) \<and> current_send_task (ctx w') = current_send_task (ctx w)"
proof -
  have m: "line_mode (Some t)" using st by (simp add: line_mode_def)
  let ?n = "length (pending (ctx w))" and ?ln = "pending (ctx w) @ [10]"
  have "byte_line_handle I b w = ok w'" using run handle_byte_line [OF inv m] by simp
  with byte_line_ok [OF inv line_mode_text [OF m], of b] consider "w' = w"
    | buf where "w' = set_line buf (line_buffer_index (ctx w) + 1) w" "rx_inv I w' es ip xs (Some t)"
    | buf v where "line_effect I es ip (Some t) ?ln (set_line buf (line_buffer_index (ctx w) + 1) w) v"
      "w' = upd_ctx (\<lambda>c. c\<lparr>line_buffer_index := 0\<rparr>) v"
      "rx_inv I w' es ip (if line_ends es ?ln = None then xs else []) (if line_ends es ?ln = None then Some t else None)"
    by (auto split: if_splits)
  then show ?thesis
  proof cases
    case 3
    then show ?thesis
      by (cases "line_ends es ?ln") (auto simp: line_effect_def set_line_def push_ctx_def split: if_splits)
  qed (use inv in \<open>simp_all add: set_line_def\<close>)
qed

lemma byte_task_at:
  assumes at: "task_at I es t p s w" and run: "handle_byte I b w = ok w'"
  shows "task_over I es w' \<or> (\<exists>s'. task_at I es t p s' w' \<and> (s' = s \<or> s = SEND_TASK_STATUS_PROMPT \<and> s' = SEND_TASK_STATUS_BINARY))"
proof -
  let ?t = "t\<lparr>tk_status := s\<rparr>"
  obtain ip ys where inv: "rx_inv I w es ip (stack_bytes ys) (Some ?t)" and q: "prompt_ready w (Some ?t)"
    and p: "current_send_task (ctx w) = p" using at by (auto simp: task_at_def)
  show ?thesis
  proof (cases s)
    case SEND_TASK_STATUS_LINE_RECV
    then show ?thesis using byte_line_task [OF inv _ run] p
      by (auto simp: task_at_def prompt_ready_def intro: task_overI task_overI [of _ _ _ _ "[]", simplified])
  next
    case SEND_TASK_STATUS_PROMPT
    then obtain r where r: "prompt_is w ?t r" "tk_need_recv_len ?t \<noteq> 0" using q by (auto simp: prompt_ready_def)
    have h: "byte_prompt_handle I b w = ok w'" using run handle_byte_prompt [OF inv, of b] SEND_TASK_STATUS_PROMPT by simp
    show ?thesis
    proof (cases "prompt_seen r (last_n 20 (ys @ [b]))")
      case True
      then have "rx_inv I w' es ip (stack_bytes []) (Some (t\<lparr>tk_status := SEND_TASK_STATUS_BINARY\<rparr>))" "current_send_task (ctx w') = p"
        using byte_prompt_ok [OF inv r, of b] h p by (auto simp: start_binary_def)
      then have "task_at I es t p SEND_TASK_STATUS_BINARY w'" unfolding task_at_def prompt_ready_def by fastforce
      then show ?thesis using SEND_TASK_STATUS_PROMPT by blast
    next
      case False
      then have "rx_inv I w' es ip (stack_bytes (last_n 20 (ys @ [b]))) (Some ?t)" "current_send_task (ctx w') = p" "prompt_is w' ?t r"
        using byte_prompt_ok [OF inv r, of b] h p by auto
      then have "task_at I es t p s w'" using r(2) unfolding task_at_def prompt_ready_def by blast
      then show ?thesis by blast
    qed
  next
    case SEND_TASK_STATUS_BINARY
    then have "byte_binary_handle I b w = ok w'" using run handle_byte_binary [OF inv, of b] by simp
    with byte_binary_ok [OF inv, of b] SEND_TASK_STATUS_BINARY consider
      "rx_inv I w' es ip (stack_bytes []) None" | "w' = w" | "rx_inv I w' es ip (stack_bytes ys) (Some ?t)" "w' = upd_ctx (push_byte b) w"
      by (auto split: if_splits)
    then show ?thesis
    proof cases
      case 3
      then have "task_at I es t p s w'"
        using p SEND_TASK_STATUS_BINARY unfolding task_at_def by (auto simp: prompt_ready_def push_byte_def)
      then show ?thesis by blast
    qed (use at task_overI in blast)+
  qed
qed

text \<open>Any sequence of bytes: the status stays, or goes from the prompt to the data, once.\<close>

lemma run_task_at:
  assumes run: "rx_run I bs w w'" and at: "task_at I es t p s w"
  shows "task_over I es w' \<or> (\<exists>s'. task_at I es t p s' w' \<and> (s' = s \<or> s = SEND_TASK_STATUS_PROMPT \<and> s' = SEND_TASK_STATUS_BINARY))"
proof (rule rx_run_from_start [OF run, where P = "\<lambda>ys v. task_over I es v \<or>
    (\<exists>s'. task_at I es t p s' v \<and> (s' = s \<or> s = SEND_TASK_STATUS_PROMPT \<and> s' = SEND_TASK_STATUS_BINARY))"])
  fix ys v b v'
  assume v: "task_over I es v \<or> (\<exists>s'. task_at I es t p s' v \<and> (s' = s \<or> s = SEND_TASK_STATUS_PROMPT \<and> s' = SEND_TASK_STATUS_BINARY))"
    "handle_byte I b v = ok v'"
  then show "task_over I es v' \<or> (\<exists>s'. task_at I es t p s' v' \<and> (s' = s \<or> s = SEND_TASK_STATUS_PROMPT \<and> s' = SEND_TASK_STATUS_BINARY))"
    using byte_task_over byte_task_at send_task_status.distinct by metis
qed (use at in auto)

section \<open>Properties\<close>

text \<open>
  C9: While bytes are received, whichever they are, the current task either ends, and then none is
  current, or it stays at its place with every field unchanged but the status; and the status
  only moves forward, from waiting for the prompt to receiving binary data.
\<close>

theorem status_moves_forward:
  assumes "rx_good I es w" and "current_send_task (ctx w) = p" and "p \<noteq> NULL" and "heap w p = Some (O_Task t)"
    and "rx_run I bs w w'"
  shows "current_send_task (ctx w') = NULL \<or>
    current_send_task (ctx w') = p \<and> (\<exists>s. heap w' p = Some (O_Task (t\<lparr>tk_status := s\<rparr>)) \<and> tk_status t \<le> s \<and>
      (s \<noteq> tk_status t \<longrightarrow> tk_status t = SEND_TASK_STATUS_PROMPT \<and> s = SEND_TASK_STATUS_BINARY))"
proof -
  obtain ip ys T where inv: "rx_inv I w es ip (stack_bytes ys) T" "prompt_ready w T" using assms(1) by (auto simp: rx_good_def)
  then have "T = Some t" using assms(2-4) by (cases T) (auto simp: rx_inv_def task_state_def task_ok_def)
  then have "task_at I es t p (tk_status t) w" using inv assms(2) unfolding task_at_def by auto
  from run_task_at [OF assms(5) this] show ?thesis
  proof (elim disjE exE conjE)
    assume "task_over I es w'"
    then show ?thesis by (auto simp: task_over_def rx_inv_def task_state_def)
  next
    fix s assume "task_at I es t p s w'" "s = tk_status t"
    then show ?thesis using task_at_cell by fastforce
  next
    fix s assume "task_at I es t p s w'" "tk_status t = SEND_TASK_STATUS_PROMPT" "s = SEND_TASK_STATUS_BINARY"
    then show ?thesis using task_at_cell by fastforce
  qed
qed

theorem status_moves_forward_witness:
  "\<exists>w'. rx_run platform_interface [13, 62] (demo_rx (demo_task SEND_TASK_STATUS_PROMPT 2)) w' \<and>
     (current_send_task (ctx w') = NULL \<or> current_send_task (ctx w') = 60 \<and>
      (\<exists>s \<ge> SEND_TASK_STATUS_PROMPT. heap w' 60 = Some (O_Task ((demo_task SEND_TASK_STATUS_PROMPT 2)\<lparr>tk_status := s\<rparr>))))"
proof -
  let ?t = "demo_task SEND_TASK_STATUS_PROMPT 2"
  have good: "rx_good platform_interface demo_table (demo_rx ?t)" by (rule demo_rx_good) simp
  then obtain w' where run: "rx_run platform_interface [13, 62] (demo_rx ?t) w'" using rx_run_exists by blast
  have "current_send_task (ctx (demo_rx ?t)) = 60" "heap (demo_rx ?t) 60 = Some (O_Task ?t)" by (simp_all add: demo_rx_prompt_def)
  from status_moves_forward [OF good this(1) _ this(2) run] have
    "current_send_task (ctx w') = NULL \<or> current_send_task (ctx w') = 60 \<and>
      (\<exists>s. heap w' 60 = Some (O_Task (?t\<lparr>tk_status := s\<rparr>)) \<and> tk_status ?t \<le> s)" by auto
  moreover have "tk_status ?t = SEND_TASK_STATUS_PROMPT" by (simp add: demo_task_def)
  ultimately show ?thesis using run by (intro exI [of _ w']) auto
qed

end
