(* ===== verification/Send_Msg.thy ===== *)
theory Send_Msg
  imports Recv_Data OS_Contract
begin

text \<open>
  \<open>send_msg_handle.c\<close>: the API calls that queue a command, synchronous and asynchronous,
  with and without a prompt, and the step of the event loop that starts the next command.
\<close>

section \<open>Operations\<close>

text \<open>
  The parameters of the C functions: \<open>context_null\<close> says that the context pointer is null,
  \<open>None\<close> stands for a null \<open>data\<close> or \<open>prompt\<close>, and the variables of a synchronous
  caller are addresses.  \<open>others\<close> is what the other threads do while the caller is blocked
  in \<open>atc_semaphore_take\<close>.
\<close>

definition default_timeout :: "u32 \<Rightarrow> u32" where
  "default_timeout timeout = (if timeout = 0 then ATC_TIMEOUT_MAX else timeout)"

text \<open>\<open>p = atc_malloc(len)\<close> and, when that is not null, \<open>memcpy(p, data, len)\<close>.\<close>

definition malloc_copy ::
  "'os atc_interface \<Rightarrow> u8 list \<Rightarrow> size_t \<Rightarrow> 'os world \<Rightarrow> (addr \<times> 'os world) res" where
  "malloc_copy I data len w =
     rbind (os_malloc I len w) (\<lambda>(p, w).
     if p = NULL then ok (NULL, w)
     else rbind (mem_read data (unat len)) (\<lambda>bs. ok (p, put p (O_Bytes bs) w)))"

definition atc_send_sync ::
  "'os atc_interface \<Rightarrow> ('os world \<Rightarrow> 'os world res) \<Rightarrow> bool \<Rightarrow> u8 list option \<Rightarrow> size_t \<Rightarrow>
   addr \<Rightarrow> addr \<Rightarrow> addr \<Rightarrow> u32 \<Rightarrow> 'os world \<Rightarrow> (atc_result \<times> 'os world) res" where
  "atc_send_sync I others context_null data len send_result response_buf resp_length timeout w =
     (if atc_semaphore_take I = None \<or> atc_semaphore_give I = None \<or>
         atc_semaphore_create_binary I = None \<or> atc_semaphore_delete I = None
      then after (LOG_ERR I ''Semaphore functions are not implemented'' []) (ok (ATC_ERROR, w))
      else if context_null \<or> data = None \<or> len = 0 \<or> (response_buf \<noteq> NULL \<and> resp_length = NULL)
      then after (LOG_ERR I ''Invalid parameters'' []) (ok (ATC_ERROR, w))
      else
        rbind (malloc_copy I (the data) len w) (\<lambda>(p, w).
        if p = NULL then after (LOG_ERR I ''Failed to allocate memory for send_task data'' []) (ok (ATC_ERROR, w))
        else
          rbind (os_sem_create I w) (\<lambda>(sem, w).
          if sem = NULL then rbind (os_free I p w) (\<lambda>w. after (LOG_ERR I ''Failed to create semaphore for sync send'' []) (ok (ATC_ERROR, w)))
          else
            let task = zero_task\<lparr>tk_data := p, tk_length := len,
                  tk_response_handler := Some Sync_Response_Handler, tk_timeout := default_timeout timeout,
                  tk_timestamp := 0, tk_semaphore := sem, tk_sync_send_result := send_result,
                  tk_sync_response_buf := response_buf, tk_sync_response_length := resp_length\<rparr> in
            rbind (os_queue_send I (send_queue (ctx w)) (Q_Task task) 1000 w) (\<lambda>(ret, w).
            if ret \<noteq> 0
            then rbind (os_free I p w) (\<lambda>w. rbind (os_sem_delete I sem w) (\<lambda>w. after (LOG_ERR I ''Failed to send message to send queue'' []) (ok (ATC_ERROR, w))))
            else
              rbind (os_sem_give I (wake_semaphore (ctx w)) w) (\<lambda>w.
              rbind (others w) (\<lambda>w.
              rbind (os_sem_take I sem ATC_TIMEOUT_MAX w) (\<lambda>(r, w).
              rbind (os_sem_delete I sem w) (\<lambda>w. ok (ATC_SUCCESS, w)))))))))"

definition atc_send_async ::
  "'os atc_interface \<Rightarrow> bool \<Rightarrow> u8 list option \<Rightarrow> size_t \<Rightarrow> response_handler option \<Rightarrow> u32 \<Rightarrow>
   'os world \<Rightarrow> (atc_result \<times> 'os world) res" where
  "atc_send_async I context_null data len handler timeout w =
     (if context_null \<or> data = None \<or> len = 0 then ok (ATC_ERROR, w)
      else
        rbind (malloc_copy I (the data) len w) (\<lambda>(p, w).
        if p = NULL then after (LOG_ERR I ''Failed to allocate memory for send_task data'' []) (ok (ATC_ERROR, w))
        else
          let task = zero_task\<lparr>tk_data := p, tk_length := len, tk_response_handler := handler,
                tk_timeout := default_timeout timeout, tk_timestamp := 0\<rparr> in
          rbind (os_queue_send I (send_queue (ctx w)) (Q_Task task) 1000 w) (\<lambda>(ret, w).
          if ret \<noteq> 0 then rbind (os_free I p w) (\<lambda>w. after (LOG_ERR I ''Failed to send message to send queue'' []) (ok (ATC_ERROR, w)))
          else rbind (os_sem_give I (wake_semaphore (ctx w)) w) (\<lambda>w. ok (ATC_SUCCESS, w)))))"

definition atc_send_with_prompt_binary_rx_async ::
  "'os atc_interface \<Rightarrow> bool \<Rightarrow> u8 list option \<Rightarrow> size_t \<Rightarrow> u8 list option \<Rightarrow> size_t \<Rightarrow> size_t \<Rightarrow>
   response_handler option \<Rightarrow> u32 \<Rightarrow> 'os world \<Rightarrow> (atc_result \<times> 'os world) res" where
  "atc_send_with_prompt_binary_rx_async I context_null data data_len prompt prompt_len recv_len handler timeout w =
     (if context_null \<or> data = None \<or> data_len = 0 \<or> prompt = None \<or> prompt_len = 0 then ok (ATC_ERROR, w)
      else
        rbind (malloc_copy I (the data) data_len w) (\<lambda>(p, w).
        if p = NULL then after (LOG_ERR I ''Failed to allocate memory for send_task data'' []) (ok (ATC_ERROR, w))
        else
          rbind (malloc_copy I (the prompt) prompt_len w) (\<lambda>(q, w).
          if q = NULL then rbind (os_free I p w) (\<lambda>w. after (LOG_ERR I ''Failed to allocate memory for send_task prompt'' []) (ok (ATC_ERROR, w)))
          else
            let task = zero_task\<lparr>tk_data := p, tk_length := data_len, tk_response_handler := handler,
                  tk_timeout := default_timeout timeout, tk_timestamp := 0,
                  tk_prompt := q, tk_prompt_len := prompt_len, tk_need_recv_len := recv_len,
                  tk_status := SEND_TASK_STATUS_PROMPT\<rparr> in
            rbind (os_queue_send I (send_queue (ctx w)) (Q_Task task) 1000 w) (\<lambda>(ret, w).
            if ret \<noteq> 0
            then rbind (os_free I p w) (\<lambda>w. rbind (os_free I q w) (\<lambda>w. after (LOG_ERR I ''Failed to send message to send queue'' []) (ok (ATC_ERROR, w))))
            else rbind (os_sem_give I (wake_semaphore (ctx w)) w) (\<lambda>w. ok (ATC_SUCCESS, w))))))"

definition atc_send_with_prompt_binary_rx_sync ::
  "'os atc_interface \<Rightarrow> ('os world \<Rightarrow> 'os world res) \<Rightarrow> bool \<Rightarrow> u8 list option \<Rightarrow> size_t \<Rightarrow> u8 list option \<Rightarrow>
   size_t \<Rightarrow> size_t \<Rightarrow> addr \<Rightarrow> addr \<Rightarrow> addr \<Rightarrow> u32 \<Rightarrow> 'os world \<Rightarrow> (atc_result \<times> 'os world) res" where
  "atc_send_with_prompt_binary_rx_sync I others context_null data data_len prompt prompt_len recv_len
       send_result response_buf resp_length timeout w =
     (if context_null \<or> data = None \<or> data_len = 0 \<or> prompt = None \<or> prompt_len = 0 then ok (ATC_ERROR, w)
      else
        rbind (malloc_copy I (the data) data_len w) (\<lambda>(p, w).
        if p = NULL then after (LOG_ERR I ''Failed to allocate memory for send_task data'' []) (ok (ATC_ERROR, w))
        else
          rbind (os_sem_create I w) (\<lambda>(sem, w).
          if sem = NULL then rbind (os_free I p w) (\<lambda>w. after (LOG_ERR I ''Failed to create semaphore for sync send'' []) (ok (ATC_ERROR, w)))
          else
            rbind (malloc_copy I (the prompt) prompt_len w) (\<lambda>(q, w).
            if q = NULL
            then rbind (os_free I p w) (\<lambda>w. rbind (os_sem_delete I sem w) (\<lambda>w. after (LOG_ERR I ''Failed to allocate memory for send_task prompt'' []) (ok (ATC_ERROR, w))))
            else
              let task = zero_task\<lparr>tk_data := p, tk_length := data_len,
                    tk_response_handler := Some Sync_Response_Handler, tk_timeout := default_timeout timeout,
                    tk_timestamp := 0, tk_semaphore := sem, tk_sync_send_result := send_result,
                    tk_sync_response_buf := response_buf, tk_sync_response_length := resp_length,
                    tk_prompt := q, tk_prompt_len := prompt_len, tk_need_recv_len := recv_len,
                    tk_status := SEND_TASK_STATUS_PROMPT\<rparr> in
              rbind (os_queue_send I (send_queue (ctx w)) (Q_Task task) 1000 w) (\<lambda>(ret, w).
              if ret \<noteq> 0
              then rbind (os_free I p w) (\<lambda>w. rbind (os_free I q w) (\<lambda>w.
                   rbind (os_sem_delete I sem w) (\<lambda>w. after (LOG_ERR I ''Failed to send message to send queue'' []) (ok (ATC_ERROR, w)))))
              else
                rbind (os_sem_give I (wake_semaphore (ctx w)) w) (\<lambda>w.
                rbind (others w) (\<lambda>w.
                rbind (os_sem_take I sem ATC_TIMEOUT_MAX w) (\<lambda>(r, w).
                rbind (os_sem_delete I sem w) (\<lambda>w. ok (ATC_SUCCESS, w))))))))))"

definition send_msg_queue_init :: "'os atc_interface \<Rightarrow> 'os world \<Rightarrow> (atc_result \<times> 'os world) res" where
  "send_msg_queue_init I w =
     rbind (os_queue_create I 6 sizeof_send_task w) (\<lambda>(q, w).
     let w = upd_ctx (\<lambda>c. c\<lparr>send_queue := q\<rparr>) w in
     if q = NULL then after (LOG_ERR I ''Failed to create send queue'' []) (ok (ATC_ERROR, w))
     else ok (ATC_SUCCESS, w))"

text \<open>The event loop's step: the next queued command becomes the current one and is sent.\<close>

definition send_msg_handle :: "'os atc_interface \<Rightarrow> 'os world \<Rightarrow> 'os world res" where
  "send_msg_handle I w =
     (if current_send_task (ctx w) \<noteq> NULL then ok w
      else rbind (os_queue_recv I (send_queue (ctx w)) 0 w) (\<lambda>(x, w).
        case x of
          None \<Rightarrow> ok w
        | Some (Q_Msg m) \<Rightarrow> fail BadItem
        | Some (Q_Task rtask) \<Rightarrow>
            rbind (os_malloc I sizeof_send_task w) (\<lambda>(cur, w).
            let w = upd_ctx (\<lambda>c. c\<lparr>current_send_task := cur\<rparr>) w in
            if cur = NULL then after (LOG_ERR I ''Failed to allocate memory for current_send_task'' []) (ok w)
            else
              let w = clear_response_buffer (put cur (O_Task rtask) w) in
              rbind (atc_time_get I w) (\<lambda>(now, w).
              rbind (get_task cur w) (\<lambda>t.
              let t = t\<lparr>tk_timestamp := now\<rparr>; w = put cur (O_Task t) w in
              rbind (get_bytes (tk_data t) w) (\<lambda>data.
              rbind (mem_read data (unat (tk_length t))) (\<lambda>bs.
              after (log_dump I ''[SEND]:'' bs)
              (rbind (os_send I bs (tk_length t) w) (\<lambda>(send_ret, w).
              if send_ret \<noteq> ATC_SUCCESS
              then after (LOG_ERR I ''Failed to send AT command'' []) (command_end_handle I ATC_HARDWARE_ERROR w)
              else ok w)))))))))"

lemmas sending_calls [sample_run] = atc_send_async_def atc_send_sync_def atc_send_with_prompt_binary_rx_async_def
  atc_send_with_prompt_binary_rx_sync_def send_msg_handle_def malloc_copy_def clear_response_buffer_def zero_task_def

section \<open>Queueing a command\<close>

lemma malloc_copy_cases:
  assumes "complete I" "malloc_fresh I" "unat len \<le> length data"
  obtains (fails) s where "malloc_copy I data len w = ok (NULL, w\<lparr>os := s\<rparr>)"
      "\<And>R. os_keeps R I \<Longrightarrow> R (os w) s"
    | (fresh) p s where "malloc_copy I data len w = ok (p, put p (O_Bytes (take (unat len) data)) (w\<lparr>os := s\<rparr>))"
      "p \<noteq> NULL" "heap w p = None" "\<And>R. os_keeps R I \<Longrightarrow> R (os w) s" "len < 0x80000000"
proof (cases rule: os_malloc_cases [OF assms(1,2), of len w, case_names fails fresh])
  case (fails s)
  have "R (os w) s" if "os_keeps R I" for R using os_malloc_keeps [OF that fails] by simp
  moreover have "malloc_copy I data len w = ok (NULL, w\<lparr>os := s\<rparr>)" using fails by (simp add: malloc_copy_def)
  ultimately show ?thesis using that(1) by blast
next
  case (fresh p s)
  have "R (os w) s" if "os_keeps R I" for R using os_malloc_keeps [OF that fresh(1)] by simp
  moreover have "malloc_copy I data len w = ok (p, put p (O_Bytes (take (unat len) data)) (w\<lparr>os := s\<rparr>))"
    using fresh assms(3) by (simp add: malloc_copy_def mem_read_def)
  ultimately show ?thesis using fresh(2-4) that(2) by blast
qed

lemma queues_trans: "same_queues Q s t \<Longrightarrow> same_queues Q t u \<Longrightarrow> same_queues Q s u"
  by (simp add: same_queues_def)

text \<open>
  What a call that queues a command achieves: nothing when it fails, a task in the queue and
  a private copy of its bytes, fewer than \<open>2^31\<close>, when it succeeds.  \<open>cells\<close> are the new buffers.
\<close>

definition queued ::
  "(addr \<Rightarrow> 'os \<Rightarrow> qitem list) \<Rightarrow> send_task \<Rightarrow> (addr \<times> u8 list) list \<Rightarrow> 'os world \<Rightarrow> 'os world \<Rightarrow> bool" where
  "queued Q t cells w w' \<longleftrightarrow>
     tk_length t < 0x80000000 \<and> distinct (map fst cells) \<and> (\<forall>(p, bs) \<in> set cells. p \<noteq> NULL \<and> heap w p = None) \<and>
     heap w' = heap w ++ map_of (map (\<lambda>(p, bs). (p, O_Bytes bs)) cells) \<and> ctx w' = ctx w \<and>
     (\<forall>q. Q q (os w') = (if q = send_queue (ctx w) then Q q (os w) @ [Q_Task t] else Q q (os w)))"

definition unchanged :: "(addr \<Rightarrow> 'os \<Rightarrow> qitem list) \<Rightarrow> 'os world \<Rightarrow> 'os world \<Rightarrow> bool" where
  "unchanged Q w w' \<longleftrightarrow> heap w' = heap w \<and> ctx w' = ctx w \<and> same_queues Q (os w) (os w')"

lemma free_ok:
  assumes "complete I" "heap w p = Some x"
  obtains s where "os_free I p w = ok (w\<lparr>heap := (heap w)(p := None), os := s\<rparr>)" "\<And>R. os_keeps R I \<Longrightarrow> R (os w) s"
proof -
  obtain s where s: "os_free I p w = ok (w\<lparr>heap := (heap w)(p := None), os := s\<rparr>)" using os_free_ok [OF assms] by blast
  have "R (os w) s" if "os_keeps R I" for R using os_free_keeps [OF that s] by simp
  then show thesis using s that by blast
qed

lemma give_ok:
  assumes "complete I"
  obtains s where "os_sem_give I p w = ok (emit (Ev_Give p) (w\<lparr>os := s\<rparr>))" "\<And>R. os_keeps R I \<Longrightarrow> R (os w) s"
proof -
  obtain s where s: "os_sem_give I p w = ok (emit (Ev_Give p) (w\<lparr>os := s\<rparr>))" using os_sem_give_ok [OF assms] by blast
  have "R (os w) s" if "os_keeps R I" for R using os_sem_give_keeps [OF that s] by simp
  then show thesis using s that by blast
qed

lemma delete_ok:
  assumes "complete I"
  obtains s where "os_sem_delete I p w = ok (emit (Ev_Delete p) (w\<lparr>os := s\<rparr>))" "\<And>R. os_keeps R I \<Longrightarrow> R (os w) s"
proof -
  obtain s where s: "os_sem_delete I p w = ok (emit (Ev_Delete p) (w\<lparr>os := s\<rparr>))"
    using os_sem_delete_ok [OF assms] by blast
  have "R (os w) s" if "os_keeps R I" for R using os_sem_delete_keeps [OF that s] by simp
  then show thesis using s that by blast
qed

lemma sem_create_ok:
  assumes "complete I"
  obtains sem s where "os_sem_create I w = ok (sem, w\<lparr>os := s\<rparr>)" "\<And>R. os_keeps R I \<Longrightarrow> R (os w) s"
proof -
  obtain sem s where s: "os_sem_create I w = ok (sem, w\<lparr>os := s\<rparr>)" using os_sem_create_ok [OF assms] by blast
  have "R (os w) s" if "os_keeps R I" for R using os_sem_create_keeps [OF that s] by simp
  then show thesis using s that by blast
qed

text \<open>
  The end shared by the four calls: the task is offered to the queue, and either everything
  allocated for it is released or the event loop is woken and \<open>fin\<close> follows.
\<close>

fun free_all :: "'os atc_interface \<Rightarrow> addr list \<Rightarrow> 'os world \<Rightarrow> 'os world res" where
  "free_all I [] w = ok w"
| "free_all I (p # ps) w = rbind (os_free I p w) (free_all I ps)"

definition drop_sem :: "'os atc_interface \<Rightarrow> addr option \<Rightarrow> 'os world \<Rightarrow> 'os world res" where
  "drop_sem I sem w = (case sem of None \<Rightarrow> ok w | Some p \<Rightarrow> os_sem_delete I p w)"

definition enqueue_tail ::
  "'os atc_interface \<Rightarrow> send_task \<Rightarrow> addr list \<Rightarrow> addr option \<Rightarrow> ('os world \<Rightarrow> (atc_result \<times> 'os world) res) \<Rightarrow>
   'os world \<Rightarrow> (atc_result \<times> 'os world) res" where
  "enqueue_tail I task ps sem fin w =
     rbind (os_queue_send I (send_queue (ctx w)) (Q_Task task) 1000 w) (\<lambda>(ret, w).
     if ret \<noteq> 0 then rbind (free_all I ps w) (\<lambda>w. rbind (drop_sem I sem w) (\<lambda>w. ok (ATC_ERROR, w)))
     else rbind (os_sem_give I (wake_semaphore (ctx w)) w) fin)"

abbreviation bytes_cells :: "(addr \<times> u8 list) list \<Rightarrow> store" where
  "bytes_cells cells \<equiv> map_of (map (\<lambda>(p, bs). (p, O_Bytes bs)) cells)"

lemma free_all_ok:
  assumes I: "complete I" and Q: "queue_contract I Q"
  shows "distinct (map fst cells) \<Longrightarrow> heap w1 = h ++ bytes_cells cells \<Longrightarrow> \<forall>p \<in> fst ` set cells. h p = None \<Longrightarrow>
    \<exists>s. free_all I (map fst cells) w1 = ok (w1\<lparr>heap := h, os := s\<rparr>) \<and> same_queues Q (os w1) s"
proof (induction cells arbitrary: w1)
  case Nil
  then show ?case by (intro exI [of _ "os w1"]) (simp add: same_queues_def)
next
  case (Cons x cells)
  obtain p bs where x: "x = (p, bs)" by (cases x)
  have hp: "heap w1 p = Some (O_Bytes bs)" using Cons.prems(2) x by simp
  from free_ok [OF I this] obtain s where s: "os_free I p w1 = ok (w1\<lparr>heap := (heap w1)(p := None), os := s\<rparr>)"
      "\<And>R. os_keeps R I \<Longrightarrow> R (os w1) s" by blast
  let ?w = "w1\<lparr>heap := (heap w1)(p := None), os := s\<rparr>"
  have "p \<notin> fst ` set cells" "h p = None" using Cons.prems(1,3) x by auto
  then have "(h ++ bytes_cells cells) p = None" by (force simp: map_add_def map_of_eq_None_iff split: option.splits)
  then have "heap ?w = h ++ bytes_cells cells" using Cons.prems(2) x by (auto simp: fun_eq_iff map_add_def)
  then obtain s' where "free_all I (map fst cells) ?w = ok (?w\<lparr>heap := h, os := s'\<rparr>)" "same_queues Q (os ?w) s'"
    using Cons.IH [of ?w] Cons.prems(1,3) by auto
  then show ?case using s x queues_trans s(2) [OF queue_contract_keeps [OF Q]]
    by (intro exI [of _ s']) auto
qed

text \<open>
  The world \<open>w1\<close> differs from \<open>w\<close> by private copies in new \<open>cells\<close> only: what holds
  between the steps by which a call gathers what it needs.
\<close>

definition copied ::
  "(addr \<Rightarrow> 'os \<Rightarrow> qitem list) \<Rightarrow> (addr \<times> u8 list) list \<Rightarrow> 'os world \<Rightarrow> 'os world \<Rightarrow> bool" where
  "copied Q cells w w1 \<longleftrightarrow> distinct (map fst cells) \<and> (\<forall>(p, bs) \<in> set cells. p \<noteq> NULL \<and> heap w p = None) \<and>
     heap w1 = heap w ++ bytes_cells cells \<and> ctx w1 = ctx w \<and> trace w1 = trace w \<and> same_queues Q (os w) (os w1)"

lemma copied_start: "copied Q [] w w"
  by (simp add: copied_def same_queues_def)

lemma copied_none: "copied Q [] w w1 \<longleftrightarrow> unchanged Q w w1 \<and> trace w1 = trace w"
  by (auto simp: copied_def unchanged_def)

lemma copied_os: "copied Q cells w w1 \<Longrightarrow> same_queues Q (os w1) s \<Longrightarrow> copied Q cells w (w1\<lparr>os := s\<rparr>)"
  using queues_trans by (auto simp: copied_def)

lemma copied_malloc:
  assumes I: "complete I" "malloc_fresh I" and Q: "queue_contract I Q" and len: "unat len \<le> length data"
    and w1: "copied Q cells w w1"
  obtains (fails) u where "malloc_copy I data len w1 = ok (NULL, u)" "copied Q cells w u"
    | (fresh) p u where "malloc_copy I data len w1 = ok (p, u)" "p \<noteq> NULL" "len < 0x80000000"
      "copied Q (cells @ [(p, take (unat len) data)]) w u"
proof (cases rule: malloc_copy_cases [OF I len, of w1, case_names none new])
  case (none s)
  then show thesis using fails copied_os [OF w1] queue_contract_keeps [OF Q] by blast
next
  case (new p s)
  let ?x = "O_Bytes (take (unat len) data)"
  have p: "heap w p = None" "p \<notin> fst ` set cells"
    using new(3) w1 by (auto simp: copied_def map_add_None map_of_eq_None_iff image_image split_def)
  then have "bytes_cells cells p = None" by (force simp: map_of_eq_None_iff)
  then have "(heap w ++ bytes_cells cells)(p \<mapsto> ?x) = heap w ++ bytes_cells (cells @ [(p, take (unat len) data)])"
    by (auto simp: fun_eq_iff map_add_def split: option.split)
  then show thesis using fresh [OF new(1,2,5)] copied_os [OF w1 new(4) [OF queue_contract_keeps [OF Q]]] p new(2)
    by (auto simp: copied_def)
qed

lemma copied_sem:
  assumes I: "complete I" and Q: "queue_contract I Q" and w1: "copied Q cells w w1"
  obtains sem u where "os_sem_create I w1 = ok (sem, u)" "copied Q cells w u"
  using sem_create_ok [OF I, of w1] queue_contract_keeps [OF Q] copied_os [OF w1] that by metis

text \<open>The copy is freed again: nothing is left of it.\<close>

lemma copied_free:
  assumes I: "complete I" and Q: "queue_contract I Q" and w1: "copied Q [(p, bs)] w w1"
  obtains v where "os_free I p w1 = ok v" "copied Q [] w v"
proof -
  obtain s where f: "os_free I p w1 = ok (w1\<lparr>heap := (heap w1)(p := None), os := s\<rparr>)" "\<And>R. os_keeps R I \<Longrightarrow> R (os w1) s"
    using free_ok [OF I, of w1 p "O_Bytes bs"] w1 by (auto simp: copied_def)
  have "(heap w1)(p := None) = heap w" using w1 by (auto simp: copied_def fun_eq_iff)
  then have "copied Q [] w (w1\<lparr>heap := (heap w1)(p := None), os := s\<rparr>)"
    using w1 queues_trans f(2) [OF queue_contract_keeps [OF Q]] by (fastforce simp: copied_def)
  with f(1) that show thesis by blast
qed

lemma copied_delete:
  assumes I: "complete I" and Q: "queue_contract I Q" and w1: "copied Q [] w w1"
  obtains v where "os_sem_delete I sem w1 = ok v" "unchanged Q w v" "trace v = trace w @ [Ev_Delete sem]"
proof -
  obtain s where s: "os_sem_delete I sem w1 = ok (emit (Ev_Delete sem) (w1\<lparr>os := s\<rparr>))" "\<And>R. os_keeps R I \<Longrightarrow> R (os w1) s"
    using delete_ok [OF I] by blast
  have "same_queues Q (os w) s"
    by (rule queues_trans [OF _ s(2) [OF queue_contract_keeps [OF Q]]]) (use w1 in \<open>simp add: copied_def\<close>)
  then show thesis using that [OF s(1)] w1 by (simp add: copied_def unchanged_def)
qed

text \<open>The send queue did not take a task, offered when only private copies had been made.\<close>

definition queue_refused :: "'os atc_interface \<Rightarrow> (addr \<Rightarrow> 'os \<Rightarrow> qitem list) \<Rightarrow> 'os world \<Rightarrow> bool" where
  "queue_refused I Q w \<longleftrightarrow> (\<exists>cells u t r v. copied Q cells w u \<and>
     os_queue_send I (send_queue (ctx w)) (Q_Task t) 1000 u = ok (r, v) \<and> r \<noteq> 0)"

lemma enqueue_tail_ok:
  assumes I: "complete I" and Q: "queue_contract I Q"
    and copies: "copied Q cells w w1" and n: "tk_length task < 0x80000000"
  shows "(\<exists>w'. enqueue_tail I task (map fst cells) sem fin w1 = ok (ATC_ERROR, w') \<and> unchanged Q w w' \<and> queue_refused I Q w \<and>
       trace w' = trace w @ (case sem of None \<Rightarrow> [] | Some p \<Rightarrow> [Ev_Delete p])) \<or>
    (\<exists>w'. enqueue_tail I task (map fst cells) sem fin w1 = fin w' \<and> queued Q task cells w w' \<and>
       trace w' = trace w @ [Ev_Give (wake_semaphore (ctx w))])"
proof -
  note keep = queue_contract_keeps [OF Q]
  have c: "distinct (map fst cells)" "\<forall>(p, bs) \<in> set cells. p \<noteq> NULL \<and> heap w p = None"
    and w1: "heap w1 = heap w ++ bytes_cells cells" "ctx w1 = ctx w" "trace w1 = trace w" "same_queues Q (os w) (os w1)"
    using copies by (simp_all add: copied_def)
  obtain r s where q: "os_queue_send I (send_queue (ctx w1)) (Q_Task task) 1000 w1 = ok (r, w1\<lparr>os := s\<rparr>)"
      "\<forall>q. Q q s = (if r = 0 \<and> q = send_queue (ctx w1) then Q (send_queue (ctx w1)) (os w1) @ [Q_Task task] else Q q (os w1))"
    using queue_send_law [OF I Q] by blast
  show ?thesis
  proof (cases "r = 0")
    case True
    obtain s' where g: "os_sem_give I (wake_semaphore (ctx w)) (w1\<lparr>os := s\<rparr>) =
          ok (emit (Ev_Give (wake_semaphore (ctx w))) (w1\<lparr>os := s, os := s'\<rparr>))"
          "\<And>R. os_keeps R I \<Longrightarrow> R (os (w1\<lparr>os := s\<rparr>)) s'"
      using give_ok [OF I, of "wake_semaphore (ctx w)" "w1\<lparr>os := s\<rparr>"] by blast
    let ?w = "emit (Ev_Give (wake_semaphore (ctx w))) (w1\<lparr>os := s, os := s'\<rparr>)"
    have "enqueue_tail I task (map fst cells) sem fin w1 = fin ?w"
      using q(1) g(1) True w1(2) by (simp add: enqueue_tail_def)
    moreover have "queued Q task cells w ?w"
      using g(2) [OF keep] q(2) True w1 n c by (simp add: queued_def same_queues_def)
    ultimately show ?thesis using w1(3) by (intro disjI2 exI [of _ ?w]) simp
  next
    case False
    then have refused: "queue_refused I Q w" unfolding queue_refused_def using copies q(1) w1(2) by metis
    have "\<forall>p \<in> fst ` set cells. heap w p = None" using c(2) by auto
    with free_all_ok [OF I Q c(1), of "w1\<lparr>os := s\<rparr>" "heap w"] w1(1) obtain s' where
      f: "free_all I (map fst cells) (w1\<lparr>os := s\<rparr>) = ok (w1\<lparr>os := s, heap := heap w, os := s'\<rparr>)" "same_queues Q s s'"
      by auto
    have s': "same_queues Q (os w) s'" using f(2) q(2) False w1(4) by (simp add: same_queues_def)
    let ?v = "w1\<lparr>os := s, heap := heap w, os := s'\<rparr>"
    show ?thesis
    proof (cases sem)
      case None
      then show ?thesis using q(1) f(1) False w1 s' refused
        by (intro disjI1 exI [of _ ?v]) (simp add: enqueue_tail_def drop_sem_def unchanged_def)
    next
      case (Some p)
      obtain u where u: "os_sem_delete I p ?v = ok (emit (Ev_Delete p) (?v\<lparr>os := u\<rparr>))"
          "\<And>R. os_keeps R I \<Longrightarrow> R (os ?v) u"
        using delete_ok [OF I, of p ?v] by blast
      then show ?thesis using Some q(1) f(1) False w1 s' refused queues_trans [OF s'] u(2) [OF keep]
        by (intro disjI1 exI [of _ "emit (Ev_Delete p) (?v\<lparr>os := u\<rparr>)"])
          (simp add: enqueue_tail_def drop_sem_def unchanged_def)
    qed
  qed
qed

section \<open>The four calls\<close>

text \<open>The tasks the calls build.\<close>

definition plain_task :: "addr \<Rightarrow> size_t \<Rightarrow> response_handler option \<Rightarrow> u32 \<Rightarrow> send_task" where
  "plain_task p len handler timeout =
     zero_task\<lparr>tk_data := p, tk_length := len, tk_response_handler := handler, tk_timeout := default_timeout timeout\<rparr>"

definition with_prompt :: "addr \<Rightarrow> size_t \<Rightarrow> size_t \<Rightarrow> send_task \<Rightarrow> send_task" where
  "with_prompt q prompt_len recv_len t =
     t\<lparr>tk_prompt := q, tk_prompt_len := prompt_len, tk_need_recv_len := recv_len, tk_status := SEND_TASK_STATUS_PROMPT\<rparr>"

definition with_caller :: "addr \<Rightarrow> addr \<Rightarrow> addr \<Rightarrow> addr \<Rightarrow> send_task \<Rightarrow> send_task" where
  "with_caller sem send_result response_buf resp_length t =
     t\<lparr>tk_response_handler := Some Sync_Response_Handler, tk_semaphore := sem, tk_sync_send_result := send_result,
       tk_sync_response_buf := response_buf, tk_sync_response_length := resp_length\<rparr>"

text \<open>How a blocked caller continues once its task is queued.\<close>

definition wait_and_delete ::
  "'os atc_interface \<Rightarrow> ('os world \<Rightarrow> 'os world res) \<Rightarrow> addr \<Rightarrow> 'os world \<Rightarrow> (atc_result \<times> 'os world) res" where
  "wait_and_delete I others sem w =
     rbind (others w) (\<lambda>w. rbind (os_sem_take I sem ATC_TIMEOUT_MAX w) (\<lambda>(r, w).
     rbind (os_sem_delete I sem w) (\<lambda>w. ok (ATC_SUCCESS, w))))"

lemma send_async_ok:
  assumes I: "complete I" "malloc_fresh I" and Q: "queue_contract I Q"
    and len: "len \<noteq> 0" "unat len \<le> length data"
  shows "\<exists>r w'. atc_send_async I False (Some data) len handler timeout w = ok (r, w') \<and>
    (if r = ATC_SUCCESS
     then trace w' = trace w @ [Ev_Give (wake_semaphore (ctx w))] \<and>
       (\<exists>p. queued Q (plain_task p len handler timeout) [(p, take (unat len) data)] w w')
     else r = ATC_ERROR \<and> trace w' = trace w \<and> unchanged Q w w')"
proof (cases rule: copied_malloc [OF I Q len(2) copied_start, of w, case_names fails fresh])
  case (fails u)
  then show ?thesis using len by (simp add: atc_send_async_def copied_none I(1))
next
  case (fresh p u)
  let ?t = "plain_task p len handler timeout"
  have t: "zero_task\<lparr>tk_data := p, tk_length := len, tk_response_handler := handler,
                tk_timeout := default_timeout timeout, tk_timestamp := 0\<rparr> = ?t"
    by (simp add: plain_task_def zero_task_def)
  have "atc_send_async I False (Some data) len handler timeout w = enqueue_tail I ?t [p] None (\<lambda>w. ok (ATC_SUCCESS, w)) u"
    using len fresh(1,2) t by (simp add: atc_send_async_def enqueue_tail_def drop_sem_def Let_def I(1) cong: if_cong)
  then show ?thesis
    using enqueue_tail_ok [OF I(1) Q fresh(4), of ?t None "\<lambda>w. ok (ATC_SUCCESS, w)"] fresh(3) by (auto simp: plain_task_def)
qed

lemma prompt_async_ok:
  assumes I: "complete I" "malloc_fresh I" and Q: "queue_contract I Q"
    and len: "len \<noteq> 0" "unat len \<le> length data" and plen: "plen \<noteq> 0" "unat plen \<le> length prompt"
  shows "\<exists>r w'. atc_send_with_prompt_binary_rx_async I False (Some data) len (Some prompt) plen recv_len handler timeout w =
      ok (r, w') \<and>
    (if r = ATC_SUCCESS
     then trace w' = trace w @ [Ev_Give (wake_semaphore (ctx w))] \<and>
       (\<exists>p q. queued Q (with_prompt q plen recv_len (plain_task p len handler timeout))
          [(p, take (unat len) data), (q, take (unat plen) prompt)] w w')
     else r = ATC_ERROR \<and> trace w' = trace w \<and> unchanged Q w w')"
proof (cases rule: copied_malloc [OF I Q len(2) copied_start, of w, case_names fails fresh])
  case (fails u)
  then show ?thesis using len plen by (simp add: atc_send_with_prompt_binary_rx_async_def copied_none I(1))
next
  case (fresh p u)
  show ?thesis
  proof (cases rule: copied_malloc [OF I Q plen(2) fresh(4), case_names fails2 fresh2])
    case (fails2 x)
    have "copied Q [(p, take (unat len) data)] w x" using fails2(2) by simp
    from copied_free [OF I(1) Q this] obtain v where "os_free I p x = ok v" "copied Q [] w v" by blast
    then show ?thesis using len plen fresh fails2(1)
      by (simp add: atc_send_with_prompt_binary_rx_async_def copied_none I(1))
  next
    case (fresh2 q x)
    let ?t = "with_prompt q plen recv_len (plain_task p len handler timeout)"
    have t: "zero_task\<lparr>tk_data := p, tk_length := len, tk_response_handler := handler,
                  tk_timeout := default_timeout timeout, tk_timestamp := 0,
                  tk_prompt := q, tk_prompt_len := plen, tk_need_recv_len := recv_len,
                  tk_status := SEND_TASK_STATUS_PROMPT\<rparr> = ?t"
      by (simp add: plain_task_def with_prompt_def zero_task_def)
    have "atc_send_with_prompt_binary_rx_async I False (Some data) len (Some prompt) plen recv_len handler timeout w =
        enqueue_tail I ?t [p, q] None (\<lambda>w. ok (ATC_SUCCESS, w)) x"
      using len plen fresh(1,2) fresh2(1,2) t
      by (simp add: atc_send_with_prompt_binary_rx_async_def enqueue_tail_def drop_sem_def Let_def I(1) cong: if_cong)
    then show ?thesis
      using enqueue_tail_ok [OF I(1) Q fresh2(4), of ?t None "\<lambda>w. ok (ATC_SUCCESS, w)"] fresh(3)
      by (auto simp: plain_task_def with_prompt_def)
  qed
qed

text \<open>The synchronous calls: as the asynchronous ones up to the queue, then the wait.\<close>

text \<open>
  The semaphore that a call creates for itself, after it has copied the command: none when there
  is no memory for the copy or the platform has no semaphore.
\<close>

definition own_semaphore :: "'os atc_interface \<Rightarrow> u8 list \<Rightarrow> size_t \<Rightarrow> 'os world \<Rightarrow> addr option" where
  "own_semaphore I data len w =
     (case malloc_copy I data len w of
        ok (p, u) \<Rightarrow>
          if p = NULL then None
          else (case os_sem_create I u of ok (sem, x) \<Rightarrow> if sem = NULL then None else Some sem | _ \<Rightarrow> None)
      | _ \<Rightarrow> None)"

text \<open>
  A synchronous call that gives up leaves the heap, the context and the queues as they were.
  Without a semaphore of its own nothing shows; otherwise it deletes exactly that one, and it gave
  up because memory for one of the other \<open>sizes\<close> it needs, or a place in the queue, was refused.
\<close>

definition gave_up ::
  "'os atc_interface \<Rightarrow> (addr \<Rightarrow> 'os \<Rightarrow> qitem list) \<Rightarrow> u8 list \<Rightarrow> size_t \<Rightarrow> size_t set \<Rightarrow> 'os world \<Rightarrow> 'os world \<Rightarrow> bool" where
  "gave_up I Q data len sizes w w' \<longleftrightarrow> unchanged Q w w' \<and>
     (case own_semaphore I data len w of
        None \<Rightarrow> trace w' = trace w
      | Some sem \<Rightarrow> trace w' = trace w @ [Ev_Delete sem] \<and>
          (queue_refused I Q w \<or>
           (\<exists>n \<in> sizes. \<exists>p u v. copied Q [(p, take (unat len) data)] w u \<and> os_malloc I n u = ok (NULL, v))))"

lemma gave_up_unchanged:
  "gave_up I Q data len sizes w w' \<Longrightarrow> unchanged Q w w' \<and> (trace w' = trace w \<or> (\<exists>sem. trace w' = trace w @ [Ev_Delete sem]))"
  by (auto simp: gave_up_def split: option.splits)

lemma malloc_copy_none:
  "complete I \<Longrightarrow> unat len \<le> length data \<Longrightarrow> malloc_copy I data len w = ok (NULL, v) \<Longrightarrow> os_malloc I len w = ok (NULL, v)"
  by (auto simp: malloc_copy_def rbind_eq_ok mem_read_def split: if_splits)

text \<open>Their first two steps: a copy of the command and a semaphore, or nothing.\<close>

lemma copied_with_sem:
  assumes I: "complete I" "malloc_fresh I" and Q: "queue_contract I Q" and len: "unat len \<le> length data"
  obtains (no_memory) u where "malloc_copy I data len w = ok (NULL, u)" "\<And>sizes. gave_up I Q data len sizes w u"
    | (no_sem) p u x v where "malloc_copy I data len w = ok (p, u)" "p \<noteq> NULL" "os_sem_create I u = ok (NULL, x)"
      "os_free I p x = ok v" "\<And>sizes. gave_up I Q data len sizes w v"
    | (both) p u sem x where "malloc_copy I data len w = ok (p, u)" "p \<noteq> NULL" "os_sem_create I u = ok (sem, x)"
      "sem \<noteq> NULL" "own_semaphore I data len w = Some sem" "len < 0x80000000" "copied Q [(p, take (unat len) data)] w x"
proof (cases rule: copied_malloc [OF I Q len copied_start, of w, case_names fails fresh])
  case (fails u)
  then show thesis using no_memory by (simp add: copied_none gave_up_def own_semaphore_def)
next
  case (fresh p u)
  obtain sem x where x: "os_sem_create I u = ok (sem, x)" "copied Q [(p, take (unat len) data)] w x"
    using copied_sem [OF I(1) Q fresh(4)] by auto
  from copied_free [OF I(1) Q x(2)] obtain v where "os_free I p x = ok v" "copied Q [] w v" by blast
  moreover have "own_semaphore I data len w = (if sem = NULL then None else Some sem)"
    using fresh(1,2) x(1) by (simp add: own_semaphore_def)
  ultimately show thesis using no_sem [OF fresh(1,2)] both [OF fresh(1,2)] x fresh(3)
    by (cases "sem = NULL") (auto simp: copied_none gave_up_def)
qed

lemma send_sync_ok:
  assumes I: "complete I" "malloc_fresh I" and Q: "queue_contract I Q"
    and len: "len \<noteq> 0" "unat len \<le> length data" and b: "buf = NULL \<or> rl \<noteq> NULL"
  shows "(\<exists>w'. atc_send_sync I others False (Some data) len res buf rl timeout w = ok (ATC_ERROR, w') \<and>
       gave_up I Q data len {} w w') \<or>
    (\<exists>p sem w1. atc_send_sync I others False (Some data) len res buf rl timeout w = wait_and_delete I others sem w1 \<and>
       own_semaphore I data len w = Some sem \<and> sem \<noteq> NULL \<and> trace w1 = trace w @ [Ev_Give (wake_semaphore (ctx w))] \<and>
       queued Q (with_caller sem res buf rl (plain_task p len None timeout)) [(p, take (unat len) data)] w w1)"
proof -
  have sems: "atc_semaphore_take I \<noteq> None" "atc_semaphore_give I \<noteq> None" "atc_semaphore_create_binary I \<noteq> None"
      "atc_semaphore_delete I \<noteq> None" using I(1) by (simp_all add: complete_def)
  note run = atc_send_sync_def I(1)
  show ?thesis
  proof (cases rule: copied_with_sem [OF I Q len(2), of w, case_names no_memory no_sem both])
    case (no_memory u)
    then show ?thesis using len b sems by (auto simp: run)
  next
    case (no_sem p u x v)
    then show ?thesis using len b sems by (auto simp: run)
  next
    case (both p u sem x)
    let ?t = "with_caller sem res buf rl (plain_task p len None timeout)"
    have t: "zero_task\<lparr>tk_data := p, tk_length := len,
                tk_response_handler := Some Sync_Response_Handler, tk_timeout := default_timeout timeout,
                tk_timestamp := 0, tk_semaphore := sem, tk_sync_send_result := res,
                tk_sync_response_buf := buf, tk_sync_response_length := rl\<rparr> = ?t"
      by (simp add: plain_task_def with_caller_def zero_task_def)
    have "atc_send_sync I others False (Some data) len res buf rl timeout w =
        enqueue_tail I ?t [p] (Some sem) (wait_and_delete I others sem) x"
      using len b sems both(1-4) t
      by (auto simp: run enqueue_tail_def drop_sem_def wait_and_delete_def [abs_def] Let_def cong: if_cong)
    then show ?thesis
      using enqueue_tail_ok [OF I(1) Q both(7), of ?t "Some sem" "wait_and_delete I others sem"] both(4-6)
      by (auto simp: gave_up_def plain_task_def with_caller_def)
  qed
qed

lemma prompt_sync_ok:
  assumes I: "complete I" "malloc_fresh I" and Q: "queue_contract I Q"
    and len: "len \<noteq> 0" "unat len \<le> length data" and plen: "plen \<noteq> 0" "unat plen \<le> length prompt"
  shows "(\<exists>w'. atc_send_with_prompt_binary_rx_sync I others False (Some data) len (Some prompt) plen recv_len
         res buf rl timeout w = ok (ATC_ERROR, w') \<and> gave_up I Q data len {plen} w w') \<or>
    (\<exists>p q sem w1. atc_send_with_prompt_binary_rx_sync I others False (Some data) len (Some prompt) plen recv_len
         res buf rl timeout w = wait_and_delete I others sem w1 \<and>
       own_semaphore I data len w = Some sem \<and> sem \<noteq> NULL \<and> trace w1 = trace w @ [Ev_Give (wake_semaphore (ctx w))] \<and>
       queued Q (with_prompt q plen recv_len (with_caller sem res buf rl (plain_task p len None timeout)))
         [(p, take (unat len) data), (q, take (unat plen) prompt)] w w1)"
proof (cases rule: copied_with_sem [OF I Q len(2), of w, case_names no_memory no_sem both])
  case (no_memory u)
  then show ?thesis using len plen by (auto simp: atc_send_with_prompt_binary_rx_sync_def I(1))
next
  case (no_sem p u x v)
  then show ?thesis using len plen by (auto simp: atc_send_with_prompt_binary_rx_sync_def I(1))
next
  case (both p u sem x)
  show ?thesis
  proof (cases rule: copied_malloc [OF I Q plen(2) both(7), case_names fails fresh])
    case (fails y)
    obtain v where v: "os_free I p y = ok v" "copied Q [] w v" using copied_free [OF I(1) Q fails(2)] by blast
    obtain z where "os_sem_delete I sem v = ok z" "unchanged Q w z" "trace z = trace w @ [Ev_Delete sem]"
      using copied_delete [OF I(1) Q v(2)] by blast
    moreover have "\<exists>p u v. copied Q [(p, take (unat len) data)] w u \<and> os_malloc I plen u = ok (NULL, v)"
      using both(7) malloc_copy_none [OF I(1) plen(2) fails(1)] by blast
    ultimately show ?thesis using len plen both(1-5) fails(1) v(1)
      by (auto simp: atc_send_with_prompt_binary_rx_sync_def I(1) gave_up_def)
  next
    case (fresh q y)
    let ?t = "with_prompt q plen recv_len (with_caller sem res buf rl (plain_task p len None timeout))"
    have t: "zero_task\<lparr>tk_data := p, tk_length := len,
                tk_response_handler := Some Sync_Response_Handler, tk_timeout := default_timeout timeout,
                tk_timestamp := 0, tk_semaphore := sem, tk_sync_send_result := res,
                tk_sync_response_buf := buf, tk_sync_response_length := rl,
                tk_prompt := q, tk_prompt_len := plen, tk_need_recv_len := recv_len,
                tk_status := SEND_TASK_STATUS_PROMPT\<rparr> = ?t"
      by (simp add: plain_task_def with_caller_def with_prompt_def zero_task_def)
    have run: "atc_send_with_prompt_binary_rx_sync I others False (Some data) len (Some prompt) plen recv_len
        res buf rl timeout w = enqueue_tail I ?t [p, q] (Some sem) (wait_and_delete I others sem) y"
      using len plen both(1-4) fresh(1,2) t
      by (simp add: atc_send_with_prompt_binary_rx_sync_def enqueue_tail_def drop_sem_def
          wait_and_delete_def [abs_def] Let_def I(1) cong: if_cong)
    have "tk_length ?t < 0x80000000" using both(6) by (simp add: plain_task_def with_caller_def with_prompt_def)
    from enqueue_tail_ok [OF I(1) Q fresh(4) this, of "Some sem" "wait_and_delete I others sem"] show ?thesis
      using both(4,5) by (fastforce simp: run gave_up_def)
  qed
qed

end
