(* ===== verification/Send_Start.thy ===== *)
theory Send_Start
  imports Recv_Scenarios Send_Msg
begin

text \<open>
  \<open>send_msg_handle\<close>: what the event loop does with the next queued command.  A task that
  waits in the queue is described by \<open>task_ready\<close>; taking it out turns that into the
  receive path's invariant for the new current task.
\<close>

section \<open>Queued tasks\<close>

definition task_ready :: "'os world \<Rightarrow> send_task \<Rightarrow> bool" where
  "task_ready w t \<longleftrightarrow>
     tk_data t \<noteq> NULL \<and> bytes_at w (tk_data t) (unat (tk_length t)) \<and> tk_data t \<noteq> tk_prompt t \<and>
     tk_length t < 0x80000000 \<and>
     (tk_prompt t \<noteq> NULL \<longrightarrow> bytes_at w (tk_prompt t) (unat (tk_prompt_len t))) \<and>
     (tk_response_handler t = Some Sync_Response_Handler \<longrightarrow> sync_ok w t) \<and>
     tk_status t \<noteq> SEND_TASK_STATUS_BINARY"

text \<open>The bytes of the command.\<close>

definition task_bytes :: "'os world \<Rightarrow> send_task \<Rightarrow> u8 list" where
  "task_bytes w t = (case heap w (tk_data t) of Some (O_Bytes bs) \<Rightarrow> take (unat (tk_length t)) bs | _ \<Rightarrow> [])"

lemma task_ready_bytes:
  "task_ready w t \<Longrightarrow> \<exists>bs. heap w (tk_data t) = Some (O_Bytes bs) \<and> unat (tk_length t) \<le> length bs \<and>
    task_bytes w t = take (unat (tk_length t)) bs"
  by (auto simp: task_ready_def bytes_at_def task_bytes_def)

lemma bytes_at_mono: "bytes_at w p n \<Longrightarrow> (\<And>bs. heap w p = Some (O_Bytes bs) \<Longrightarrow> heap w' p = heap w p) \<Longrightarrow> bytes_at w' p n"
  by (auto simp: bytes_at_def)

lemma sync_ok_mono:
  "sync_ok w t \<Longrightarrow> (\<And>p ob. heap w p = Some ob \<Longrightarrow> heap w' p = heap w p) \<Longrightarrow> sync_ok w' t"
  unfolding sync_ok_def by metis

lemma resp_is_cleared [simp]: "length (response c) = 512 \<Longrightarrow> resp_is (c\<lparr>response := replicate (length (response c)) 0, response_length := 0\<rparr>) []"
  by (simp add: resp_is_def)

text \<open>The context once a task is at \<open>p\<close> and nothing has been received for it.\<close>

definition started :: "addr \<Rightarrow> atc_context \<Rightarrow> atc_context" where
  "started p c = c\<lparr>current_send_task := p, response := replicate (length (response c)) 0, response_length := 0\<rparr>"

lemma rx_inv_start:
  assumes inv: "rx_inv I w es ip xs None" and t: "task_ready w t"
    and p: "p \<noteq> NULL" "heap w p = None"
    and w': "heap w' = (heap w)(p \<mapsto> O_Task (t\<lparr>tk_timestamp := now\<rparr>))" "ctx w' = started p (ctx w)"
  shows "rx_inv I w' es ip xs (Some (t\<lparr>tk_timestamp := now\<rparr>))"
proof -
  have old: "heap w' q = Some ob" if "heap w q = Some ob" for q ob
    using that p w'(1) by auto
  then have same: "heap w' q = heap w q" if "heap w q = Some ob" for q ob using that by metis
  have "urc_inv I w' es"
    using inv old w'(2) by (intro urc_inv_stable [of I w es w']) (auto simp: rx_inv_def links_kept_def started_def)
  moreover have "stack_rep w' (byte_stack (ctx w')) ip 20 xs"
    using inv old w'(2) by (auto simp: rx_inv_def stack_rep_def started_def)
  moreover have "buf_ok (ctx w')" using inv w'(2) by (simp add: rx_inv_def buf_ok_def started_def)
  moreover have "task_state w' (Some (t\<lparr>tk_timestamp := now\<rparr>))"
    using t p w' inv same sync_ok_mono [of w t w'] bytes_at_mono [of w "tk_data t" _ w'] bytes_at_mono [of w "tk_prompt t" _ w']
    by (auto simp: task_state_def task_ok_def task_ready_def rx_inv_def resp_text_def started_def sync_ok_def)
  ultimately show ?thesis by (simp add: rx_inv_def)
qed

section \<open>Starting a command\<close>

definition failed_start :: "send_task \<Rightarrow> event list" where
  "failed_start t =
     (case tk_response_handler t of
        None \<Rightarrow> []
      | Some Sync_Response_Handler \<Rightarrow> if tk_semaphore t \<noteq> NULL then [Ev_Give (tk_semaphore t)] else []
      | Some (App_Response_Handler f) \<Rightarrow> [Ev_Response f ATC_HARDWARE_ERROR [] 0])"

lemma send_handle_busy: "current_send_task (ctx w) \<noteq> NULL \<Longrightarrow> send_msg_handle I w = ok w"
  by (simp add: send_msg_handle_def)

lemma send_handle_idle:
  assumes inv: "rx_inv I w es ip xs None" and Q: "queue_contract I Q" and q: "Q (send_queue (ctx w)) (os w) = []"
  shows "\<exists>s. send_msg_handle I w = ok (w\<lparr>os := s\<rparr>) \<and> same_queues Q (os w) s"
proof -
  have c: "current_send_task (ctx w) = NULL" using inv by (simp add: rx_inv_def task_state_def)
  obtain s where "os_queue_recv I (send_queue (ctx w)) 0 w = ok (None, w\<lparr>os := s\<rparr>)"
      "\<forall>q'. Q q' s = (if q' = send_queue (ctx w) then [] else Q q' (os w))"
    using queue_recv_law [OF conjunct1 [OF rx_inv_interface [OF inv]] Q, of "send_queue (ctx w)" 0 w] q by auto
  then show ?thesis using c q by (intro exI [of _ s]) (simp add: send_msg_handle_def same_queues_def)
qed

text \<open>The platform has no memory for the current task, once the queued one has been taken out.\<close>

definition start_refused :: "'os atc_interface \<Rightarrow> 'os world \<Rightarrow> bool" where
  "start_refused I w \<longleftrightarrow>
     (\<exists>x u v. os_queue_recv I (send_queue (ctx w)) 0 w = ok (x, u) \<and> os_malloc I sizeof_send_task u = ok (NULL, v))"

text \<open>
  The three outcomes for a queued task: no memory, sent, and refused by the hardware.  In the
  last case the task is current, in the world \<open>u\<close>, when the command ends.
\<close>

lemma send_handle_exact:
  assumes inv: "rx_inv I w es ip xs None" and Q: "queue_contract I Q"
    and q: "Q (send_queue (ctx w)) (os w) = Q_Task t # rest" and t: "task_ready w t"
  shows "\<exists>u. (\<forall>x. Q x (os u) = (if x = send_queue (ctx w) then rest else Q x (os w))) \<and>
    (if start_refused I w then send_msg_handle I w = ok u \<and> heap u = heap w \<and> ctx u = ctx w \<and> trace u = trace w
     else \<exists>p now r. p \<noteq> NULL \<and> heap w p = None \<and> rx_inv I u es ip xs (Some (t\<lparr>tk_timestamp := now\<rparr>)) \<and>
        heap u = (heap w)(p \<mapsto> O_Task (t\<lparr>tk_timestamp := now\<rparr>)) \<and> ctx u = started p (ctx w) \<and>
        trace u = trace w @ [Ev_Send (task_bytes w t) r] \<and>
        send_msg_handle I w = (if r = ATC_SUCCESS then ok u else command_end_handle I ATC_HARDWARE_ERROR u))"
proof -
  have I: "complete I" "malloc_fresh I" and c: "current_send_task (ctx w) = NULL"
    using rx_inv_interface [OF inv] inv by (auto simp: rx_inv_def task_state_def)
  note keep = queue_contract_keeps [OF Q]
  obtain s where s: "os_queue_recv I (send_queue (ctx w)) 0 w = ok (Some (Q_Task t), w\<lparr>os := s\<rparr>)"
      "\<forall>x. Q x s = (if x = send_queue (ctx w) then rest else Q x (os w))"
    using queue_recv_law [OF I(1) Q, of "send_queue (ctx w)" 0 w] q by auto
  show ?thesis
  proof (cases rule: os_malloc_cases [OF I, of sizeof_send_task "w\<lparr>os := s\<rparr>", case_names fails fresh])
    case (fails m)
    then have "same_queues Q s m" using os_malloc_keeps [OF keep fails] by simp
    moreover have "upd_ctx (\<lambda>c. c\<lparr>current_send_task := NULL\<rparr>) (w\<lparr>os := m\<rparr>) = w\<lparr>os := m\<rparr>"
      using c by (simp add: upd_ctx_def)
    moreover have "start_refused I w" unfolding start_refused_def using s(1) fails by blast
    ultimately show ?thesis using s c fails
      by (intro exI [of _ "w\<lparr>os := m\<rparr>"]) (simp add: send_msg_handle_def same_queues_def Let_def I(1))
  next
    case (fresh p m)
    have km: "same_queues Q s m" using os_malloc_keeps [OF keep fresh(1)] by simp
    let ?u = "clear_response_buffer (put p (O_Task t) (upd_ctx (\<lambda>c. c\<lparr>current_send_task := p\<rparr>) (w\<lparr>os := m\<rparr>)))"
    obtain now n where now: "atc_time_get I ?u = ok (now, ?u\<lparr>os := n\<rparr>)"
      using atc_time_get_ok [OF I(1)] by blast
    have kn: "same_queues Q m n" using atc_time_get_keeps [OF keep now] by (simp add: clear_response_buffer_def)
    let ?t = "t\<lparr>tk_timestamp := now\<rparr>"
    let ?v = "put p (O_Task ?t) (?u\<lparr>os := n\<rparr>)"
    obtain bs where bs: "heap w (tk_data t) = Some (O_Bytes bs)" "unat (tk_length t) \<le> length bs"
        "task_bytes w t = take (unat (tk_length t)) bs"
      using task_ready_bytes [OF t] by blast
    obtain r k where r: "os_send I (task_bytes w t) (tk_length t) ?v = ok (r, emit (Ev_Send (task_bytes w t) r) (?v\<lparr>os := k\<rparr>))"
      using os_send_ok [OF I(1)] by blast
    have kk: "same_queues Q n k" using os_send_keeps [OF keep r] by simp
    let ?x = "emit (Ev_Send (task_bytes w t) r) (?v\<lparr>os := k\<rparr>)"
    have x: "heap ?x = (heap w)(p \<mapsto> O_Task ?t)" "ctx ?x = started p (ctx w)"
        "trace ?x = trace w @ [Ev_Send (task_bytes w t) r]"
      by (simp_all add: clear_response_buffer_def started_def)
    have "heap w p = None" using fresh(3) by simp
    note st = rx_inv_start [OF inv t fresh(2) this x(1,2)]
    have ne: "tk_data t \<noteq> NULL" "tk_data t \<noteq> p" using t bs(1) fresh(3) by (auto simp: task_ready_def)
    have "get_task p (?u\<lparr>os := n\<rparr>) = ok t" using fresh(2) by (simp add: clear_response_buffer_def)
    moreover have "get_bytes (tk_data t) ?v = ok bs" using ne bs(1) by (simp add: clear_response_buffer_def)
    ultimately have "send_msg_handle I w = (if r = ATC_SUCCESS then ok ?x else command_end_handle I ATC_HARDWARE_ERROR ?x)"
      using s(1) c fresh(1,2) now bs(2,3) r
      by (simp add: send_msg_handle_def Let_def mem_read_def I(1) cong: if_cong)
    moreover have "\<forall>y. Q y (os ?x) = (if y = send_queue (ctx w) then rest else Q y (os w))"
      using s(2) km kn kk by (simp add: same_queues_def)
    moreover have "\<not> start_refused I w" unfolding start_refused_def using s(1) fresh(1,2) by auto
    note go = if_not_P [OF this]
    ultimately show ?thesis unfolding go using st x fresh(2,3)
      by (intro exI [of _ ?x] conjI exI [of _ p] exI [of _ now] exI [of _ r]) simp_all
  qed
qed

lemma send_handle_next:
  assumes "rx_inv I w es ip xs None" and "queue_contract I Q"
    and "Q (send_queue (ctx w)) (os w) = Q_Task t # rest" and "task_ready w t"
  shows "\<exists>u. (\<forall>x. Q x (os u) = (if x = send_queue (ctx w) then rest else Q x (os w))) \<and>
    (send_msg_handle I w = ok u \<and> heap u = heap w \<and> ctx u = ctx w \<and> trace u = trace w \<or>
     (\<exists>p now r. p \<noteq> NULL \<and> heap w p = None \<and> rx_inv I u es ip xs (Some (t\<lparr>tk_timestamp := now\<rparr>)) \<and>
        heap u = (heap w)(p \<mapsto> O_Task (t\<lparr>tk_timestamp := now\<rparr>)) \<and> ctx u = started p (ctx w) \<and>
        trace u = trace w @ [Ev_Send (task_bytes w t) r] \<and>
        send_msg_handle I w = (if r = ATC_SUCCESS then ok u else command_end_handle I ATC_HARDWARE_ERROR u)))"
proof -
  from send_handle_exact [OF assms] obtain u where u: "\<forall>x. Q x (os u) = (if x = send_queue (ctx w) then rest else Q x (os w))"
    "if start_refused I w then send_msg_handle I w = ok u \<and> heap u = heap w \<and> ctx u = ctx w \<and> trace u = trace w
     else \<exists>p now r. p \<noteq> NULL \<and> heap w p = None \<and> rx_inv I u es ip xs (Some (t\<lparr>tk_timestamp := now\<rparr>)) \<and>
        heap u = (heap w)(p \<mapsto> O_Task (t\<lparr>tk_timestamp := now\<rparr>)) \<and> ctx u = started p (ctx w) \<and>
        trace u = trace w @ [Ev_Send (task_bytes w t) r] \<and>
        send_msg_handle I w = (if r = ATC_SUCCESS then ok u else command_end_handle I ATC_HARDWARE_ERROR u)" by blast
  then show ?thesis by (cases "start_refused I w") (simp_all only: if_True if_False, blast+)
qed

text \<open>What follows when the hardware refuses the bytes: the command ends at once.\<close>

lemma send_refused:
  assumes inv: "rx_inv I u es ip xs (Some (t\<lparr>tk_timestamp := now\<rparr>))" and c: "ctx u = started p c" and Q: "queue_contract I Q"
  shows "\<exists>w'. command_end_handle I ATC_HARDWARE_ERROR u = ok w' \<and> rx_inv I w' es ip [] None \<and>
    trace w' = trace u @ failed_start t \<and> same_queues Q (os u) (os w') \<and> (\<forall>p \<in> {tk_data t, tk_prompt t} - {NULL}. heap w' p = None)"
proof -
  from rx_end_frame [OF inv, of ATC_HARDWARE_ERROR] obtain w' where
    w': "command_end_handle I ATC_HARDWARE_ERROR u = ok w'" "rx_inv I w' es ip [] None"
      "trace w' = trace u @ end_events (t\<lparr>tk_timestamp := now\<rparr>) ATC_HARDWARE_ERROR (ctx u)"
      "\<forall>q \<in> {current_send_task (ctx u), tk_data t, tk_prompt t} - {NULL}. heap w' q = None" by auto
  have "end_events (t\<lparr>tk_timestamp := now\<rparr>) ATC_HARDWARE_ERROR (ctx u) = failed_start t"
    using c by (simp add: end_events_def failed_start_def started_def split: option.split response_handler.split)
  moreover have "same_queues Q (os u) (os w')"
    using command_end_os [OF queue_contract_keeps [OF Q], of "os u" u ATC_HARDWARE_ERROR] w'(1)
    by (simp add: within_def same_queues_def)
  ultimately show ?thesis using w' by auto
qed


section \<open>Properties\<close>

text \<open>
  A task as a call leaves it in the queue: ready, sending a private copy of the command, and
  with what the caller asked for.
\<close>

definition command_queued ::
  "(addr \<Rightarrow> 'os \<Rightarrow> qitem list) \<Rightarrow> u8 list \<Rightarrow> u32 \<Rightarrow> response_handler option \<Rightarrow> send_task \<Rightarrow> 'os world \<Rightarrow> 'os world \<Rightarrow> bool" where
  "command_queued Q bytes timeout handler t w w' \<longleftrightarrow>
     task_ready w' t \<and> task_bytes w' t = bytes \<and> tk_response_handler t = handler \<and>
     tk_timeout t = (if timeout = 0 then 0xFFFFFFFF else timeout) \<and> tk_timestamp t = 0 \<and>
     heap w (tk_data t) = None \<and> (tk_prompt t \<noteq> NULL \<longrightarrow> heap w (tk_prompt t) = None) \<and>
     (\<forall>p. p \<noteq> tk_data t \<longrightarrow> p \<noteq> tk_prompt t \<or> p = NULL \<longrightarrow> heap w' p = heap w p) \<and> ctx w' = ctx w \<and>
     trace w' = trace w @ [Ev_Give (wake_semaphore (ctx w))] \<and>
     (\<forall>q. Q q (os w') = Q q (os w) @ (if q = send_queue (ctx w) then [Q_Task t] else []))"

lemma task_fields [simp]:
  "tk_data (plain_task p len h n) = p" "tk_length (plain_task p len h n) = len"
  "tk_response_handler (plain_task p len h n) = h" "tk_timeout (plain_task p len h n) = default_timeout n"
  "tk_timestamp (plain_task p len h n) = 0" "tk_prompt (plain_task p len h n) = NULL"
  "tk_status (plain_task p len h n) = SEND_TASK_STATUS_LINE_RECV"
  "tk_data (with_prompt q k m t) = tk_data t" "tk_length (with_prompt q k m t) = tk_length t"
  "tk_response_handler (with_prompt q k m t) = tk_response_handler t" "tk_timeout (with_prompt q k m t) = tk_timeout t"
  "tk_timestamp (with_prompt q k m t) = tk_timestamp t" "tk_prompt (with_prompt q k m t) = q"
  "tk_status (with_prompt q k m t) = SEND_TASK_STATUS_PROMPT" "tk_prompt_len (with_prompt q k m t) = k"
  "tk_need_recv_len (with_prompt q k m t) = m" "tk_semaphore (with_prompt q k m t) = tk_semaphore t"
  "tk_sync_send_result (with_prompt q k m t) = tk_sync_send_result t"
  "tk_sync_response_buf (with_prompt q k m t) = tk_sync_response_buf t"
  "tk_sync_response_length (with_prompt q k m t) = tk_sync_response_length t"
  "tk_data (with_caller s r b l t) = tk_data t" "tk_length (with_caller s r b l t) = tk_length t"
  "tk_response_handler (with_caller s r b l t) = Some Sync_Response_Handler"
  "tk_timeout (with_caller s r b l t) = tk_timeout t" "tk_timestamp (with_caller s r b l t) = tk_timestamp t"
  "tk_prompt (with_caller s r b l t) = tk_prompt t" "tk_semaphore (with_caller s r b l t) = s"
  "tk_sync_send_result (with_caller s r b l t) = r" "tk_sync_response_buf (with_caller s r b l t) = b"
  "tk_sync_response_length (with_caller s r b l t) = l" "tk_prompt_len (with_caller s r b l t) = tk_prompt_len t"
  "tk_need_recv_len (with_caller s r b l t) = tk_need_recv_len t" "tk_status (with_caller s r b l t) = tk_status t"
  by (simp_all add: plain_task_def with_prompt_def with_caller_def zero_task_def)

lemma os_sem_take_ok:
  "complete I \<Longrightarrow> \<exists>r s. os_sem_take I p t w = ok (r, emit (Ev_Take p t) (w\<lparr>os := s\<rparr>))"
  by (auto simp: os_sem_take_def complete_def split: prod.split)

text \<open>A blocked caller that is woken has its answer, and deletes its semaphore.\<close>

lemma wait_returns:
  assumes "complete I" and "others v = ok u"
  shows "\<exists>w'. wait_and_delete I others sem v = ok (ATC_SUCCESS, w') \<and> heap w' = heap u \<and> ctx w' = ctx u \<and>
    trace w' = trace u @ [Ev_Take sem ATC_TIMEOUT_MAX, Ev_Delete sem]"
proof -
  obtain r k where k: "os_sem_take I sem ATC_TIMEOUT_MAX u = ok (r, emit (Ev_Take sem ATC_TIMEOUT_MAX) (u\<lparr>os := k\<rparr>))"
    using os_sem_take_ok [OF assms(1)] by blast
  let ?u = "emit (Ev_Take sem ATC_TIMEOUT_MAX) (u\<lparr>os := k\<rparr>)"
  obtain z where "os_sem_delete I sem ?u = ok (emit (Ev_Delete sem) (?u\<lparr>os := z\<rparr>))"
    using delete_ok [OF assms(1)] by blast
  then show ?thesis using assms(2) k by (auto simp: wait_and_delete_def)
qed

lemma default_timeout_value: "default_timeout n = (if n = 0 then 0xFFFFFFFF else n)"
  by (simp add: default_timeout_def atc_constants)

lemma queued_plain:
  assumes "queued Q t [(tk_data t, bs)] w w'" and "trace w' = trace w @ [Ev_Give (wake_semaphore (ctx w))]"
    and "tk_prompt t = NULL" "unat (tk_length t) = length bs" "tk_timestamp t = 0" "tk_timeout t = default_timeout n"
    and "tk_status t = SEND_TASK_STATUS_LINE_RECV" "tk_response_handler t = Some Sync_Response_Handler \<longrightarrow> sync_ok w t"
  shows "command_queued Q bs n (tk_response_handler t) t w w'"
proof -
  have "heap w' q = heap w q" if "heap w q = Some ob" for q ob
    using that assms(1) by (auto simp: queued_def)
  then have "sync_ok w' t" if "sync_ok w t" by (rule sync_ok_mono [OF that])
  then show ?thesis using assms
    by (auto simp: command_queued_def queued_def task_ready_def bytes_at_def task_bytes_def default_timeout_value)
qed

lemma queued_prompt:
  assumes "queued Q t [(tk_data t, bs), (tk_prompt t, p)] w w'" and "trace w' = trace w @ [Ev_Give (wake_semaphore (ctx w))]"
    and "unat (tk_length t) = length bs" "unat (tk_prompt_len t) = length p" "tk_timestamp t = 0"
    and "tk_timeout t = default_timeout n" "tk_status t = SEND_TASK_STATUS_PROMPT"
    and "tk_response_handler t = Some Sync_Response_Handler \<longrightarrow> sync_ok w t"
  shows "command_queued Q bs n (tk_response_handler t) t w w'" and "p \<noteq> [] \<Longrightarrow> prompt_is w' t p"
proof -
  have "heap w' q = heap w q" if "heap w q = Some ob" for q ob
    using that assms(1) by (auto simp: queued_def)
  then have "sync_ok w' t" if "sync_ok w t" by (rule sync_ok_mono [OF that])
  then show "command_queued Q bs n (tk_response_handler t) t w w'" using assms
    by (auto simp: command_queued_def queued_def task_ready_def bytes_at_def task_bytes_def default_timeout_value)
  show "p \<noteq> [] \<Longrightarrow> prompt_is w' t p" using assms by (auto simp: prompt_is_def queued_def)
qed

text \<open>
  C13: An asynchronous call either queues the command or changes nothing but the allocator:
  the queued task sends a private copy of the caller's bytes, made before the call returns,
  carries the handler, the timeout (0 for \<open>0xFFFFFFFF\<close>) and the prompt that were given, and
  the event loop is woken.  A null pointer or a zero length is refused.
\<close>

theorem async_commands_queued:
  assumes "complete I" and "malloc_fresh I" and "queue_contract I Q"
    and "len \<noteq> 0" and "unat len \<le> length data" and "plen \<noteq> 0" and "unat plen \<le> length prompt"
    and "h = map_option App_Response_Handler app"
  shows "(\<exists>r w'. atc_send_async I False (Some data) len h timeout w = ok (r, w') \<and>
      (if r = ATC_SUCCESS
       then \<exists>t. command_queued Q (take (unat len) data) timeout h t w w' \<and> tk_status t = SEND_TASK_STATUS_LINE_RECV
       else r = ATC_ERROR \<and> trace w' = trace w \<and> unchanged Q w w')) \<and>
    (\<exists>r w'. atc_send_with_prompt_binary_rx_async I False (Some data) len (Some prompt) plen recv_len h timeout w = ok (r, w') \<and>
      (if r = ATC_SUCCESS
       then \<exists>t. command_queued Q (take (unat len) data) timeout h t w w' \<and> tk_status t = SEND_TASK_STATUS_PROMPT \<and>
         prompt_is w' t (take (unat plen) prompt) \<and> tk_need_recv_len t = recv_len
       else r = ATC_ERROR \<and> trace w' = trace w \<and> unchanged Q w w')) \<and>
    atc_send_async I True (Some data) len h timeout w = ok (ATC_ERROR, w) \<and>
    atc_send_async I c None len h timeout w = ok (ATC_ERROR, w) \<and>
    atc_send_async I c (Some data) 0 h timeout w = ok (ATC_ERROR, w) \<and>
    atc_send_with_prompt_binary_rx_async I c (Some data) len None plen recv_len h timeout w = ok (ATC_ERROR, w) \<and>
    atc_send_with_prompt_binary_rx_async I c (Some data) len (Some prompt) 0 recv_len h timeout w = ok (ATC_ERROR, w)"
proof (intro conjI)
  have app: "h = Some Sync_Response_Handler \<longrightarrow> sync_ok w t" for t using assms(8) by (cases app) simp_all
  have n: "length (take (unat len) data) = unat len" "length (take (unat plen) prompt) = unat plen" "take (unat plen) prompt \<noteq> []"
    using assms(5-7) unat_gt_0 [of plen] by (auto simp: min_absorb2)
  show "\<exists>r w'. atc_send_async I False (Some data) len h timeout w = ok (r, w') \<and>
      (if r = ATC_SUCCESS
       then \<exists>t. command_queued Q (take (unat len) data) timeout h t w w' \<and> tk_status t = SEND_TASK_STATUS_LINE_RECV
       else r = ATC_ERROR \<and> trace w' = trace w \<and> unchanged Q w w')"
    using send_async_ok [OF assms(1-5), of h timeout w] queued_plain [of Q "plain_task _ len h timeout" "take (unat len) data" w _ timeout]
      app n(1) by (metis task_fields(1-7))
  show "\<exists>r w'. atc_send_with_prompt_binary_rx_async I False (Some data) len (Some prompt) plen recv_len h timeout w = ok (r, w') \<and>
      (if r = ATC_SUCCESS
       then \<exists>t. command_queued Q (take (unat len) data) timeout h t w w' \<and> tk_status t = SEND_TASK_STATUS_PROMPT \<and>
         prompt_is w' t (take (unat plen) prompt) \<and> tk_need_recv_len t = recv_len
       else r = ATC_ERROR \<and> trace w' = trace w \<and> unchanged Q w w')"
    using prompt_async_ok [OF assms(1-7), of recv_len h timeout w]
      queued_prompt [of Q "with_prompt _ plen recv_len (plain_task _ len h timeout)" "take (unat len) data" "take (unat plen) prompt" w _ timeout]
      app n by (metis task_fields(1-16))
qed (simp_all add: atc_send_async_def atc_send_with_prompt_binary_rx_async_def)

theorem async_commands_queued_witness:
  "\<exists>w' t. atc_send_async platform_interface False (Some [65, 84, 13]) 3 (Some (App_Response_Handler 9)) 0 platform_world =
       ok (ATC_SUCCESS, w') \<and>
     command_queued (\<lambda>q s. pl_queues s q) [65, 84, 13] 0 (Some (App_Response_Handler 9)) t platform_world w'"
proof -
  have run: "\<exists>w'. atc_send_async platform_interface False (Some [65, 84, 13]) 3 (Some (App_Response_Handler 9)) 0 platform_world =
      ok (ATC_SUCCESS, w')"
    by (simp add: sample_run platform_world_def platform_start_def)
  show ?thesis
    using async_commands_queued [OF platform_complete platform_malloc_fresh platform_queues, of 3 "[65, 84, 13]" 1 "[62]"
        "Some (App_Response_Handler 9)" "Some 9" 0 platform_world 4 False] run by auto
qed

text \<open>
  C15: A synchronous call that cannot queue its command returns \<open>ATC_ERROR\<close> at once, with the
  heap, the context and the queues as they were.  That happens when there is no memory for the copy
  of the command or no semaphore, and then nothing shows; or, once it has created its semaphore,
  when memory for the copy of the prompt or a place in the queue is refused, and then it deletes
  exactly that semaphore.  Otherwise the queued task refers to the caller's variables and to the
  semaphore the call created, and when the caller has been woken it deletes that semaphore and
  returns \<open>ATC_SUCCESS\<close>, with what the event loop stored in the variables.
\<close>

theorem sync_commands_block:
  assumes "complete I" and "malloc_fresh I" and "queue_contract I Q"
    and "len \<noteq> 0" and "unat len \<le> length data" and "plen \<noteq> 0" and "unat plen \<le> length prompt"
    and "buf = NULL \<or> rl \<noteq> NULL" and "\<And>sem t. sync_ok w (with_caller sem res buf rl t)"
    and "outcome = atc_send_sync I others False (Some data) len res buf rl timeout w \<and> st = SEND_TASK_STATUS_LINE_RECV \<or>
      outcome = atc_send_with_prompt_binary_rx_sync I others False (Some data) len (Some prompt) plen recv_len
               res buf rl timeout w \<and> st = SEND_TASK_STATUS_PROMPT"
  shows "(\<exists>w'. outcome = ok (ATC_ERROR, w') \<and>
       gave_up I Q data len (if st = SEND_TASK_STATUS_PROMPT then {plen} else {}) w w') \<or>
    (\<exists>t v. command_queued Q (take (unat len) data) timeout (Some Sync_Response_Handler) t w v \<and>
       own_semaphore I data len w = Some (tk_semaphore t) \<and> tk_semaphore t \<noteq> NULL \<and> tk_sync_send_result t = res \<and> tk_sync_response_buf t = buf \<and>
       tk_sync_response_length t = rl \<and> tk_status t = st \<and>
       (st = SEND_TASK_STATUS_PROMPT \<longrightarrow> prompt_is v t (take (unat plen) prompt) \<and> tk_need_recv_len t = recv_len) \<and>
       (\<forall>v'. others v = ok v' \<longrightarrow> (\<exists>w'. outcome = ok (ATC_SUCCESS, w') \<and> heap w' = heap v' \<and> ctx w' = ctx v' \<and>
          trace w' = trace v' @ [Ev_Take (tk_semaphore t) 0xFFFFFFFF, Ev_Delete (tk_semaphore t)])))"
proof -
  have n: "length (take (unat len) data) = unat len" "length (take (unat plen) prompt) = unat plen" "take (unat plen) prompt \<noteq> []"
    using assms(5-7) unat_gt_0 [of plen] by (auto simp: min_absorb2)
  have wait: "\<exists>w'. wait_and_delete I others sem v = ok (ATC_SUCCESS, w') \<and> heap w' = heap v' \<and> ctx w' = ctx v' \<and>
      trace w' = trace v' @ [Ev_Take sem 0xFFFFFFFF, Ev_Delete sem]" if "others v = ok v'" for sem v v'
    using wait_returns [of I others v v' sem, OF assms(1) that] by (simp add: atc_constants)
  from assms(10) show ?thesis
  proof (elim disjE conjE)
    assume c: "outcome = atc_send_sync I others False (Some data) len res buf rl timeout w" "st = SEND_TASK_STATUS_LINE_RECV"
    from send_sync_ok [OF assms(1-5,8), of others res timeout w] show ?thesis
    proof (elim disjE exE conjE)
      fix p sem v
      let ?t = "with_caller sem res buf rl (plain_task p len None timeout)"
      assume q: "atc_send_sync I others False (Some data) len res buf rl timeout w = wait_and_delete I others sem v"
        "own_semaphore I data len w = Some sem" "sem \<noteq> NULL" "trace v = trace w @ [Ev_Give (wake_semaphore (ctx w))]" "queued Q ?t [(p, take (unat len) data)] w v"
      then have "command_queued Q (take (unat len) data) timeout (Some Sync_Response_Handler) ?t w v"
        using queued_plain [of Q ?t "take (unat len) data" w v timeout] n(1) assms(9) by simp
      then show ?thesis using q(1-3) c wait by (intro disjI2 exI [of _ ?t] exI [of _ v]) simp
    qed (use c in simp)
  next
    assume c: "outcome = atc_send_with_prompt_binary_rx_sync I others False (Some data) len (Some prompt) plen recv_len
               res buf rl timeout w" "st = SEND_TASK_STATUS_PROMPT"
    from prompt_sync_ok [OF assms(1-7), of others recv_len res buf rl timeout w] show ?thesis
    proof (elim disjE exE conjE)
      fix p q sem v
      let ?t = "with_prompt q plen recv_len (with_caller sem res buf rl (plain_task p len None timeout))"
      have s: "sync_ok w ?t" using assms(9) [of sem "with_prompt q plen recv_len (plain_task p len None timeout)"]
        by (simp add: sync_ok_def)
      assume q: "atc_send_with_prompt_binary_rx_sync I others False (Some data) len (Some prompt) plen recv_len
               res buf rl timeout w = wait_and_delete I others sem v"
        "own_semaphore I data len w = Some sem" "sem \<noteq> NULL" "trace v = trace w @ [Ev_Give (wake_semaphore (ctx w))]"
        "queued Q ?t [(p, take (unat len) data), (q, take (unat plen) prompt)] w v"
      then have "command_queued Q (take (unat len) data) timeout (Some Sync_Response_Handler) ?t w v"
          "prompt_is v ?t (take (unat plen) prompt)"
        using queued_prompt [of Q ?t "take (unat len) data" "take (unat plen) prompt" w v timeout] n s by simp_all
      then show ?thesis using q(1-3) c wait by (intro disjI2 exI [of _ ?t] exI [of _ v]) simp
    qed (use c in simp)
  qed
qed

theorem sync_commands_block_witness:
  "\<exists>w' t v. atc_send_sync platform_interface ok False (Some [65, 84]) 2 NULL NULL NULL 5 platform_world = ok (ATC_SUCCESS, w') \<and>
     command_queued (\<lambda>q s. pl_queues s q) [65, 84] 5 (Some Sync_Response_Handler) t platform_world v \<and> tk_semaphore t \<noteq> NULL"
proof -
  let ?r = "atc_send_sync platform_interface ok False (Some [65, 84]) 2 NULL NULL NULL 5 platform_world"
  have run: "\<exists>w'. ?r = ok (ATC_SUCCESS, w')"
    by (simp add: sample_run platform_world_def platform_start_def put_def)
  have "sync_ok platform_world (with_caller s NULL NULL NULL t)" for s t by (simp add: sync_ok_def)
  from sync_commands_block [OF platform_complete platform_malloc_fresh platform_queues, of 2 "[65, 84]" 1 "[62]" NULL NULL
      platform_world NULL ?r ok 5 SEND_TASK_STATUS_LINE_RECV 4, OF _ _ _ _ _ this] run
  show ?thesis by auto
qed

text \<open>The next command of an idle loop: lost for want of memory, started, or refused by the hardware.\<close>

lemma send_next_outcome:
  assumes inv: "rx_inv I w es ip xs None" and Q: "queue_contract I Q"
    and q: "Q (send_queue (ctx w)) (os w) = Q_Task t # rest" and t: "task_ready w t"
  shows "\<exists>w'. send_msg_handle I w = ok w' \<and> (\<forall>x. Q x (os w') = (if x = send_queue (ctx w) then rest else Q x (os w))) \<and>
    (if start_refused I w then heap w' = heap w \<and> ctx w' = ctx w \<and> trace w' = trace w
     else (\<exists>now. rx_inv I w' es ip xs (Some (t\<lparr>tk_timestamp := now\<rparr>)) \<and> resp_is (ctx w') [] \<and>
        heap w (current_send_task (ctx w')) = None \<and> pending (ctx w') = pending (ctx w) \<and>
        trace w' = trace w @ [Ev_Send (task_bytes w t) ATC_SUCCESS]) \<or>
     (\<exists>r. r \<noteq> ATC_SUCCESS \<and> rx_inv I w' es ip [] None \<and>
        (\<forall>p \<in> {tk_data t, tk_prompt t} - {NULL}. heap w' p = None) \<and>
        trace w' = trace w @ Ev_Send (task_bytes w t) r # failed_start t))"
proof -
  have resp: "length (response (ctx w)) = 512" by (rule rx_inv_resp [OF inv])
  from send_handle_exact [OF assms] obtain u where
    q: "\<forall>x. Q x (os u) = (if x = send_queue (ctx w) then rest else Q x (os w))" and
    u: "if start_refused I w then send_msg_handle I w = ok u \<and> heap u = heap w \<and> ctx u = ctx w \<and> trace u = trace w
     else \<exists>p now r. p \<noteq> NULL \<and> heap w p = None \<and> rx_inv I u es ip xs (Some (t\<lparr>tk_timestamp := now\<rparr>)) \<and>
      heap u = (heap w)(p \<mapsto> O_Task (t\<lparr>tk_timestamp := now\<rparr>)) \<and> ctx u = started p (ctx w) \<and>
      trace u = trace w @ [Ev_Send (task_bytes w t) r] \<and>
      send_msg_handle I w = (if r = ATC_SUCCESS then ok u else command_end_handle I ATC_HARDWARE_ERROR u)" by blast
  from u consider "start_refused I w" "send_msg_handle I w = ok u" "heap u = heap w" "ctx u = ctx w" "trace u = trace w"
    | p now r where "\<not> start_refused I w" "heap w p = None" "rx_inv I u es ip xs (Some (t\<lparr>tk_timestamp := now\<rparr>))"
      "ctx u = started p (ctx w)" "trace u = trace w @ [Ev_Send (task_bytes w t) r]"
      "send_msg_handle I w = (if r = ATC_SUCCESS then ok u else command_end_handle I ATC_HARDWARE_ERROR u)"
    by (cases "start_refused I w") auto
  then show ?thesis
  proof cases
    case 1
    then show ?thesis using q by auto
  next
    case (2 p now r)
    show ?thesis
    proof (cases "r = ATC_SUCCESS")
      case True
      have "resp_is (ctx u) []" "pending (ctx u) = pending (ctx w)" "current_send_task (ctx u) = p"
        using 2(4) resp by (simp_all add: resp_is_def started_def pending_def)
      then show ?thesis using True 2 q by (intro exI [of _ u]) auto
    next
      case False
      from send_refused [OF 2(3,4) Q] obtain w' where
        w': "command_end_handle I ATC_HARDWARE_ERROR u = ok w'" "rx_inv I w' es ip [] None" "trace w' = trace u @ failed_start t"
          "same_queues Q (os u) (os w')" "\<forall>p \<in> {tk_data t, tk_prompt t} - {NULL}. heap w' p = None" by blast
      then have "trace w' = trace w @ Ev_Send (task_bytes w t) r # failed_start t" "send_msg_handle I w = ok w'"
        using 2(5,6) False by simp_all
      then show ?thesis using 2(1) w'(2,4,5) False q by (intro exI [of _ w']) (auto simp: same_queues_def)
    qed
  qed
qed

text \<open>
  C14: The event loop starts at most one command at a time, the oldest queued one.  When a
  command is current nothing happens.  Otherwise the first task leaves the queue.  If the platform
  gives memory for the current task, the bytes of the command are transmitted once, and it becomes
  the current task, time-stamped and with an empty response; if the hardware refuses them, the
  command ends at once with \<open>ATC_HARDWARE_ERROR\<close> and its memory is freed.  When, and only
  when, that memory is refused (\<open>start_refused\<close>), the queued command is lost: nothing is sent
  and nobody is told.
\<close>

theorem send_starts_next:
  assumes "rx_inv I w es ip xs T" and "queue_contract I Q"
    and "Q (send_queue (ctx w)) (os w) = map Q_Task ts" and "\<forall>t \<in> set ts. task_ready w t"
  shows "\<exists>w'. send_msg_handle I w = ok w' \<and>
    (\<forall>q. Q q (os w') = (if q = send_queue (ctx w) \<and> T = None then tl (Q q (os w)) else Q q (os w))) \<and>
    (if T \<noteq> None \<or> ts = [] then heap w' = heap w \<and> ctx w' = ctx w \<and> trace w' = trace w
     else if start_refused I w then heap w' = heap w \<and> ctx w' = ctx w \<and> trace w' = trace w
     else let t = hd ts in
       (\<exists>now. rx_inv I w' es ip xs (Some (t\<lparr>tk_timestamp := now\<rparr>)) \<and> resp_is (ctx w') [] \<and>
          heap w (current_send_task (ctx w')) = None \<and> pending (ctx w') = pending (ctx w) \<and>
          trace w' = trace w @ [Ev_Send (task_bytes w t) ATC_SUCCESS]) \<or>
       (\<exists>r. r \<noteq> ATC_SUCCESS \<and> rx_inv I w' es ip [] None \<and>
          (\<forall>p \<in> {tk_data t, tk_prompt t} - {NULL}. heap w' p = None) \<and>
          trace w' = trace w @ Ev_Send (task_bytes w t) r # failed_start t))"
proof -
  have busy: "T \<noteq> None \<longleftrightarrow> current_send_task (ctx w) \<noteq> NULL"
    using assms(1) by (auto simp: rx_inv_def task_state_def task_ok_def split: option.splits)
  consider "T \<noteq> None" | "T = None" "ts = []" | t rest where "T = None" "ts = t # rest" by (cases T; cases ts) auto
  then show ?thesis
  proof cases
    case 1
    then show ?thesis using busy send_handle_busy [of w I] by auto
  next
    case 2
    then show ?thesis using send_handle_idle [of I w es ip xs Q] assms(1-3) by (auto simp: same_queues_def)
  next
    case 3
    then have "rx_inv I w es ip xs None" "Q (send_queue (ctx w)) (os w) = Q_Task t # map Q_Task rest" "task_ready w t"
      using assms(1,3,4) by simp_all
    from send_next_outcome [OF this(1) assms(2) this(2,3)] show ?thesis using 3 assms(3) by auto
  qed
qed

text \<open>An idle event loop, with the tasks \<open>ts\<close> in the send queue 7.\<close>

definition demo_idle :: "send_task list \<Rightarrow> platform world" where
  "demo_idle ts = (let w = demo_rx (demo_task SEND_TASK_STATUS_LINE_RECV 0) in
     w\<lparr>heap := (heap w)(60 := None), ctx := (ctx w)\<lparr>current_send_task := NULL, send_queue := 7, external_api_queue := 6,
         wake_semaphore := 5\<rparr>,
       os := platform_start\<lparr>pl_queues := (\<lambda>q. if q = 7 then map Q_Task ts else [])\<rparr>\<rparr>)"

lemma demo_idle_inv: "rx_inv platform_interface (demo_idle ts) demo_table 51 [] None"
proof -
  let ?w = "demo_rx (demo_task SEND_TASK_STATUS_LINE_RECV 0)"
  have inv: "rx_inv platform_interface ?w demo_table 51 [] (Some (demo_task SEND_TASK_STATUS_LINE_RECV 0))"
    by (rule demo_rx_task)
  have same: "heap (demo_idle ts) q = heap ?w q" if "q \<noteq> 60" for q using that by (simp add: demo_idle_def Let_def)
  have "heap ?w 60 = Some (O_Task (demo_task SEND_TASK_STATUS_LINE_RECV 0))" by (simp add: demo_rx_prompt_def)
  then have kept: "heap (demo_idle ts) q = Some ob" if "heap ?w q = Some ob" "is_table ob \<or> is_stack ob" for q ob
    using that same by (cases "q = 60") auto
  have k: "kept is_table ?w (demo_idle ts)" "kept is_stack ?w (demo_idle ts)" using kept unfolding kept_def by blast+
  have c: "urc_handler_list (ctx (demo_idle ts)) = urc_handler_list (ctx ?w)" "urc_next_id (ctx (demo_idle ts)) = urc_next_id (ctx ?w)"
      "byte_stack (ctx (demo_idle ts)) = byte_stack (ctx ?w)"
    by (simp_all add: demo_idle_def Let_def)
  have "urc_inv platform_interface (demo_idle ts) demo_table"
    by (rule kept_table_inv [OF _ k(1) c(1,2)]) (use inv in \<open>simp add: rx_inv_def\<close>)
  moreover have "stack_rep (demo_idle ts) (byte_stack (ctx (demo_idle ts))) 51 20 []"
    unfolding c by (rule kept_stack_rep [OF _ k(2)]) (use inv in \<open>simp add: rx_inv_def\<close>)
  moreover have "buf_ok (ctx (demo_idle ts))" "resp_text (ctx (demo_idle ts))"
    using inv text_mode_resp [OF inv] by (auto simp: rx_inv_def demo_idle_def Let_def buf_ok_def is_text_mode_def demo_task_def resp_text_def)
  ultimately show ?thesis by (simp add: rx_inv_def task_state_def demo_idle_def Let_def)
qed

lemma demo_idle_fields [simp]:
  "send_queue (ctx (demo_idle ts)) = 7" "external_api_queue (ctx (demo_idle ts)) = 6" "wake_semaphore (ctx (demo_idle ts)) = 5"
  "pl_queues (os (demo_idle ts)) = (\<lambda>q. if q = 7 then map Q_Task ts else [])" "pl_next (os (demo_idle ts)) = 100"
  "current_send_task (ctx (demo_idle ts)) = NULL" "trace (demo_idle ts) = []"
  "pl_tick (os (demo_idle ts)) = 0" "heap (demo_idle ts) 61 = Some (O_Bytes [65, 84])" "heap (demo_idle ts) 62 = Some (O_Bytes [62])"
  using demo_rx_facts(3) [of "[62]"]
  by (simp_all add: demo_idle_def Let_def platform_start_def demo_rx_prompt_def)

lemma demo_idle_free [simp]: "heap (demo_idle ts) 100 = None"
  by (simp add: demo_idle_def Let_def demo_rx_prompt_def demo_urc_world_def demo_list_world_def)

lemma demo_task_ready: "st \<noteq> SEND_TASK_STATUS_BINARY \<Longrightarrow> task_ready (demo_idle ts) (demo_task st n)"
  by (simp add: task_ready_def demo_task_def zero_task_def bytes_at_def)

theorem send_starts_next_witness:
  "\<exists>w'. send_msg_handle platform_interface (demo_idle [demo_task SEND_TASK_STATUS_LINE_RECV 0]) = ok w' \<and>
     trace w' = [Ev_Send [65, 84] ATC_SUCCESS] \<and> pl_queues (os w') 7 = [] \<and> heap w' 100 \<noteq> None"
proof -
  let ?t = "demo_task SEND_TASK_STATUS_LINE_RECV 0"
  let ?w = "demo_idle [?t]"
  have "\<exists>w'. send_msg_handle platform_interface ?w = ok w' \<and> current_send_task (ctx w') = 100 \<and> heap w' 100 \<noteq> None"
    by (simp add: sample_run demo_task_def cong: if_cong)
  moreover have "task_bytes ?w ?t = [65, 84]" by (simp add: task_bytes_def demo_task_def)
  ultimately show ?thesis
    using send_starts_next [OF demo_idle_inv platform_queues, of "[?t]" "[?t]"] demo_task_ready [of SEND_TASK_STATUS_LINE_RECV "[?t]" 0]
    by (auto simp: rx_inv_def task_state_def Let_def split: if_splits)
qed

end
