(* ===== verification/Extern_Msg.thy ===== *)
theory Extern_Msg
  imports Send_Start
begin

text \<open>
  \<open>extern_msg_handle.c\<close>: the API calls that register and remove URC handlers from any
  thread, the messages they put into the external queue, and the loop in which the event
  loop serves them.  The table is only ever touched by the event loop.
\<close>

section \<open>Operations\<close>

definition msg_free :: "'os atc_interface \<Rightarrow> addr \<Rightarrow> 'os world \<Rightarrow> 'os world res" where
  "msg_free I data w = (if data \<noteq> NULL then os_free I data w else ok w)"

definition extern_msg_queue_init :: "'os atc_interface \<Rightarrow> 'os world \<Rightarrow> (atc_result \<times> 'os world) res" where
  "extern_msg_queue_init I w =
     rbind (os_queue_create I 5 sizeof_msg w) (\<lambda>(q, w).
     let w = upd_ctx (\<lambda>c. c\<lparr>external_api_queue := q\<rparr>) w in
     if q = NULL then after (LOG_ERR I ''Failed to create external api queue'' []) (ok (ATC_ERROR, w))
     else ok (ATC_SUCCESS, w))"

text \<open>
  A local variable whose address is handed to the event loop lives at \<open>p\<close> from the entry of
  the function to its return.
\<close>

definition with_local ::
  "addr \<Rightarrow> obj \<Rightarrow> ('os world \<Rightarrow> ('a \<times> 'os world) res) \<Rightarrow> 'os world \<Rightarrow> ('a \<times> 'os world) res" where
  "with_local p x body w = rbind (body (put p x w)) (\<lambda>(r, w). ok (r, w\<lparr>heap := (heap w)(p := None)\<rparr>))"

text \<open>
  \<open>snprintf(reg_msg->entry.prefix, 32, "%s", prefix)\<close> returns the length of \<open>prefix\<close> and
  stores at most 31 of its characters and a NUL.  The fields of the message that are not
  assigned yet are zero here; they are assigned before the message is sent.
\<close>

definition prefix_size :: nat where "prefix_size = 32"

definition atc_urc_register ::
  "'os atc_interface \<Rightarrow> ('os world \<Rightarrow> 'os world res) \<Rightarrow> bool \<Rightarrow> u8 list option \<Rightarrow> addr \<Rightarrow> addr \<Rightarrow>
   'os world \<Rightarrow> (int \<times> 'os world) res" where
  "atc_urc_register I others context_null pfx handler assigned_id =
     with_local assigned_id (O_Int (-1)) (\<lambda>w.
       if context_null \<or> pfx = None \<or> handler = NULL then ok (-1, w)
       else rbind (arr_get (the pfx) 0) (\<lambda>c.
       if c = 0 then after (LOG_ERR I ''URC prefix is empty'' []) (ok (-1, w))
       else if atc_semaphore_create_binary I = None \<or> atc_semaphore_give I = None \<or>
          atc_semaphore_take I = None \<or> atc_semaphore_delete I = None
            then after (LOG_ERR I ''Semaphore functions are not implemented'' []) (ok (-1, w))
       else rbind (os_malloc I sizeof_urc_register_msg w) (\<lambda>(reg, w).
       if reg = NULL then after (LOG_ERR I ''Failed to allocate memory for urc_register_msg'' []) (ok (-1, w))
       else rbind (c_strlen (the pfx)) (\<lambda>count.
         let entry = \<lparr>ue_id = None, ue_prefix = take (prefix_size - 1) (cstr (the pfx)) @ [0], ue_handler = NULL\<rparr>;
             w = put reg (O_Reg \<lparr>rg_entry = entry, rg_out_id = NULL\<rparr>) w in
         if count \<ge> prefix_size then after (LOG_ERR I ''URC prefix too long'' []) (rbind (os_free I reg w) (\<lambda>w. ok (-1, w)))
         else
           let w = put reg (O_Reg \<lparr>rg_entry = entry\<lparr>ue_handler := handler\<rparr>, rg_out_id = assigned_id\<rparr>) w in
           rbind (os_sem_create I w) (\<lambda>(sem, w).
           if sem = NULL then after (LOG_ERR I ''Failed to create semaphore for sync urc register'' []) (rbind (os_free I reg w) (\<lambda>w. ok (-1, w)))
           else rbind (os_queue_send I (external_api_queue (ctx w))
               (Q_Msg \<lparr>ms_type = MSG_TYPE_URC_REGISTER, ms_data = reg, ms_free_fn = Some Msg_Free, ms_semaphore = sem\<rparr>)
               1000 w) (\<lambda>(ret, w).
             if ret \<noteq> 0
             then rbind (os_free I reg w) (\<lambda>w. rbind (os_sem_delete I sem w) (\<lambda>w.
               after (LOG_ERR I ''Failed to send urc register message to external api queue'' []) (ok (-1, w))))
             else
               rbind (os_sem_give I (wake_semaphore (ctx w)) w) (\<lambda>w.
               rbind (others w) (\<lambda>w.
               rbind (os_sem_take I sem ATC_TIMEOUT_MAX w) (\<lambda>(r, w).
               rbind (os_sem_delete I sem w) (\<lambda>w.
               rbind (load sel_int assigned_id w) (\<lambda>i. ok (i, w))))))))))))"

definition atc_urc_unregister ::
  "'os atc_interface \<Rightarrow> ('os world \<Rightarrow> 'os world res) \<Rightarrow> bool \<Rightarrow> int \<Rightarrow> addr \<Rightarrow>
   'os world \<Rightarrow> (atc_result \<times> 'os world) res" where
  "atc_urc_unregister I others context_null i result =
     with_local result (O_Result ATC_ERROR) (\<lambda>w.
       if context_null \<or> i \<le> 0 then ok (ATC_ERROR, w)
       else if atc_semaphore_create_binary I = None \<or> atc_semaphore_give I = None \<or>
          atc_semaphore_take I = None \<or> atc_semaphore_delete I = None
            then after (LOG_ERR I ''Semaphore functions are not implemented'' []) (ok (ATC_ERROR, w))
       else rbind (os_malloc I sizeof_urc_unregister_msg w) (\<lambda>(unreg, w).
       if unreg = NULL then after (LOG_ERR I ''Failed to allocate memory for urc_unregister_msg'' []) (ok (ATC_ERROR, w))
       else
         let w = put unreg (O_Unreg \<lparr>un_id = i, un_out_result = result\<rparr>) w in
         rbind (os_sem_create I w) (\<lambda>(sem, w).
         if sem = NULL then after (LOG_ERR I ''Failed to create semaphore for sync urc unregister'' []) (rbind (os_free I unreg w) (\<lambda>w. ok (ATC_ERROR, w)))
         else rbind (os_queue_send I (external_api_queue (ctx w))
             (Q_Msg \<lparr>ms_type = MSG_TYPE_URC_UNREGISTER, ms_data = unreg, ms_free_fn = Some Msg_Free, ms_semaphore = sem\<rparr>)
             1000 w) (\<lambda>(ret, w).
           if ret \<noteq> 0
           then rbind (os_free I unreg w) (\<lambda>w. rbind (os_sem_delete I sem w) (\<lambda>w.
             after (LOG_ERR I ''Failed to send urc unregister message to external api queue'' []) (ok (ATC_ERROR, w))))
           else
             rbind (os_sem_give I (wake_semaphore (ctx w)) w) (\<lambda>w.
             rbind (others w) (\<lambda>w.
             rbind (os_sem_take I sem ATC_TIMEOUT_MAX w) (\<lambda>(r, w).
             rbind (os_sem_delete I sem w) (\<lambda>w.
             rbind (load sel_result result w) (\<lambda>res. ok (res, w))))))))))"

text \<open>The body of the loop of \<open>extern_msg_handle\<close>.\<close>

definition handle_msg :: "'os atc_interface \<Rightarrow> msg \<Rightarrow> 'os world \<Rightarrow> 'os world res" where
  "handle_msg I rmsg w =
     after (LOG_DEBUG I ''received api msg type:%d'' [Log_Int (msg_type_code (ms_type rmsg))])
     (rbind (case ms_type rmsg of
         MSG_TYPE_URC_REGISTER \<Rightarrow>
           if ms_data rmsg \<noteq> NULL
           then rbind (load sel_reg (ms_data rmsg) w) (\<lambda>m.
                rbind (urc_register I (Some (rg_entry m)) w) (\<lambda>(assigned_id, w).
                rbind (load sel_reg (ms_data rmsg) w) (\<lambda>m.
                if rg_out_id m \<noteq> NULL then store_as sel_int (rg_out_id m) (O_Int assigned_id) w else ok w)))
           else ok w
       | MSG_TYPE_URC_UNREGISTER \<Rightarrow>
           if ms_data rmsg \<noteq> NULL
           then rbind (load sel_unreg (ms_data rmsg) w) (\<lambda>m.
                rbind (urc_unregister I (un_id m) w) (\<lambda>(result, w).
                rbind (load sel_unreg (ms_data rmsg) w) (\<lambda>m.
                if un_out_result m \<noteq> NULL then store_as sel_result (un_out_result m) (O_Result result) w else ok w)))
           else ok w
       | MSG_TYPE_OTHER n \<Rightarrow>
           after (LOG_ERR I ''Unknown message type: %d'' [Log_Int (msg_type_code (ms_type rmsg))]) (ok w)) (\<lambda>w.
     rbind (if ms_semaphore rmsg \<noteq> NULL then os_sem_give I (ms_semaphore rmsg) w else ok w) (\<lambda>w.
     case ms_free_fn rmsg of
       Some Msg_Free \<Rightarrow> if ms_data rmsg \<noteq> NULL then msg_free I (ms_data rmsg) w else ok w
     | None \<Rightarrow> ok w)))"

partial_function (option) extern_msg_handle :: "'os atc_interface \<Rightarrow> 'os world \<Rightarrow> 'os world res" where
  "extern_msg_handle I w =
     rbind (os_queue_recv I (external_api_queue (ctx w)) 0 w) (\<lambda>(x, w).
     case x of
       None \<Rightarrow> ok w
     | Some (Q_Task t) \<Rightarrow> fail BadItem
     | Some (Q_Msg rmsg) \<Rightarrow> rbind (handle_msg I rmsg w) (extern_msg_handle I))"

section \<open>Requests\<close>

text \<open>
  What a message asks for and what its sender is answered, and the abstract service:
  \<open>serves es q a es'\<close> says that on the table \<open>es\<close> the request \<open>q\<close> may be answered by
  \<open>a\<close>, leaving \<open>es'\<close>.  Registration may also fail, when memory is short.
\<close>

datatype request = Register urc_handler_entry | Unregister int

datatype answer = Assigned int | Outcome atc_result

inductive serves :: "urc_table \<Rightarrow> request \<Rightarrow> answer \<Rightarrow> urc_table \<Rightarrow> bool" where
  registered: "1 \<le> i \<Longrightarrow> i \<le> INT_MAX \<Longrightarrow> i \<notin> ids es \<Longrightarrow>
    serves es (Register e) (Assigned i) (es @ [(a, e\<lparr>ue_id := Some i\<rparr>)])"
| refused: "serves es (Register e) (Assigned (-1)) es"
| removed: "i \<in> ids es \<Longrightarrow> serves es (Unregister i) (Outcome ATC_SUCCESS) (drop_id i es)"
| absent: "i \<notin> ids es \<Longrightarrow> serves es (Unregister i) (Outcome ATC_ERROR) es"

inductive_simps serves_register: "serves es (Register e) a es'"
inductive_simps serves_unregister: "serves es (Unregister i) a es'"

inductive serves_all :: "urc_table \<Rightarrow> request list \<Rightarrow> answer list \<Rightarrow> urc_table \<Rightarrow> bool" where
  none: "serves_all es [] [] es"
| more: "serves es q a es' \<Longrightarrow> serves_all es' qs as es'' \<Longrightarrow> serves_all es (q # qs) (a # as) es''"

inductive_simps serves_all_simps [simp]: "serves_all es [] as es'" "serves_all es (q # qs) as es'"

lemma serves_length: "serves es q a es' \<Longrightarrow> length es' \<le> Suc (length es)"
  by (induction rule: serves.induct) (auto simp: drop_id_def intro: le_SucI)

section \<open>Messages in the heap\<close>

definition msg_request :: "'os world \<Rightarrow> msg \<Rightarrow> request" where
  "msg_request w m = (case heap w (ms_data m) of
     Some (O_Reg r) \<Rightarrow> Register (rg_entry r) | Some (O_Unreg u) \<Rightarrow> Unregister (un_id u) | _ \<Rightarrow> Unregister 0)"

definition msg_out :: "'os world \<Rightarrow> msg \<Rightarrow> addr" where
  "msg_out w m = (case heap w (ms_data m) of
     Some (O_Reg r) \<Rightarrow> rg_out_id r | Some (O_Unreg u) \<Rightarrow> un_out_result u | _ \<Rightarrow> NULL)"

text \<open>A message as the two calls above build it.\<close>

definition msg_ready :: "'os world \<Rightarrow> msg \<Rightarrow> bool" where
  "msg_ready w m \<longleftrightarrow> ms_data m \<noteq> NULL \<and> ms_free_fn m = Some Msg_Free \<and> ms_semaphore m \<noteq> NULL \<and> msg_out w m \<noteq> NULL \<and>
     (ms_type m = MSG_TYPE_URC_REGISTER \<and>
        (\<exists>r. heap w (ms_data m) = Some (O_Reg r) \<and> 0 \<in> set (ue_prefix (rg_entry r))) \<and>
        (\<exists>i. heap w (msg_out w m) = Some (O_Int i)) \<or>
      ms_type m = MSG_TYPE_URC_UNREGISTER \<and> (\<exists>u. heap w (ms_data m) = Some (O_Unreg u)) \<and>
        (\<exists>r. heap w (msg_out w m) = Some (O_Result r)))"

definition answer_obj :: "answer \<Rightarrow> obj" where
  "answer_obj a = (case a of Assigned i \<Rightarrow> O_Int i | Outcome r \<Rightarrow> O_Result r)"

text \<open>Objects outside \<open>A\<close> that are no part of the table stay.\<close>

definition ext_kept :: "addr set \<Rightarrow> 'os world \<Rightarrow> 'os world \<Rightarrow> bool" where
  "ext_kept A w w' \<longleftrightarrow> (\<forall>p ob. p \<notin> A \<longrightarrow> heap w p = Some ob \<longrightarrow> \<not> is_table ob \<longrightarrow> heap w' p = Some ob)"

lemma ext_keptD: "ext_kept A w w' \<Longrightarrow> heap w p = Some ob \<Longrightarrow> p \<notin> A \<Longrightarrow> \<not> is_table ob \<Longrightarrow> heap w' p = Some ob"
  by (simp add: ext_kept_def)

lemma ext_kept_trans: "ext_kept A u v \<Longrightarrow> ext_kept B v w \<Longrightarrow> ext_kept (A \<union> B) u w"
  by (simp add: ext_kept_def)

lemma ext_kept_mono: "ext_kept A u v \<Longrightarrow> A \<subseteq> B \<Longrightarrow> ext_kept B u v"
  by (auto simp: ext_kept_def)

lemma not_table_link: "\<not> is_table ob \<Longrightarrow> \<not> is_link ob"
  by (cases ob) auto

lemma urc_register_keeps: "keeps {} w w' \<Longrightarrow> ext_kept {} w w'"
  unfolding ext_kept_def keeps_def using not_table_link by blast

lemma urc_unregister_keeps:
  assumes "urc_inv I w es" and "keeps (fst ` set es) w w'"
  shows "ext_kept {} w w'"
  unfolding ext_kept_def
proof (intro allI impI)
  fix p ob assume p: "heap w p = Some ob" "\<not> is_table ob"
  have "p \<notin> fst ` set es"
  proof
    assume "p \<in> fst ` set es"
    then obtain e where "heap w p = Some (O_Entry e)" using urc_inv_keeps_entry [OF assms(1)] by blast
    then show False using p by simp
  qed
  then show "heap w' p = Some ob" using keepsD [OF assms(2) p(1)] not_table_link [OF p(2)] by blast
qed

text \<open>The table does not notice a change of one other object.\<close>

lemma urc_inv_upd:
  assumes "urc_inv I w es" and "heap w' = (heap w)(p := x)" and "heap w p = Some ob" "\<not> is_table ob"
    and "urc_handler_list (ctx w') = urc_handler_list (ctx w)" "urc_next_id (ctx w') = urc_next_id (ctx w)"
  shows "urc_inv I w' es"
  by (rule kept_table_inv [OF assms(1) _ assms(5,6)]) (rule kept_upd [OF assms(2)], use assms(3,4) in auto)

section \<open>One message\<close>

text \<open>The end of the handling, once the answer is known: store it, wake the sender, free the message.\<close>

lemma finish_msg:
  assumes I: "complete I" and inv: "urc_inv I w es" and sem: "sem \<noteq> NULL"
    and d: "d \<noteq> NULL" "heap w d = Some x" "\<not> is_table x" and out: "heap w out = Some y" "is_caller y" "\<not> is_caller x"
    and z: "is_caller z"
  shows "\<exists>w'. rbind (ok (put out z w)) (\<lambda>w. rbind (if sem \<noteq> NULL then os_sem_give I sem w else ok w) (\<lambda>w.
       if d \<noteq> NULL then msg_free I d w else ok w)) = ok w' \<and>
    urc_inv I w' es \<and> ctx w' = ctx w \<and> trace w' = trace w @ [Ev_Give sem] \<and>
    heap w' = (heap w)(out \<mapsto> z, d := None)"
proof -
  have ne: "out \<noteq> d" using d out by auto
  obtain s where s: "os_sem_give I sem (put out z w) = ok (emit (Ev_Give sem) ((put out z w)\<lparr>os := s\<rparr>))"
      "\<And>R. os_keeps R I \<Longrightarrow> R (os (put out z w)) s"
    using give_ok [OF I] by blast
  let ?v = "emit (Ev_Give sem) ((put out z w)\<lparr>os := s\<rparr>)"
  have "heap ?v d = Some x" using d(2) ne by simp
  then obtain u where u: "os_free I d ?v = ok (?v\<lparr>heap := (heap ?v)(d := None), os := u\<rparr>)"
      "\<And>R. os_keeps R I \<Longrightarrow> R (os ?v) u"
    using free_ok [OF I] by blast
  let ?w = "?v\<lparr>heap := (heap ?v)(d := None), os := u\<rparr>"
  have "\<not> is_table y" using out(2) by (cases y) auto
  then have "urc_inv I (put out z w) es" using out(1) by (intro urc_inv_upd [OF inv]) auto
  then have "urc_inv I ?w es" using d(2,3) ne by (intro urc_inv_upd [of I "put out z w" es ?w d None x]) auto
  then show ?thesis using s(1) u(1) sem d(1)
    by (intro exI [of _ ?w]) (simp add: msg_free_def)
qed

text \<open>A message served: what the sender finds, and what is left of the message.\<close>

definition msg_served :: "'os atc_interface \<Rightarrow> msg \<Rightarrow> urc_table \<Rightarrow> answer \<Rightarrow> urc_table \<Rightarrow> 'os world \<Rightarrow> 'os world \<Rightarrow> bool" where
  "msg_served I m es a es' w w' \<longleftrightarrow> urc_inv I w' es' \<and> serves es (msg_request w m) a es' \<and>
     heap w' (msg_out w m) = Some (answer_obj a) \<and> heap w' (ms_data m) = None \<and>
     ext_kept {ms_data m, msg_out w m} w w' \<and>
     trace w' = trace w @ [Ev_Give (ms_semaphore m)] \<and> (\<exists>i. ctx w' = (ctx w)\<lparr>urc_next_id := i\<rparr>)"

lemma finish_served:
  assumes I: "complete I" and m: "msg_ready w m" and v: "urc_inv I v es'" "serves es (msg_request w m) a es'"
    and k: "ext_kept {} w v" "trace v = trace w" "ctx v = (ctx w)\<lparr>urc_next_id := i\<rparr>"
  shows "\<exists>w'. rbind (ok (put (msg_out w m) (answer_obj a) v)) (\<lambda>w.
       rbind (if ms_semaphore m \<noteq> NULL then os_sem_give I (ms_semaphore m) w else ok w) (\<lambda>w.
       if ms_data m \<noteq> NULL then msg_free I (ms_data m) w else ok w)) = ok w' \<and> msg_served I m es a es' w w'"
proof -
  obtain x y where x: "heap w (ms_data m) = Some x" "\<not> is_table x" "\<not> is_caller x"
      and y: "heap w (msg_out w m) = Some y" "is_caller y" using m by (auto simp: msg_ready_def)
  have d: "ms_data m \<noteq> NULL" "ms_semaphore m \<noteq> NULL" "msg_out w m \<noteq> ms_data m"
    using m x y by (auto simp: msg_ready_def)
  have "\<not> is_table y" using y(2) by (cases y) auto
  then have h: "heap v (ms_data m) = Some x" "heap v (msg_out w m) = Some y"
    using ext_keptD [OF k(1) x(1)] ext_keptD [OF k(1) y(1)] x(2) by auto
  have "is_caller (answer_obj a)" by (simp add: answer_obj_def split: answer.split)
  from finish_msg [OF I v(1) d(2,1) h(1) x(2) h(2) y(2) x(3) this] obtain w' where w':
      "rbind (ok (put (msg_out w m) (answer_obj a) v)) (\<lambda>w.
         rbind (if ms_semaphore m \<noteq> NULL then os_sem_give I (ms_semaphore m) w else ok w) (\<lambda>w.
         if ms_data m \<noteq> NULL then msg_free I (ms_data m) w else ok w)) = ok w'"
      "urc_inv I w' es'" "ctx w' = ctx v" "trace w' = trace v @ [Ev_Give (ms_semaphore m)]"
      "heap w' = (heap v)(msg_out w m \<mapsto> answer_obj a, ms_data m := None)" by auto
  have "ext_kept {ms_data m, msg_out w m} w w'" using k(1) w'(5) by (auto simp: ext_kept_def)
  then have "msg_served I m es a es' w w'" using w'(2-5) v(2) k(2,3) d(3) by (auto simp: msg_served_def)
  with w'(1) show ?thesis by blast
qed

lemma handle_register:
  assumes inv: "urc_inv I w es" and room: "int (length es) < INT_MAX" and m: "msg_ready w m"
    and reg: "ms_type m = MSG_TYPE_URC_REGISTER" "heap w (ms_data m) = Some (O_Reg r)"
  shows "\<exists>w' a es'. handle_msg I m w = ok w' \<and> msg_served I m es a es' w w'"
proof -
  have I: "complete I" using urc_inv_interface [OF inv] by simp
  have d: "ms_data m \<noteq> NULL" "ms_semaphore m \<noteq> NULL" "msg_out w m \<noteq> NULL" "ms_free_fn m = Some Msg_Free"
    and p: "0 \<in> set (ue_prefix (rg_entry r))" and y: "\<exists>i. heap w (msg_out w m) = Some (O_Int i)"
    using m reg by (auto simp: msg_ready_def)
  from urc_register_ok [OF inv p room] obtain i v c where v:
    "urc_register I (Some (rg_entry r)) w = ok (i, v)" "trace v = trace w" "keeps {} w v"
    "ctx v = (ctx w)\<lparr>urc_next_id := c\<rparr>"
    "if i = -1 then urc_inv I v es
     else 1 \<le> i \<and> i \<le> INT_MAX \<and> i \<notin> ids es \<and>
       (\<exists>a. heap w a = None \<and> urc_inv I v (es @ [(a, (rg_entry r)\<lparr>ue_id := Some i\<rparr>)]))" by blast
  note k = urc_register_keeps [OF v(3)]
  have o: "msg_out w m = rg_out_id r" "msg_request w m = Register (rg_entry r)"
    using reg(2) by (simp_all add: msg_out_def msg_request_def)
  obtain es' where es': "urc_inv I v es'" "serves es (msg_request w m) (Assigned i) es'"
    unfolding o using v(5) refused registered by (metis (no_types, lifting))
  have h: "heap v (ms_data m) = Some (O_Reg r)" "\<exists>i. heap v (msg_out w m) = Some (O_Int i)"
    using ext_keptD [OF k reg(2)] ext_keptD [OF k] y by auto
  from finish_served [OF I m es' k v(2,4)] obtain w' where
    "rbind (ok (put (msg_out w m) (O_Int i) v)) (\<lambda>w.
       rbind (if ms_semaphore m \<noteq> NULL then os_sem_give I (ms_semaphore m) w else ok w) (\<lambda>w.
       if ms_data m \<noteq> NULL then msg_free I (ms_data m) w else ok w)) = ok w'" and served: "msg_served I m es (Assigned i) es' w w'"
    by (auto simp: answer_obj_def)
  then have "handle_msg I m w = ok w'" using v(1) reg h d o by (auto simp: handle_msg_def I)
  with served show ?thesis by blast
qed

lemma handle_unregister:
  assumes inv: "urc_inv I w es" and m: "msg_ready w m"
    and unreg: "ms_type m = MSG_TYPE_URC_UNREGISTER" "heap w (ms_data m) = Some (O_Unreg u)"
  shows "\<exists>w' a es'. handle_msg I m w = ok w' \<and> msg_served I m es a es' w w'"
proof -
  have I: "complete I" using urc_inv_interface [OF inv] by simp
  have d: "ms_data m \<noteq> NULL" "ms_semaphore m \<noteq> NULL" "msg_out w m \<noteq> NULL" "ms_free_fn m = Some Msg_Free"
    and y: "\<exists>r. heap w (msg_out w m) = Some (O_Result r)"
    using m unreg by (auto simp: msg_ready_def)
  from urc_unregister_ok [OF inv, of "un_id u"] obtain r v where v:
    "urc_unregister I (un_id u) w = ok (r, v)" "ctx v = ctx w" "trace v = trace w" "urc_inv I v (drop_id (un_id u) es)"
    "keeps (fst ` set es) w v" "if un_id u \<in> ids es then r = ATC_SUCCESS else r = ATC_ERROR \<and> v = w"
    by (metis (no_types, lifting))
  note k = urc_unregister_keeps [OF inv v(5)]
  have o: "msg_out w m = un_out_result u" "msg_request w m = Unregister (un_id u)"
    using unreg(2) by (simp_all add: msg_out_def msg_request_def)
  obtain es' where es': "urc_inv I v es'" "serves es (msg_request w m) (Outcome r) es'"
    unfolding o using v(4,6) inv removed absent by (metis (no_types, lifting))
  have h: "heap v (ms_data m) = Some (O_Unreg u)" "\<exists>r. heap v (msg_out w m) = Some (O_Result r)"
    using ext_keptD [OF k unreg(2)] ext_keptD [OF k] y by auto
  have "ctx v = (ctx w)\<lparr>urc_next_id := urc_next_id (ctx w)\<rparr>" using v(2) by simp
  from finish_served [OF I m es' k v(3) this] obtain w' where
    "rbind (ok (put (msg_out w m) (O_Result r) v)) (\<lambda>w.
       rbind (if ms_semaphore m \<noteq> NULL then os_sem_give I (ms_semaphore m) w else ok w) (\<lambda>w.
       if ms_data m \<noteq> NULL then msg_free I (ms_data m) w else ok w)) = ok w'" and served: "msg_served I m es (Outcome r) es' w w'"
    by (auto simp: answer_obj_def)
  then have "handle_msg I m w = ok w'" using v(1) unreg h d o by (auto simp: handle_msg_def I)
  with served show ?thesis by blast
qed

lemma handle_msg_ok:
  assumes inv: "urc_inv I w es" and room: "int (length es) < INT_MAX" and m: "msg_ready w m"
  shows "\<exists>w' a es'. handle_msg I m w = ok w' \<and> msg_served I m es a es' w w'"
proof -
  from m consider r where "ms_type m = MSG_TYPE_URC_REGISTER" "heap w (ms_data m) = Some (O_Reg r)"
    | u where "ms_type m = MSG_TYPE_URC_UNREGISTER" "heap w (ms_data m) = Some (O_Unreg u)"
    by (auto simp: msg_ready_def)
  then show ?thesis using handle_register [OF inv room m] handle_unregister [OF inv m] by cases
qed

section \<open>The queues while a message is handled\<close>

lemma slist_new_node_os [within_os]: "os_keeps R I \<Longrightarrow> R s (os w) \<Longrightarrow> withinp R s (slist_new_node I d w)"
  unfolding slist_new_node_def by (rule within_os | assumption | simp)+

lemma slist_append_os [within_os]: "os_keeps R I \<Longrightarrow> R s (os w) \<Longrightarrow> withinp R s (slist_append I list d w)"
  unfolding slist_append_def by (rule within_os | assumption | simp)+

lemma run_free_fn_os [within_os]: "os_keeps R I \<Longrightarrow> R s (os w) \<Longrightarrow> within R s (run_free_fn I f d w)"
  by (cases f) (auto simp: run_free_fn_def urc_free_def intro: within_free within_intros(1))

lemma free_data_os [within_os]: "os_keeps R I \<Longrightarrow> R s (os w) \<Longrightarrow> within R s (free_data I list d w)"
  unfolding free_data_def by (rule within_os | assumption | simp)+

lemma slist_unlink_os [within_os]: "os_keeps R I \<Longrightarrow> R s (os w) \<Longrightarrow> withinp R s (slist_unlink I list prv cur w)"
  unfolding slist_unlink_def Let_def by (rule within_os | assumption | simp)+

lemma slist_remove_loop_os [within_os]: "os_keeps R I \<Longrightarrow> R s (os w) \<Longrightarrow> withinp R s (slist_remove_loop I list d prv cur w)"
proof -
  have "slist_remove_loop J list d prv cur w = Some y \<Longrightarrow> os_keeps R J \<longrightarrow> R s (os w) \<longrightarrow> withinp R s (Some y)"
    for J list d prv cur w y
  proof (induction rule: slist_remove_loop.raw_induct [rotated 1, consumes 1, case_names step])
    case (step loop J list d prv cur w y)
    have rec: "withinp R s (loop J list d p c w)" if "os_keeps R J" "R s (os w)" for p c
      using step(1) that by (cases "loop J list d p c w") (auto simp: withinp_def)
    have "withinp R s (if cur = NULL then ok (-1, w)
      else rbind (get_node cur w) (\<lambda>n.
        if nd_data n = d then slist_unlink J list prv cur w else loop J list d cur (nd_next n) w))"
      if "os_keeps R J" "R s (os w)"
      by (rule rec within_os | rule that | simp add: that)+
    then show ?case using step(2) by simp
  qed
  then show "os_keeps R I \<Longrightarrow> R s (os w) \<Longrightarrow> withinp R s (slist_remove_loop I list d prv cur w)"
    by (cases "slist_remove_loop I list d prv cur w") (auto simp: withinp_def)
qed

lemma slist_remove_os [within_os]: "os_keeps R I \<Longrightarrow> R s (os w) \<Longrightarrow> withinp R s (slist_remove I list d w)"
  unfolding slist_remove_def by (rule within_os | assumption | simp)+

lemma urc_register_os [within_os]: "os_keeps R I \<Longrightarrow> R s (os w) \<Longrightarrow> withinp R s (urc_register I e w)"
  unfolding urc_register_def Let_def
  by (cases e) (simp_all only: option.case, (rule within_os | assumption | simp)+)

lemma urc_unregister_loop_os [within_os]: "os_keeps R I \<Longrightarrow> R s (os w) \<Longrightarrow> withinp R s (urc_unregister_loop I node i w)"
proof -
  have "urc_unregister_loop J node i w = Some y \<Longrightarrow> os_keeps R J \<longrightarrow> R s (os w) \<longrightarrow> withinp R s (Some y)"
    for J node i w y
  proof (induction rule: urc_unregister_loop.raw_induct [rotated 1, consumes 1, case_names step])
    case (step loop J node i w y)
    have rec: "withinp R s (loop J n i w)" if "os_keeps R J" "R s (os w)" for n
      using step(1) that by (cases "loop J n i w") (auto simp: withinp_def)
    have "withinp R s (if node = NULL then after (LOG_WARN J ''URC handler with id %d not found'' [Log_Int i]) (ok (ATC_ERROR, w))
      else rbind (get_node node w) (\<lambda>n.
        if nd_data n = NULL then loop J (nd_next n) i w
        else rbind (get_entry (nd_data n) w) (\<lambda>entry.
             rbind (the_init (ue_id entry)) (\<lambda>j.
             if j = i
             then rbind (slist_remove J (urc_handler_list (ctx w)) (nd_data n) w) (\<lambda>(r, w).
                  after (LOG_DEBUG J ''Unregistered URC handler id:%d'' [Log_Int i]) (ok (ATC_SUCCESS, w)))
             else loop J (nd_next n) i w))))"
      if "os_keeps R J" "R s (os w)"
      by (rule rec within_os | rule that | simp add: that)+
    then show ?case using step(2) by simp
  qed
  then show "os_keeps R I \<Longrightarrow> R s (os w) \<Longrightarrow> withinp R s (urc_unregister_loop I node i w)"
    by (cases "urc_unregister_loop I node i w") (auto simp: withinp_def)
qed

lemma urc_unregister_os [within_os]: "os_keeps R I \<Longrightarrow> R s (os w) \<Longrightarrow> withinp R s (urc_unregister I i w)"
  unfolding urc_unregister_def Let_def by (rule within_os | assumption | simp)+

lemma handle_msg_os [within_os]: "os_keeps R I \<Longrightarrow> R s (os w) \<Longrightarrow> within R s (handle_msg I m w)"
proof -
  assume a: "os_keeps R I" "R s (os w)"
  have "ms_free_fn m = None \<or> ms_free_fn m = Some Msg_Free" by (metis msg_free_fn.exhaust option.exhaust)
  then show ?thesis
    unfolding handle_msg_def msg_free_def
    by (elim disjE; cases "ms_type m"; simp only: msg_type.case option.case msg_free_fn.case)
      ((rule within_os | rule a | assumption | simp)+)
qed

section \<open>The loop\<close>

definition msgs_ok :: "'os world \<Rightarrow> msg list \<Rightarrow> bool" where
  "msgs_ok w ms \<longleftrightarrow> (\<forall>m \<in> set ms. msg_ready w m) \<and> distinct (map ms_data ms) \<and> distinct (map (msg_out w) ms)"

text \<open>Serving one message leaves the others as they are.\<close>

lemma msg_kept:
  assumes m: "msg_ready w m" and k: "ext_kept A w w'" and A: "ms_data m \<notin> A" "msg_out w m \<notin> A"
  shows "msg_ready w' m" "msg_out w' m = msg_out w m" "msg_request w' m = msg_request w m"
proof -
  from m obtain x where x: "heap w (ms_data m) = Some x" "\<not> is_table x" by (auto simp: msg_ready_def)
  have d: "heap w' (ms_data m) = heap w (ms_data m)" using ext_keptD [OF k x(1) A(1) x(2)] x(1) by simp
  from m obtain y where y: "heap w (msg_out w m) = Some y" "\<not> is_table y" by (auto simp: msg_ready_def)
  have o: "heap w' (msg_out w m) = heap w (msg_out w m)" using ext_keptD [OF k y(1) A(2) y(2)] y(1) by simp
  show "msg_out w' m = msg_out w m" "msg_request w' m = msg_request w m"
    using d by (simp_all add: msg_out_def msg_request_def)
  then show "msg_ready w' m" using m d o by (simp add: msg_ready_def)
qed

lemma msg_ready_kinds:
  assumes "msg_ready w m"
  shows "\<exists>x. heap w (ms_data m) = Some x \<and> \<not> is_table x \<and> \<not> is_caller x"
    and "\<exists>x. heap w (msg_out w m) = Some x \<and> \<not> is_table x \<and> is_caller x"
  using assms by (auto simp: msg_ready_def)

lemma data_not_out: "msg_ready w m \<Longrightarrow> msg_ready w n \<Longrightarrow> ms_data m \<noteq> msg_out w n"
  using msg_ready_kinds by (metis option.inject)

lemma answer_caller [simp]: "is_caller (answer_obj a)" "\<not> is_table (answer_obj a)"
  by (simp_all add: answer_obj_def split: answer.split)

text \<open>The end state: every sender has its answer and is woken, in the order of the queue.\<close>

definition all_served ::
  "'os atc_interface \<Rightarrow> msg list \<Rightarrow> urc_table \<Rightarrow> urc_table \<Rightarrow> 'os world \<Rightarrow> 'os world \<Rightarrow> bool" where
  "all_served I ms es es' w w' \<longleftrightarrow> urc_inv I w' es' \<and>
     (\<exists>as. serves_all es (map (msg_request w) ms) as es' \<and>
        list_all2 (\<lambda>m a. heap w' (msg_out w m) = Some (answer_obj a)) ms as) \<and>
     ext_kept (ms_data ` set ms \<union> msg_out w ` set ms) w w' \<and>
     trace w' = trace w @ map (\<lambda>m. Ev_Give (ms_semaphore m)) ms \<and> (\<exists>i. ctx w' = (ctx w)\<lparr>urc_next_id := i\<rparr>)"

lemma all_served_Cons:
  assumes ready: "msgs_ok w (m # ms)" and inv: "urc_inv I v es1"
    and one: "serves es (msg_request w m) a es1" "heap v (msg_out w m) = Some (answer_obj a)"
      "ext_kept {ms_data m, msg_out w m} w v" "trace v = trace w @ [Ev_Give (ms_semaphore m)]"
      "\<exists>i. ctx v = (ctx w)\<lparr>urc_next_id := i\<rparr>"
    and rest: "all_served I ms es1 es' v w'"
  shows "all_served I (m # ms) es es' w w'"
proof -
  have m: "msg_ready w m" and ms: "\<forall>n \<in> set ms. msg_ready w n" and d: "ms_data m \<notin> ms_data ` set ms"
      "msg_out w m \<notin> msg_out w ` set ms"
    using ready by (auto simp: msgs_ok_def)
  have same: "msg_out v n = msg_out w n" "msg_request v n = msg_request w n" if n: "n \<in> set ms" for n
  proof -
    have "ms_data n \<noteq> ms_data m" "msg_out w n \<noteq> msg_out w m" using n d by (auto simp: image_iff)
    then show "msg_out v n = msg_out w n" "msg_request v n = msg_request w n"
      using msg_kept [OF _ one(3), of n] data_not_out [OF m, of n] data_not_out [of w n m] m ms n by auto
  qed
  then have eq: "map (msg_request v) ms = map (msg_request w) ms" "msg_out v ` set ms = msg_out w ` set ms"
    by (auto intro: map_cong image_cong)
  from rest obtain as where as: "serves_all es1 (map (msg_request w) ms) as es'"
      "list_all2 (\<lambda>m a. heap w' (msg_out v m) = Some (answer_obj a)) ms as"
    unfolding all_served_def eq by blast
  have "list_all2 (\<lambda>m a. heap w' (msg_out w m) = Some (answer_obj a)) ms as"
    by (rule list.rel_mono_strong [OF as(2)]) (simp add: same(1))
  moreover have "heap w' (msg_out w m) = Some (answer_obj a)"
  proof (rule ext_keptD [of "ms_data ` set ms \<union> msg_out w ` set ms" v])
    show "ext_kept (ms_data ` set ms \<union> msg_out w ` set ms) v w'" using rest eq(2) by (simp add: all_served_def)
    show "msg_out w m \<notin> ms_data ` set ms \<union> msg_out w ` set ms" using d(2) data_not_out m ms by fastforce
  qed (use one(2) in simp_all)
  moreover have "ext_kept (ms_data ` set (m # ms) \<union> msg_out w ` set (m # ms)) w w'"
    by (rule ext_kept_mono [OF ext_kept_trans [OF one(3)]]) (use rest eq(2) in \<open>auto simp: all_served_def\<close>)
  moreover have "\<exists>i. ctx w' = (ctx w)\<lparr>urc_next_id := i\<rparr>" using one(5) rest by (auto simp: all_served_def)
  ultimately show ?thesis using as(1) one(1,4) rest more
    unfolding all_served_def by (intro conjI) (auto intro: serves_all.more)
qed

text \<open>The messages that wait keep their memory while one is served.\<close>

lemma msgs_ok_rest:
  assumes ms: "msgs_ok w (m # ms)" and k: "ext_kept {ms_data m, msg_out w m} w v"
  shows "msgs_ok v ms"
proof -
  have ready: "msg_ready v n \<and> msg_out v n = msg_out w n" if n: "n \<in> set ms" for n
  proof -
    have r: "msg_ready w n" "msg_ready w m" "ms_data n \<noteq> ms_data m" "msg_out w n \<noteq> msg_out w m"
      using ms n by (auto simp: msgs_ok_def image_iff)
    then have "ms_data n \<notin> {ms_data m, msg_out w m}" "msg_out w n \<notin> {ms_data m, msg_out w m}"
      using data_not_out [of w m n] data_not_out [of w n m] by auto
    then show ?thesis using msg_kept [OF r(1) k] by simp
  qed
  then have "map (msg_out v) ms = map (msg_out w) ms" by simp
  then show ?thesis using ms ready by (simp add: msgs_ok_def del: map_eq_conv)
qed

lemma extern_loop:
  assumes "urc_inv I w es" and Q: "queue_contract I Q" and "Q (external_api_queue (ctx w)) (os w) = map Q_Msg ms"
    and "msgs_ok w ms" and "int (length es) + int (length ms) < INT_MAX"
  shows "\<exists>w' es'. extern_msg_handle I w = ok w' \<and> all_served I ms es es' w w' \<and>
    (\<forall>q. Q q (os w') = (if q = external_api_queue (ctx w) then [] else Q q (os w)))"
  using assms(1,3-)
proof (induction ms arbitrary: w es)
  case Nil
  have I: "complete I" using urc_inv_interface [OF Nil.prems(1)] by simp
  obtain s where "os_queue_recv I (external_api_queue (ctx w)) 0 w = ok (None, w\<lparr>os := s\<rparr>)"
      "\<forall>q. Q q s = (if q = external_api_queue (ctx w) then [] else Q q (os w))"
    using queue_recv_law [OF I Q, of "external_api_queue (ctx w)" 0 w] Nil.prems(2) by auto
  moreover have "urc_inv I (w\<lparr>os := s\<rparr>) es" by (rule urc_inv_stable [OF Nil.prems(1)]) (simp_all add: links_kept_def)
  moreover have "\<exists>i. ctx w = (ctx w)\<lparr>urc_next_id := i\<rparr>" by (intro exI [of _ "urc_next_id (ctx w)"]) simp
  ultimately show ?case
    by (intro exI [of _ "w\<lparr>os := s\<rparr>"] exI [of _ es])
      (auto simp: extern_msg_handle.simps all_served_def ext_kept_def intro: serves_all.none)
next
  case (Cons m ms)
  have I: "complete I" using urc_inv_interface [OF Cons.prems(1)] by simp
  obtain s where s: "os_queue_recv I (external_api_queue (ctx w)) 0 w = ok (Some (Q_Msg m), w\<lparr>os := s\<rparr>)"
      "\<forall>q. Q q s = (if q = external_api_queue (ctx w) then map Q_Msg ms else Q q (os w))"
    using queue_recv_law [OF I Q, of "external_api_queue (ctx w)" 0 w] Cons.prems(2) by auto
  let ?u = "w\<lparr>os := s\<rparr>"
  have u: "urc_inv I ?u es" by (rule urc_inv_stable [OF Cons.prems(1)]) (simp_all add: links_kept_def)
  have eq: "msg_out ?u n = msg_out w n" "msg_request ?u n = msg_request w n" "msg_ready ?u n = msg_ready w n" for n
    by (simp_all add: msg_out_def msg_request_def msg_ready_def)
  have m: "msg_ready ?u m" using Cons.prems(3) eq(3) by (simp add: msgs_ok_def)
  have room: "int (length es) < INT_MAX" using Cons.prems(4) by simp
  from handle_msg_ok [OF u room m] obtain v a es1 where v: "handle_msg I m ?u = ok v" "urc_inv I v es1"
      "serves es (msg_request w m) a es1" "heap v (msg_out w m) = Some (answer_obj a)"
      "ext_kept {ms_data m, msg_out w m} w v" "trace v = trace w @ [Ev_Give (ms_semaphore m)]"
      "\<exists>i. ctx v = (ctx w)\<lparr>urc_next_id := i\<rparr>"
    unfolding msg_served_def eq by (auto simp: ext_kept_def)
  have "within (same_queues Q) (os ?u) (handle_msg I m ?u)"
    by (rule handle_msg_os [OF queue_contract_keeps [OF Q]]) (simp add: same_queues_def)
  then have q: "\<forall>q. Q q (os v) = Q q s" using v(1) by (simp add: within_def same_queues_def)
  have ms: "msgs_ok v ms" by (rule msgs_ok_rest [OF Cons.prems(3) v(5)])
  have c: "external_api_queue (ctx v) = external_api_queue (ctx w)" using v(7) by auto
  have "int (length es1) + int (length ms) < INT_MAX" using serves_length [OF v(3)] Cons.prems(4) by simp
  from Cons.IH [OF v(2) _ ms this] q s(2) c obtain w' es' where w': "extern_msg_handle I v = ok w'"
      "all_served I ms es1 es' v w'" "\<forall>q. Q q (os w') = (if q = external_api_queue (ctx w) then [] else Q q (os v))" by auto
  have "extern_msg_handle I w = ok w'" using s(1) v(1) w'(1) by (simp add: extern_msg_handle.simps)
  moreover have "all_served I (m # ms) es es' w w'" by (rule all_served_Cons [OF Cons.prems(3) v(2-7) w'(2)])
  ultimately show ?case using w'(3) q s(2) by (intro exI [of _ w'] exI [of _ es']) simp
qed

section \<open>Properties\<close>

text \<open>An idle event loop with a registration for \<open>+\<close> and the removal of 2 in the external queue 6.\<close>

definition demo_msgs :: "msg list" where
  "demo_msgs = [\<lparr>ms_type = MSG_TYPE_URC_REGISTER, ms_data = 70, ms_free_fn = Some Msg_Free, ms_semaphore = 81\<rparr>,
     \<lparr>ms_type = MSG_TYPE_URC_UNREGISTER, ms_data = 72, ms_free_fn = Some Msg_Free, ms_semaphore = 82\<rparr>]"

definition demo_extern :: "platform world" where
  "demo_extern = (let w = demo_idle [] in
     w\<lparr>heap := (heap w)(70 \<mapsto> O_Reg \<lparr>rg_entry = \<lparr>ue_id = None, ue_prefix = [43, 0], ue_handler = 8\<rparr>, rg_out_id = 71\<rparr>,
           71 \<mapsto> O_Int (-1), 72 \<mapsto> O_Unreg \<lparr>un_id = 2, un_out_result = 73\<rparr>, 73 \<mapsto> O_Result ATC_ERROR),
         os := (os w)\<lparr>pl_queues := (\<lambda>q. if q = 6 then map Q_Msg demo_msgs else [])\<rparr>\<rparr>)"

lemma demo_extern_inv: "urc_inv platform_interface demo_extern demo_table"
proof -
  let ?w = "demo_idle []"
  have free: "heap ?w p = None" if "p \<in> {70, 71, 72, 73}" for p
    using that by (auto simp: demo_idle_def Let_def demo_rx_prompt_def demo_urc_world_def demo_list_world_def)
  have "kept is_table ?w demo_extern" using free unfolding kept_def demo_extern_def by (auto simp: Let_def)
  then show ?thesis
    by (rule kept_table_inv [rotated]) (use demo_idle_inv [of "[]"] in \<open>simp_all add: rx_inv_def demo_extern_def Let_def\<close>)
qed

lemma demo_extern_msgs: "msgs_ok demo_extern demo_msgs" "pl_queues (os demo_extern) 6 = map Q_Msg demo_msgs"
  "external_api_queue (ctx demo_extern) = 6" "trace demo_extern = []"
  by (simp_all add: msgs_ok_def demo_msgs_def msg_ready_def msg_out_def demo_extern_def Let_def)

text \<open>
  C12: The external queue is served to its end, in order: each request is answered as the
  table then stands, the answer is in the sender's variable when the loop ends, and each
  sender is woken exactly once; no other object outside the table changes.
\<close>

theorem extern_msgs_served:
  assumes "urc_inv I w es" and "queue_contract I Q" and "Q (external_api_queue (ctx w)) (os w) = map Q_Msg ms"
    and "msgs_ok w ms" and "int (length es) + int (length ms) < INT_MAX"
  shows "\<exists>w' es' as. extern_msg_handle I w = ok w' \<and> urc_inv I w' es' \<and>
    serves_all es (map (msg_request w) ms) as es' \<and>
    list_all2 (\<lambda>m a. heap w' (msg_out w m) = Some (answer_obj a)) ms as \<and>
    trace w' = trace w @ map (\<lambda>m. Ev_Give (ms_semaphore m)) ms \<and>
    ext_kept (ms_data ` set ms \<union> msg_out w ` set ms) w w' \<and>
    (\<forall>q. Q q (os w') = (if q = external_api_queue (ctx w) then [] else Q q (os w)))"
  using extern_loop [OF assms] unfolding all_served_def by blast

theorem extern_msgs_served_witness:
  "\<exists>w' i. extern_msg_handle platform_interface demo_extern = ok w' \<and> trace w' = [Ev_Give 81, Ev_Give 82] \<and>
     heap w' 71 = Some (O_Int i) \<and> heap w' 73 = Some (O_Result ATC_SUCCESS)"
proof -
  have out: "map (msg_out demo_extern) demo_msgs = [71, 73]"
      "map (msg_request demo_extern) demo_msgs = [Register \<lparr>ue_id = None, ue_prefix = [43, 0], ue_handler = 8\<rparr>, Unregister 2]"
    by (simp_all add: demo_msgs_def msg_out_def msg_request_def demo_extern_def Let_def)
  have "2 \<in> ids demo_table" by (simp add: demo_table_def ids_def demo_entry_def)
  then show ?thesis
    using extern_msgs_served [OF demo_extern_inv platform_queues, of demo_msgs] demo_extern_msgs out
    by (auto simp: demo_msgs_def demo_table_def INT_MAX_def list_all2_Cons1 serves_register serves_unregister
        answer_obj_def ids_def)
qed

end
