(* ===== verification/Extern_Api.thy ===== *)
theory Extern_Api
  imports Extern_Msg
begin

text \<open>
  The calls of \<open>extern_msg_handle.c\<close> from their entry to their return: what a thread that
  registers or removes a URC handler gets, when the event loop serves the external queue
  while the thread is blocked.
\<close>

section \<open>A call from its entry to its return\<close>

text \<open>
  The part the two calls share, once the message is in the heap: a semaphore is created, the
  message queued, the event loop woken, and the answer read when the caller wakes up.
\<close>

definition post_msg ::
  "'os atc_interface \<Rightarrow> ('os world \<Rightarrow> 'os world res) \<Rightarrow> msg_type \<Rightarrow> addr \<Rightarrow> (obj \<Rightarrow> 'a option) \<Rightarrow> addr \<Rightarrow> 'a \<Rightarrow>
   'os world \<Rightarrow> ('a \<times> 'os world) res" where
  "post_msg I others ty data sel out failure w =
     rbind (os_sem_create I w) (\<lambda>(sem, w).
     if sem = NULL then rbind (os_free I data w) (\<lambda>w. ok (failure, w))
     else rbind (os_queue_send I (external_api_queue (ctx w))
         (Q_Msg \<lparr>ms_type = ty, ms_data = data, ms_free_fn = Some Msg_Free, ms_semaphore = sem\<rparr>) 1000 w) (\<lambda>(ret, w).
       if ret \<noteq> 0
       then rbind (os_free I data w) (\<lambda>w. rbind (os_sem_delete I sem w) (\<lambda>w. ok (failure, w)))
       else
         rbind (os_sem_give I (wake_semaphore (ctx w)) w) (\<lambda>w.
         rbind (others w) (\<lambda>w.
         rbind (os_sem_take I sem ATC_TIMEOUT_MAX w) (\<lambda>(r, w).
         rbind (os_sem_delete I sem w) (\<lambda>w.
         rbind (load sel out w) (\<lambda>x. ok (x, w))))))))"

text \<open>What is left of the call when the other threads have run.\<close>

definition answered :: "'os atc_interface \<Rightarrow> addr \<Rightarrow> (obj \<Rightarrow> 'a option) \<Rightarrow> addr \<Rightarrow> 'os world \<Rightarrow> ('a \<times> 'os world) res" where
  "answered I sem sel out w =
     rbind (os_sem_take I sem ATC_TIMEOUT_MAX w) (\<lambda>(r, w).
     rbind (os_sem_delete I sem w) (\<lambda>w.
     rbind (load sel out w) (\<lambda>x. ok (x, w))))"

text \<open>What other threads do is visible only in their semaphores.\<close>

fun thread_event :: "event \<Rightarrow> bool" where
  "thread_event (Ev_Give p) = True"
| "thread_event (Ev_Take p n) = True"
| "thread_event (Ev_Delete p) = True"
| "thread_event _ = False"

definition threads_emit :: "'os world \<Rightarrow> 'os world \<Rightarrow> bool" where
  "threads_emit w w' \<longleftrightarrow> (\<exists>es. trace w' = trace w @ es \<and> list_all thread_event es)"

lemma threads_emit_same: "trace w' = trace w \<Longrightarrow> threads_emit w w'"
  by (simp add: threads_emit_def)

lemma threads_emit_simps [simp]:
  "threads_emit w w" "threads_emit w (v\<lparr>heap := h\<rparr>) = threads_emit w v" "threads_emit w (v\<lparr>os := s\<rparr>) = threads_emit w v"
  "threads_emit w (put p x v) = threads_emit w v"
  by (simp_all add: threads_emit_def)

lemma threads_emit_emit [simp]: "thread_event e \<Longrightarrow> threads_emit w v \<Longrightarrow> threads_emit w (emit e v)"
  unfolding threads_emit_def by (elim exE) (rule_tac x = "es @ [e]" in exI, simp)

text \<open>The call gives up, or its message is queued and it waits.\<close>

lemma post_msg_steps:
  assumes I: "complete I" and Q: "queue_contract I Q" and x: "heap w data = Some x"
  shows "(\<exists>w'. post_msg I others ty data sel out failure w = ok (failure, w') \<and> heap w' = (heap w)(data := None) \<and>
       ctx w' = ctx w \<and> same_queues Q (os w) (os w') \<and> threads_emit w w') \<or>
    (\<exists>sem v. sem \<noteq> NULL \<and> heap v = heap w \<and> ctx v = ctx w \<and> threads_emit w v \<and>
       (\<forall>q. Q q (os v) = Q q (os w) @ (if q = external_api_queue (ctx w)
          then [Q_Msg \<lparr>ms_type = ty, ms_data = data, ms_free_fn = Some Msg_Free, ms_semaphore = sem\<rparr>] else [])) \<and>
       post_msg I others ty data sel out failure w = rbind (others v) (answered I sem sel out))"
proof -
  note keep = queue_contract_keeps [OF Q]
  obtain sem s where s: "os_sem_create I w = ok (sem, w\<lparr>os := s\<rparr>)" "\<And>R. os_keeps R I \<Longrightarrow> R (os w) s"
    using sem_create_ok [OF I] by blast
  have freed: "\<exists>u. os_free I data (w\<lparr>os := t\<rparr>) = ok (w\<lparr>heap := (heap w)(data := None), os := u\<rparr>) \<and> same_queues Q t u" for t
  proof -
    obtain u where "os_free I data (w\<lparr>os := t\<rparr>) = ok ((w\<lparr>os := t\<rparr>)\<lparr>heap := (heap (w\<lparr>os := t\<rparr>))(data := None), os := u\<rparr>)"
        "\<And>R. os_keeps R I \<Longrightarrow> R (os (w\<lparr>os := t\<rparr>)) u"
      using free_ok [OF I, of "w\<lparr>os := t\<rparr>" data x] x by auto
    then show ?thesis using keep by auto
  qed
  show ?thesis
  proof (cases "sem = NULL")
    case True
    then show ?thesis using s freed [of s] queues_trans [OF s(2) [OF keep]] by (auto simp: post_msg_def)
  next
    case sem: False
    let ?m = "\<lparr>ms_type = ty, ms_data = data, ms_free_fn = Some Msg_Free, ms_semaphore = sem\<rparr>"
    obtain r t where t: "os_queue_send I (external_api_queue (ctx w)) (Q_Msg ?m) 1000 (w\<lparr>os := s\<rparr>) = ok (r, w\<lparr>os := t\<rparr>)"
        "\<forall>q. Q q t = (if r = 0 \<and> q = external_api_queue (ctx w) then Q (external_api_queue (ctx w)) s @ [Q_Msg ?m] else Q q s)"
      using queue_send_law [OF I Q, of "external_api_queue (ctx w)" "Q_Msg ?m" 1000 "w\<lparr>os := s\<rparr>"] by auto
    have qs: "same_queues Q (os w) s" using s(2) [OF keep] .
    show ?thesis
    proof (cases "r = 0")
      case False
      then have qt: "same_queues Q (os w) t" using t(2) qs by (simp add: same_queues_def)
      obtain u where u: "os_free I data (w\<lparr>os := t\<rparr>) = ok (w\<lparr>heap := (heap w)(data := None), os := u\<rparr>)" "same_queues Q t u"
        using freed by blast
      let ?v = "w\<lparr>heap := (heap w)(data := None), os := u\<rparr>"
      obtain z where z: "os_sem_delete I sem ?v = ok (emit (Ev_Delete sem) (?v\<lparr>os := z\<rparr>))" "\<And>R. os_keeps R I \<Longrightarrow> R (os ?v) z"
        using delete_ok [OF I] by blast
      have "same_queues Q (os w) z" using qt u(2) z(2) [OF keep] by (simp add: same_queues_def)
      then show ?thesis using sem False s(1) t(1) u(1) z(1) by (intro disjI1) (simp add: post_msg_def)
    next
      case True
      obtain g where g: "os_sem_give I (wake_semaphore (ctx w)) (w\<lparr>os := t\<rparr>) =
            ok (emit (Ev_Give (wake_semaphore (ctx w))) (w\<lparr>os := g\<rparr>))" "\<And>R. os_keeps R I \<Longrightarrow> R t g"
        using give_ok [OF I, of "wake_semaphore (ctx w)" "w\<lparr>os := t\<rparr>"] by auto
      have "\<forall>q. Q q g = Q q (os w) @ (if q = external_api_queue (ctx w) then [Q_Msg ?m] else [])"
        using g(2) [OF keep] t(2) True qs by (simp add: same_queues_def)
      then show ?thesis using sem True s(1) t(1) g(1)
        by (intro disjI2 exI [of _ sem] exI [of _ "emit (Ev_Give (wake_semaphore (ctx w))) (w\<lparr>os := g\<rparr>)"])
          (simp add: post_msg_def answered_def [abs_def])
    qed
  qed
qed

lemma post_msg_served:
  assumes inv: "urc_inv I w es" and Q: "queue_contract I Q" and q: "Q (external_api_queue (ctx w)) (os w) = []"
    and room: "int (length es) + 1 < INT_MAX"
    and m: "\<And>sem. sem \<noteq> NULL \<Longrightarrow> msg_ready w \<lparr>ms_type = ty, ms_data = data, ms_free_fn = Some Msg_Free, ms_semaphore = sem\<rparr>"
    and req: "\<And>sem. msg_request w \<lparr>ms_type = ty, ms_data = data, ms_free_fn = Some Msg_Free, ms_semaphore = sem\<rparr> = q1"
    and out: "\<And>sem. msg_out w \<lparr>ms_type = ty, ms_data = data, ms_free_fn = Some Msg_Free, ms_semaphore = sem\<rparr> = out"
    and sel: "\<And>a es'. serves es q1 a es' \<Longrightarrow> \<exists>x. sel (answer_obj a) = Some x"
  shows "\<exists>r w'. post_msg I (extern_msg_handle I) ty data sel out failure w = ok (r, w') \<and> same_queues Q (os w) (os w') \<and>
    ext_kept {data, out} w w' \<and> (\<exists>i. ctx w' = (ctx w)\<lparr>urc_next_id := i\<rparr>) \<and>
    (r = failure \<and> urc_inv I w' es \<and> heap w' out = heap w out \<or>
     (\<exists>a es'. serves es q1 a es' \<and> urc_inv I w' es' \<and> sel (answer_obj a) = Some r \<and> heap w' out = Some (answer_obj a)))"
proof -
  note keep = queue_contract_keeps [OF Q]
  have I: "complete I" using urc_inv_interface [OF inv] by simp
  have m1: "msg_ready w \<lparr>ms_type = ty, ms_data = data, ms_free_fn = Some Msg_Free, ms_semaphore = 1\<rparr>" using m by simp
  obtain x where x: "heap w data = Some x" "\<not> is_table x" "\<not> is_caller x" using msg_ready_kinds(1) [OF m1] by auto
  obtain y where y: "heap w out = Some y" "is_caller y" using msg_ready_kinds(2) [OF m1] out by auto
  have ne: "data \<noteq> NULL" "out \<noteq> NULL" "out \<noteq> data" using m1 out x y by (auto simp: msg_ready_def)
  from post_msg_steps [OF I Q x(1), of "extern_msg_handle I" ty sel out failure] show ?thesis
  proof (elim disjE exE conjE)
    fix w' assume w': "post_msg I (extern_msg_handle I) ty data sel out failure w = ok (failure, w')"
      "heap w' = (heap w)(data := None)" "ctx w' = ctx w" "same_queues Q (os w) (os w')"
    have "urc_inv I w' es" by (rule urc_inv_upd [OF inv w'(2) x(1,2)]) (use w'(3) in simp_all)
    moreover have "\<exists>i. ctx w' = (ctx w)\<lparr>urc_next_id := i\<rparr>" using w'(3) by (intro exI [of _ "urc_next_id (ctx w)"]) simp
    ultimately show ?thesis using w' ne by (intro exI [of _ failure] exI [of _ w']) (auto simp: ext_kept_def)
  next
    fix sem v
    let ?m = "\<lparr>ms_type = ty, ms_data = data, ms_free_fn = Some Msg_Free, ms_semaphore = sem\<rparr>"
    assume v: "sem \<noteq> NULL" "heap v = heap w" "ctx v = ctx w"
      "\<forall>q. Q q (os v) = Q q (os w) @ (if q = external_api_queue (ctx w) then [Q_Msg ?m] else [])"
      "post_msg I (extern_msg_handle I) ty data sel out failure w = rbind (extern_msg_handle I v) (answered I sem sel out)"
    have inv': "urc_inv I v es" by (rule urc_inv_stable [OF inv]) (simp_all add: v(2,3) links_kept_def)
    have mv: "msgs_ok v [?m]" using m [OF v(1)] v(2) by (simp add: msgs_ok_def msg_ready_def msg_out_def)
    have eqv: "msg_request v ?m = q1" "msg_out v ?m = out" using req out v(2) by (simp_all add: msg_request_def msg_out_def)
    from extern_loop [OF inv' Q _ mv] v(3,4) q room obtain w1 es' where w1: "extern_msg_handle I v = ok w1"
        "all_served I [?m] es es' v w1" "\<forall>q. Q q (os w1) = (if q = external_api_queue (ctx w) then [] else Q q (os v))" by auto
    from w1(2) obtain a where a: "serves es q1 a es'" "heap w1 out = Some (answer_obj a)" "urc_inv I w1 es'"
        "ext_kept {data, out} w w1" "\<exists>i. ctx w1 = (ctx w)\<lparr>urc_next_id := i\<rparr>"
      unfolding all_served_def eqv by (auto simp: eqv list_all2_Cons1 ext_kept_def v(2,3))
    obtain x1 where x1: "sel (answer_obj a) = Some x1" using sel [OF a(1)] by blast
    obtain r2 k where k: "os_sem_take I sem ATC_TIMEOUT_MAX w1 = ok (r2, emit (Ev_Take sem ATC_TIMEOUT_MAX) (w1\<lparr>os := k\<rparr>))"
      using os_sem_take_ok [OF I] by blast
    let ?w2 = "emit (Ev_Take sem ATC_TIMEOUT_MAX) (w1\<lparr>os := k\<rparr>)"
    obtain z where z: "os_sem_delete I sem ?w2 = ok (emit (Ev_Delete sem) (?w2\<lparr>os := z\<rparr>))" "\<And>R. os_keeps R I \<Longrightarrow> R (os ?w2) z"
      using delete_ok [OF I] by blast
    let ?w3 = "emit (Ev_Delete sem) (?w2\<lparr>os := z\<rparr>)"
    have "urc_inv I ?w3 es'" by (rule urc_inv_stable [OF a(3)]) (simp_all add: links_kept_def)
    moreover have "same_queues Q (os w) (os ?w3)"
      using os_sem_take_keeps [OF keep k] z(2) [OF keep] w1(3) v(4) q by (simp add: same_queues_def)
    moreover have "ext_kept {data, out} w ?w3" using a(4) by (simp add: ext_kept_def)
    moreover have "post_msg I (extern_msg_handle I) ty data sel out failure w = ok (x1, ?w3)"
      using v(5) w1(1) k z(1) ne(2) a(2) x1 by (simp add: answered_def)
    ultimately show ?thesis using a x1 by (intro exI [of _ x1] exI [of _ ?w3]) auto
  qed
qed

lemma put_put [simp]: "put a x (put a y w) = put a x w"
  by (simp add: put_def)

lemma urc_inv_fresh:
  assumes "urc_inv I w es" and "heap w' = (heap w)(p := x)" "heap w p = None"
    and "ctx w' = ctx w"
  shows "urc_inv I w' es"
  by (rule urc_inv_stable [OF assms(1)]) (use assms(2-4) in \<open>auto simp: links_kept_def\<close>)

text \<open>The return from a function with a local variable at \<open>out\<close>.\<close>

definition returned ::
  "(addr \<Rightarrow> 'os \<Rightarrow> qitem list) \<Rightarrow> addr \<Rightarrow> 'os world \<Rightarrow> 'os world \<Rightarrow> bool" where
  "returned Q out w w' \<longleftrightarrow> same_queues Q (os w) (os w') \<and> heap w' out = None \<and> ext_kept {} w w' \<and>
     (\<exists>i. ctx w' = (ctx w)\<lparr>urc_next_id := i\<rparr>)"

lemma with_local_ok:
  assumes out: "heap w out = None" and inv: "urc_inv I v es'"
    and body: "body (put out x w) = ok (r, v)"
    and v: "heap v out = Some y" "is_caller y" "same_queues Q (os w) (os v)" "ext_kept A (put out x w) v"
      "\<And>p. p \<in> A \<Longrightarrow> p = out \<or> heap w p = None" "\<exists>i. ctx v = (ctx w)\<lparr>urc_next_id := i\<rparr>"
  shows "\<exists>w'. with_local out x body w = ok (r, w') \<and> returned Q out w w' \<and> urc_inv I w' es'"
proof -
  let ?w = "v\<lparr>heap := (heap v)(out := None)\<rparr>"
  have "\<not> is_table y" using v(2) by (cases y) auto
  then have "urc_inv I ?w es'" by (intro urc_inv_upd [OF inv, of ?w out None y]) (use v(1) in auto)
  moreover have "ext_kept {} w ?w"
    using v(4,5) out unfolding ext_kept_def by (simp, metis option.distinct(1))
  ultimately show ?thesis using body v(3,6)
    by (intro exI [of _ ?w]) (simp add: with_local_def returned_def)
qed

text \<open>What is known when the body of such a function ends.\<close>

definition body_done ::
  "'os atc_interface \<Rightarrow> (addr \<Rightarrow> 'os \<Rightarrow> qitem list) \<Rightarrow> addr \<Rightarrow> obj \<Rightarrow> urc_table \<Rightarrow> 'os world \<Rightarrow> 'os world \<Rightarrow> bool" where
  "body_done I Q out x es' w v \<longleftrightarrow> urc_inv I v es' \<and> (\<exists>y. heap v out = Some y \<and> is_caller y) \<and>
     same_queues Q (os w) (os v) \<and> (\<exists>A. ext_kept A (put out x w) v \<and> (\<forall>p \<in> A. p = out \<or> heap w p = None)) \<and>
     (\<exists>i. ctx v = (ctx w)\<lparr>urc_next_id := i\<rparr>)"

lemma body_returns:
  assumes "heap w out = None" and "body (put out x w) = ok (r, v)" and "body_done I Q out x es' w v"
  shows "\<exists>w'. with_local out x body w = ok (r, w') \<and> returned Q out w w' \<and> urc_inv I w' es'"
  using assms(3) unfolding body_done_def
proof (elim conjE exE)
  fix y A i
  assume v: "urc_inv I v es'" "heap v out = Some y" "is_caller y" "same_queues Q (os w) (os v)"
    "ext_kept A (put out x w) v" "\<forall>p \<in> A. p = out \<or> heap w p = None" "ctx v = (ctx w)\<lparr>urc_next_id := i\<rparr>"
  show ?thesis
    by (rule with_local_ok [where body = body and Q = Q and A = A, OF assms(1) v(1) assms(2) v(2-5)])
      (use v(6) in simp, rule exI [of _ i], rule v(7))
qed

lemma body_done_early:
  assumes inv: "urc_inv I w es" and out: "heap w out = None" and x: "is_caller x"
    and v: "heap v = heap (put out x w)" "ctx v = ctx w" "same_queues Q (os w) (os v)"
  shows "body_done I Q out x es w v"
proof -
  have "urc_inv I v es" by (rule urc_inv_fresh [OF inv]) (use v out in simp_all)
  moreover have "ext_kept {} (put out x w) v" using v(1) by (simp add: ext_kept_def)
  moreover have "\<exists>i. ctx v = (ctx w)\<lparr>urc_next_id := i\<rparr>" using v(2) by (intro exI [of _ "urc_next_id (ctx w)"]) simp
  ultimately show ?thesis using v(1,3) x unfolding body_done_def by (intro conjI exI [of _ x] exI [of _ "{}"]) auto
qed

text \<open>The two calls, from the allocation of the message on.\<close>

lemma posted:
  assumes inv: "urc_inv I w es" and Q: "queue_contract I Q" and q: "Q (external_api_queue (ctx w)) (os w) = []"
    and room: "int (length es) + 1 < INT_MAX" and out: "out \<noteq> NULL" "heap w out = None" and x: "is_caller x"
    and a: "a \<noteq> NULL" "a \<noteq> out" "heap w a = None" and s: "same_queues Q (os w) s"
    and msg: "ty = MSG_TYPE_URC_REGISTER \<and> (\<exists>e i. ob = O_Reg \<lparr>rg_entry = e, rg_out_id = out\<rparr> \<and> 0 \<in> set (ue_prefix e) \<and>
        x = O_Int i \<and> q1 = Register e) \<or>
      ty = MSG_TYPE_URC_UNREGISTER \<and> (\<exists>i r. ob = O_Unreg \<lparr>un_id = i, un_out_result = out\<rparr> \<and> x = O_Result r \<and> q1 = Unregister i)"
    and sel: "\<And>b es'. serves es q1 b es' \<Longrightarrow> \<exists>x. sel (answer_obj b) = Some x"
  shows "\<exists>r v es'. post_msg I (extern_msg_handle I) ty a sel out failure (put a ob ((put out x w)\<lparr>os := s\<rparr>)) = ok (r, v) \<and>
    body_done I Q out x es' w v \<and>
    (r = failure \<and> es' = es \<or> (\<exists>b. serves es q1 b es' \<and> sel (answer_obj b) = Some r))"
proof -
  let ?v = "put a ob ((put out x w)\<lparr>os := s\<rparr>)"
  let ?m = "\<lambda>sem. \<lparr>ms_type = ty, ms_data = a, ms_free_fn = Some Msg_Free, ms_semaphore = sem\<rparr>"
  have "urc_inv I (put out x w) es" by (rule urc_inv_fresh [OF inv]) (use out in simp_all)
  then have iv: "urc_inv I ?v es" by (rule urc_inv_fresh [of _ _ _ _ a]) (use a in simp_all)
  have mk: "msg_out ?v (?m sem) = out" "msg_request ?v (?m sem) = q1" for sem
    using msg by (auto simp: msg_out_def msg_request_def)
  have rdy: "msg_ready ?v (?m sem)" if "sem \<noteq> NULL" for sem
    using msg that a out(1) mk by (auto simp: msg_ready_def)
  have qv: "Q (external_api_queue (ctx ?v)) (os ?v) = []" using q s by (simp add: same_queues_def)
  have "\<exists>r v. post_msg I (extern_msg_handle I) ty a sel out failure ?v = ok (r, v) \<and> same_queues Q (os ?v) (os v) \<and>
    ext_kept {a, out} ?v v \<and> (\<exists>i. ctx v = (ctx ?v)\<lparr>urc_next_id := i\<rparr>) \<and>
    (r = failure \<and> urc_inv I v es \<and> heap v out = heap ?v out \<or>
     (\<exists>b es'. serves es q1 b es' \<and> urc_inv I v es' \<and> sel (answer_obj b) = Some r \<and> heap v out = Some (answer_obj b)))"
    by (rule post_msg_served [OF iv Q qv room rdy mk(2,1)]) (auto intro: sel)
  then obtain r v where v: "post_msg I (extern_msg_handle I) ty a sel out failure ?v = ok (r, v)"
    "same_queues Q s (os v)" "ext_kept {a, out} ?v v" "\<exists>i. ctx v = (ctx w)\<lparr>urc_next_id := i\<rparr>"
    "r = failure \<and> urc_inv I v es \<and> heap v out = heap ?v out \<or>
      (\<exists>b es'. serves es q1 b es' \<and> urc_inv I v es' \<and> sel (answer_obj b) = Some r \<and> heap v out = Some (answer_obj b))"
    by auto
  have k: "ext_kept {a, out} (put out x w) v" "\<forall>p \<in> {a, out}. p = out \<or> heap w p = None"
    using v(3) a by (auto simp: ext_kept_def)
  have kq: "same_queues Q (os w) (os v)" by (rule queues_trans [OF s v(2)])
  have "\<exists>es' y. urc_inv I v es' \<and> heap v out = Some y \<and> is_caller y \<and>
      (r = failure \<and> es' = es \<or> (\<exists>b. serves es q1 b es' \<and> sel (answer_obj b) = Some r))"
    using v(5)
  proof (elim disjE exE conjE)
    assume "r = failure" "urc_inv I v es" "heap v out = heap ?v out"
    then show ?thesis using x a(2) by (intro exI [of _ es] exI [of _ x]) simp
  next
    fix b es' assume "serves es q1 b es'" "urc_inv I v es'" "sel (answer_obj b) = Some r" "heap v out = Some (answer_obj b)"
    then show ?thesis by (intro exI [of _ es'] exI [of _ "answer_obj b"]) auto
  qed
  then obtain es' y where "urc_inv I v es'" "heap v out = Some y" "is_caller y"
      "r = failure \<and> es' = es \<or> (\<exists>b. serves es q1 b es' \<and> sel (answer_obj b) = Some r)" by blast
  then show ?thesis using v(1,4) k kq unfolding body_done_def by blast
qed

definition register_body ::
  "'os atc_interface \<Rightarrow> ('os world \<Rightarrow> 'os world res) \<Rightarrow> u8 list \<Rightarrow> addr \<Rightarrow> addr \<Rightarrow> 'os world \<Rightarrow> (int \<times> 'os world) res" where
  "register_body I others p handler out w =
     (if length (cstr p) = 0 then ok (-1, w)
      else rbind (os_malloc I sizeof_urc_register_msg w) (\<lambda>(reg, w).
       if reg = NULL then ok (-1, w)
       else
         let entry = \<lparr>ue_id = None, ue_prefix = take 31 (cstr p) @ [0], ue_handler = NULL\<rparr>;
             w = put reg (O_Reg \<lparr>rg_entry = entry, rg_out_id = NULL\<rparr>) w in
         if 32 \<le> length (cstr p) then rbind (os_free I reg w) (\<lambda>w. ok (-1, w))
         else post_msg I others MSG_TYPE_URC_REGISTER reg sel_int out (-1)
           (put reg (O_Reg \<lparr>rg_entry = entry\<lparr>ue_handler := handler\<rparr>, rg_out_id = out\<rparr>) w)))"

lemma sems_there:
  "complete I \<Longrightarrow> (atc_semaphore_create_binary I = None \<or> atc_semaphore_give I = None \<or>
     atc_semaphore_take I = None \<or> atc_semaphore_delete I = None) = False"
  by (simp add: complete_def)

lemma register_unfold:
  assumes "complete I" "0 \<in> set p" "handler \<noteq> NULL"
  shows "atc_urc_register I others False (Some p) handler out w = with_local out (O_Int (-1)) (register_body I others p handler out) w"
proof -
  have "p \<noteq> []" "(p ! 0 = 0) = (cstr p = [])" using assms(2) by (cases p; simp add: cstr_def)+
  then show ?thesis
    using assms(1,3) c_strlen_cstr [OF assms(2)]
    unfolding atc_urc_register_def register_body_def [abs_def] post_msg_def [abs_def] prefix_size_def
      sems_there [OF assms(1)]
    by (simp add: Let_def cong: if_cong)
qed

text \<open>Inside \<open>atc_urc_register\<close>: it gives up with no change, or posts the entry it has built.\<close>

lemma register_body_cases:
  assumes I: "complete I" "malloc_fresh I" and Q: "queue_contract I Q"
  obtains (refused) v where "register_body I others p handler out w = ok (-1, v)" "heap v = heap w" "ctx v = ctx w"
      "trace v = trace w" "same_queues Q (os w) (os v)"
    | (posts) a s where "a \<noteq> NULL" "heap w a = None" "same_queues Q (os w) s" "1 \<le> length (cstr p)" "length (cstr p) \<le> 31"
      "register_body I others p handler out w = post_msg I others MSG_TYPE_URC_REGISTER a sel_int out (-1)
         (put a (O_Reg \<lparr>rg_entry = \<lparr>ue_id = None, ue_prefix = cstr p @ [0], ue_handler = handler\<rparr>, rg_out_id = out\<rparr>) (w\<lparr>os := s\<rparr>))"
proof (cases "length (cstr p) = 0")
  case True
  then show thesis using refused [of w] by (simp add: register_body_def same_queues_def)
next
  case n: False
  note keep = queue_contract_keeps [OF Q]
  show thesis
  proof (cases rule: os_malloc_cases [OF I, of sizeof_urc_register_msg w, case_names fails fresh])
    case (fails s)
    then show thesis using n os_malloc_keeps [OF keep fails] refused [of "w\<lparr>os := s\<rparr>"] by (simp add: register_body_def)
  next
    case (fresh a s)
    have ks: "same_queues Q (os w) s" using os_malloc_keeps [OF keep fresh(1)] by simp
    show thesis
    proof (cases "32 \<le> length (cstr p)")
      case True
      let ?v = "put a (O_Reg \<lparr>rg_entry = \<lparr>ue_id = None, ue_prefix = take 31 (cstr p) @ [0], ue_handler = NULL\<rparr>, rg_out_id = NULL\<rparr>) (w\<lparr>os := s\<rparr>)"
      obtain u where u: "os_free I a ?v = ok (?v\<lparr>heap := (heap ?v)(a := None), os := u\<rparr>)" "\<And>R. os_keeps R I \<Longrightarrow> R (os ?v) u"
        using free_ok [OF I(1), of ?v a] by auto
      have "(heap ?v)(a := None) = heap w" using fresh(3) by auto
      then show thesis using True n fresh(1,2) u(1) queues_trans [OF ks, of u] u(2) [OF keep]
          refused [of "?v\<lparr>heap := (heap ?v)(a := None), os := u\<rparr>"]
        by (simp add: register_body_def Let_def)
    next
      case False
      have "1 \<le> length (cstr p)" "length (cstr p) \<le> 31" using n False by linarith+
      then show thesis using posts [OF fresh(2,3) ks] n False fresh(1,2) by (simp add: register_body_def Let_def)
    qed
  qed
qed

lemma register_call:
  assumes inv: "urc_inv I w es" and Q: "queue_contract I Q" and q: "Q (external_api_queue (ctx w)) (os w) = []"
    and room: "int (length es) + 1 < INT_MAX" and out: "out \<noteq> NULL" "heap w out = None"
    and p: "0 \<in> set p" and h: "handler \<noteq> NULL"
  shows "\<exists>r w' es'. atc_urc_register I (extern_msg_handle I) False (Some p) handler out w = ok (r, w') \<and>
    returned Q out w w' \<and> urc_inv I w' es' \<and>
    (r = -1 \<and> es' = es \<or>
     1 \<le> length (cstr p) \<and> length (cstr p) \<le> 31 \<and>
     serves es (Register \<lparr>ue_id = None, ue_prefix = cstr p @ [0], ue_handler = handler\<rparr>) (Assigned r) es')"
proof -
  have I: "complete I" "malloc_fresh I" using urc_inv_interface [OF inv] by auto
  let ?x = "O_Int (-1)"
  let ?body = "register_body I (extern_msg_handle I) p handler out"
  let ?E = "\<lparr>ue_id = None, ue_prefix = cstr p @ [0], ue_handler = handler\<rparr>"
  have "\<exists>r v es'. ?body (put out ?x w) = ok (r, v) \<and> body_done I Q out ?x es' w v \<and> (r = -1 \<and> es' = es \<or>
      1 \<le> length (cstr p) \<and> length (cstr p) \<le> 31 \<and> serves es (Register ?E) (Assigned r) es')"
  proof (cases rule: register_body_cases [OF I Q, of "extern_msg_handle I" p handler out "put out ?x w", case_names refused posts])
    case (refused v)
    then show ?thesis using body_done_early [OF inv out(2), of ?x v Q] by auto
  next
    case (posts a s)
    have a: "a \<noteq> out" "heap w a = None" using posts(2) by (auto split: if_splits)
    have "\<exists>r v es'. ?body (put out ?x w) = ok (r, v) \<and>
        body_done I Q out ?x es' w v \<and> (r = -1 \<and> es' = es \<or> (\<exists>b. serves es (Register ?E) b es' \<and> sel_int (answer_obj b) = Some r))"
      unfolding posts(6) by (rule posted [OF inv Q q room out _ posts(1) a]) (use posts(3) in \<open>auto simp: serves_register answer_obj_def\<close>)
    moreover have "b = Assigned r" if "sel_int (answer_obj b) = Some r" for b r
      using that by (cases b) (auto simp: answer_obj_def)
    ultimately show ?thesis using posts(4,5) by metis
  qed
  then obtain r v es' where b: "?body (put out ?x w) = ok (r, v)" "body_done I Q out ?x es' w v" and
      r: "r = -1 \<and> es' = es \<or> 1 \<le> length (cstr p) \<and> length (cstr p) \<le> 31 \<and> serves es (Register ?E) (Assigned r) es'"
    by blast
  from body_returns [where body = ?body, OF out(2) b] r show ?thesis
    unfolding register_unfold [OF I(1) p h] by blast
qed

definition unregister_body ::
  "'os atc_interface \<Rightarrow> ('os world \<Rightarrow> 'os world res) \<Rightarrow> int \<Rightarrow> addr \<Rightarrow> 'os world \<Rightarrow> (atc_result \<times> 'os world) res" where
  "unregister_body I others i out w =
     rbind (os_malloc I sizeof_urc_unregister_msg w) (\<lambda>(unreg, w).
     if unreg = NULL then ok (ATC_ERROR, w)
     else post_msg I others MSG_TYPE_URC_UNREGISTER unreg sel_result out ATC_ERROR
       (put unreg (O_Unreg \<lparr>un_id = i, un_out_result = out\<rparr>) w))"

lemma unregister_unfold:
  assumes "complete I" "0 < i"
  shows "atc_urc_unregister I others False i out w = with_local out (O_Result ATC_ERROR) (unregister_body I others i out) w"
  using assms
  unfolding atc_urc_unregister_def unregister_body_def [abs_def] post_msg_def [abs_def] sems_there [OF assms(1)]
  by (simp add: Let_def cong: if_cong)

lemma unregister_call:
  assumes inv: "urc_inv I w es" and Q: "queue_contract I Q" and q: "Q (external_api_queue (ctx w)) (os w) = []"
    and room: "int (length es) + 1 < INT_MAX" and out: "out \<noteq> NULL" "heap w out = None" and i: "0 < i"
  shows "\<exists>r w' es'. atc_urc_unregister I (extern_msg_handle I) False i out w = ok (r, w') \<and>
    returned Q out w w' \<and> urc_inv I w' es' \<and>
    (r = ATC_ERROR \<and> es' = es \<or> serves es (Unregister i) (Outcome r) es')"
proof -
  note keep = queue_contract_keeps [OF Q]
  have I: "complete I" "malloc_fresh I" using urc_inv_interface [OF inv] by auto
  let ?x = "O_Result ATC_ERROR"
  let ?w0 = "put out ?x w" and ?body = "unregister_body I (extern_msg_handle I) i out"
  have "\<exists>r v es'. ?body ?w0 = ok (r, v) \<and> body_done I Q out ?x es' w v \<and>
      (r = ATC_ERROR \<and> es' = es \<or> serves es (Unregister i) (Outcome r) es')"
  proof (cases rule: os_malloc_cases [OF I, of sizeof_urc_unregister_msg ?w0, case_names fails fresh])
    case (fails s)
    then show ?thesis using os_malloc_keeps [OF keep fails] body_done_early [OF inv out(2), of ?x "?w0\<lparr>os := s\<rparr>" Q]
      by (intro exI [of _ ATC_ERROR] exI [of _ "?w0\<lparr>os := s\<rparr>"] exI [of _ es]) (simp add: unregister_body_def)
  next
    case (fresh a s)
    have a: "a \<noteq> out" "heap w a = None" using fresh(3) by (auto split: if_splits)
    have ks: "same_queues Q (os w) s" using os_malloc_keeps [OF keep fresh(1)] by simp
    let ?v = "put a (O_Unreg \<lparr>un_id = i, un_out_result = out\<rparr>) (?w0\<lparr>os := s\<rparr>)"
    have "\<exists>r v es'. post_msg I (extern_msg_handle I) MSG_TYPE_URC_UNREGISTER a sel_result out ATC_ERROR ?v = ok (r, v) \<and>
        body_done I Q out ?x es' w v \<and>
        (r = ATC_ERROR \<and> es' = es \<or> (\<exists>b. serves es (Unregister i) b es' \<and> sel_result (answer_obj b) = Some r))"
      by (rule posted [OF inv Q q room out _ fresh(2) a ks]) (auto simp: serves_unregister answer_obj_def)
    moreover have "b = Outcome r" if "sel_result (answer_obj b) = Some r" for b r
      using that by (cases b) (auto simp: answer_obj_def)
    moreover have "?body ?w0 = post_msg I (extern_msg_handle I) MSG_TYPE_URC_UNREGISTER a sel_result out ATC_ERROR ?v"
      using fresh(1,2) by (simp add: unregister_body_def)
    ultimately show ?thesis by metis
  qed
  then obtain r v es' where b: "?body ?w0 = ok (r, v)" "body_done I Q out ?x es' w v" and
      r: "r = ATC_ERROR \<and> es' = es \<or> serves es (Unregister i) (Outcome r) es'" by blast
  from body_returns [where body = ?body, OF out(2) b] r show ?thesis
    unfolding unregister_unfold [OF I(1) i] by blast
qed

section \<open>Properties\<close>

text \<open>
  C38: From the caller's side registration is atomic: with the event loop serving the queue
  while the caller is blocked, \<open>atc_urc_register\<close> either returns \<open>-1\<close> and the table is as
  before, or returns a fresh positive identifier under which the table now has the handler,
  with a NUL-terminated copy of the prefix.  An empty prefix, one of more than 31
  characters, and null arguments are refused.
\<close>

theorem urc_register_api:
  assumes "urc_inv I w es" and "queue_contract I Q" and "Q (external_api_queue (ctx w)) (os w) = []"
    and "int (length es) + 1 < INT_MAX" and "out \<noteq> NULL" and "heap w out = None" and "0 \<in> set p" and "handler \<noteq> NULL"
  shows "(\<exists>r w'. atc_urc_register I (extern_msg_handle I) False (Some p) handler out w = ok (r, w') \<and>
      returned Q out w w' \<and>
      (if r = -1 then urc_inv I w' es
       else 1 \<le> r \<and> r \<notin> ids es \<and> length (cstr p) \<in> {1..31} \<and>
         (\<exists>a. urc_inv I w' (es @ [(a, \<lparr>ue_id = Some r, ue_prefix = cstr p @ [0], ue_handler = handler\<rparr>)])))) \<and>
    atc_urc_register I others True (Some p) handler out w = ok (-1, w) \<and>
    atc_urc_register I others False None handler out w = ok (-1, w) \<and>
    atc_urc_register I others False (Some p) NULL out w = ok (-1, w)"
proof (intro conjI)
  from register_call [OF assms] show "\<exists>r w'. atc_urc_register I (extern_msg_handle I) False (Some p) handler out w = ok (r, w') \<and>
      returned Q out w w' \<and>
      (if r = -1 then urc_inv I w' es
       else 1 \<le> r \<and> r \<notin> ids es \<and> length (cstr p) \<in> {1..31} \<and>
         (\<exists>a. urc_inv I w' (es @ [(a, \<lparr>ue_id = Some r, ue_prefix = cstr p @ [0], ue_handler = handler\<rparr>)])))"
    by (fastforce simp: serves_register)
  have "w\<lparr>heap := (heap w)(out := None)\<rparr> = w" using assms(6) by (simp add: fun_upd_idem)
  then show "atc_urc_register I others True (Some p) handler out w = ok (-1, w)"
    "atc_urc_register I others False None handler out w = ok (-1, w)"
    "atc_urc_register I others False (Some p) NULL out w = ok (-1, w)"
    by (simp_all add: atc_urc_register_def with_local_def put_def)
qed

lemma demo_idle_room:
  "pl_queues (os (demo_idle ts)) (external_api_queue (ctx (demo_idle ts))) = []" "int (length demo_table) + 1 < INT_MAX"
  "heap (demo_idle ts) 90 = None" "urc_inv platform_interface (demo_idle ts) demo_table"
  using demo_idle_inv [of ts]
  by (simp_all add: demo_table_def INT_MAX_def rx_inv_def)
    (simp add: demo_idle_def Let_def demo_rx_prompt_def demo_urc_world_def demo_list_world_def)

theorem urc_register_api_witness:
  "\<exists>r w'. atc_urc_register platform_interface (extern_msg_handle platform_interface) False (Some [43, 67, 0]) 8 90 (demo_idle []) =
      ok (r, w') \<and> heap w' 90 = None \<and>
    (r = -1 \<and> urc_inv platform_interface w' demo_table \<or>
     (\<exists>a. urc_inv platform_interface w' (demo_table @ [(a, \<lparr>ue_id = Some r, ue_prefix = [43, 67, 0], ue_handler = 8\<rparr>)])))"
proof -
  have c: "cstr [43, 67, 0] = [43, 67]" by (simp add: cstr_def)
  have pre: "(90 :: addr) \<noteq> NULL" "0 \<in> set [43, 67, 0 :: u8]" "(8 :: addr) \<noteq> NULL" by simp_all
  from conjunct1 [OF urc_register_api [OF demo_idle_room(4) platform_queues demo_idle_room(1,2) pre(1) demo_idle_room(3) pre(2,3), of "[]" ok]]
  obtain r w' where
    "atc_urc_register platform_interface (extern_msg_handle platform_interface) False (Some [43, 67, 0]) 8 90 (demo_idle []) = ok (r, w')"
    "heap w' 90 = None" "if r = -1 then urc_inv platform_interface w' demo_table
       else \<exists>a. urc_inv platform_interface w' (demo_table @ [(a, \<lparr>ue_id = Some r, ue_prefix = [43, 67] @ [0], ue_handler = 8\<rparr>)])"
    unfolding returned_def c by (metis (no_types, lifting))
  then show ?thesis by (auto split: if_splits)
qed

text \<open>
  C39: Removal by identifier, seen by the caller: \<open>ATC_SUCCESS\<close> means that the table had
  the identifier and no longer has it, \<open>ATC_ERROR\<close> that it is as before; an identifier the
  table does not have is never reported as removed, and one that is not positive is refused.
\<close>

theorem urc_unregister_api:
  assumes "urc_inv I w es" and "queue_contract I Q" and "Q (external_api_queue (ctx w)) (os w) = []"
    and "int (length es) + 1 < INT_MAX" and "out \<noteq> NULL" and "heap w out = None"
  shows "\<exists>r w'. atc_urc_unregister I (extern_msg_handle I) False i out w = ok (r, w') \<and>
    returned Q out w w' \<and>
    (r = ATC_SUCCESS \<and> 0 < i \<and> i \<in> ids es \<and> urc_inv I w' (filter (\<lambda>(a, e). ue_id e \<noteq> Some i) es) \<or>
     r = ATC_ERROR \<and> urc_inv I w' es)"
proof (cases "0 < i")
  case True
  from unregister_call [OF assms True] obtain r w' es' where
    c: "atc_urc_unregister I (extern_msg_handle I) False i out w = ok (r, w')" "returned Q out w w'" "urc_inv I w' es'"
      "r = ATC_ERROR \<and> es' = es \<or> serves es (Unregister i) (Outcome r) es'" by blast
  from c(4) have "r = ATC_SUCCESS \<and> i \<in> ids es \<and> es' = drop_id i es \<or> r = ATC_ERROR \<and> es' = es"
    by (auto simp: serves_unregister)
  then show ?thesis using c(1-3) True by (intro exI [of _ r] exI [of _ w']) (auto simp: drop_id_def)
next
  case False
  have w: "w\<lparr>heap := (heap w)(out := None)\<rparr> = w" using assms(6) by (simp add: fun_upd_idem)
  have "returned Q out w w"
    using assms(6) by (auto simp: returned_def same_queues_def ext_kept_def intro: exI [of _ "urc_next_id (ctx w)"])
  then show ?thesis using False w assms(1)
    by (intro exI [of _ ATC_ERROR] exI [of _ w]) (simp add: atc_urc_unregister_def with_local_def put_def)
qed

theorem urc_unregister_api_witness:
  "\<exists>w'. atc_urc_unregister platform_interface (extern_msg_handle platform_interface) False 5 90 (demo_idle []) = ok (ATC_ERROR, w') \<and>
     urc_inv platform_interface w' demo_table"
proof -
  have "5 \<notin> ids demo_table" by (simp add: demo_table_def ids_def demo_entry_def)
  then show ?thesis
    using urc_unregister_api [OF demo_idle_room(4) platform_queues demo_idle_room(1,2) _ demo_idle_room(3), of 5] by auto
qed

end
