(* ===== verification/Event_Loop.thy ===== *)
theory Event_Loop
  imports Extern_Api
begin

text \<open>
  \<open>ATCortex.c\<close>: initialisation, the timeout of the current command, and the event loop.
  An iteration is also given as five steps, between which the interrupt and other threads
  may run; the invariant of the system is preserved by all of them.
\<close>

section \<open>Operations\<close>

definition check_send_timeout :: "'os atc_interface \<Rightarrow> 'os world \<Rightarrow> 'os world res" where
  "check_send_timeout I w =
     (if current_send_task (ctx w) \<noteq> NULL
      then rbind (atc_time_get I w) (\<lambda>(current_time, w).
           rbind (get_task (current_send_task (ctx w)) w) (\<lambda>t.
           if current_time - tk_timestamp t \<ge> tk_timeout t
           then rbind (get_bytes (tk_data t) w) (\<lambda>data.
                after (LOG_WARN I ''send task timeout:%.*s'' [Log_Prec (sint (tk_length t)) data])
                  (command_end_handle I ATC_TIMEOUT w))
           else ok w))
      else ok w)"

text \<open>
  \<open>context\<close> is the address of the context, which is only logged, and \<open>rx_buffer_data\<close> the
  array of that name in it.
\<close>

definition atc_init :: "'os atc_interface \<Rightarrow> addr \<Rightarrow> u8 list \<Rightarrow> 'os world \<Rightarrow> (atc_result \<times> 'os world) res" where
  "atc_init I context rx_buffer_data w =
     after (LOG_TRACE I) (rbind (recv_data_init I rx_buffer_data w) (\<lambda>(r, w).
     if r \<noteq> ATC_SUCCESS then after (LOG_ERR I ''Failed to initialize receive data handler'' []) (ok (ATC_ERROR, w))
     else after (LOG_TRACE I) (rbind (extern_msg_queue_init I w) (\<lambda>(r, w).
     if r \<noteq> ATC_SUCCESS then after (LOG_ERR I ''Failed to initialize external message queue'' []) (ok (ATC_ERROR, w))
     else after (LOG_TRACE I) (rbind (send_msg_queue_init I w) (\<lambda>(r, w).
     if r \<noteq> ATC_SUCCESS then after (LOG_ERR I ''Failed to initialize send message queue'' []) (ok (ATC_ERROR, w))
     else after (LOG_TRACE I) (rbind (urc_init I w) (\<lambda>(r, w).
     if r \<noteq> ATC_SUCCESS then after (LOG_ERR I ''Failed to initialize URC handler list'' []) (ok (ATC_ERROR, w))
     else after (LOG_TRACE I) (rbind (os_sem_create I w) (\<lambda>(sem, w).
       let w = upd_ctx (\<lambda>c. c\<lparr>wake_semaphore := sem\<rparr>) w in
       if sem = NULL then after (LOG_ERR I ''Failed to create wake semaphore'' []) (ok (ATC_ERROR, w))
       else after (LOG_INFO I ''init %p success!'' [Log_Ptr context]) (ok (ATC_SUCCESS, w))))))))))))"

text \<open>The time to wait for: what is left of the current command's timeout.\<close>

definition wait_time :: "'os atc_interface \<Rightarrow> 'os world \<Rightarrow> (u32 \<times> 'os world) res" where
  "wait_time I w =
     (if current_send_task (ctx w) \<noteq> NULL
      then rbind (atc_time_get I w) (\<lambda>(now, w).
           rbind (get_task (current_send_task (ctx w)) w) (\<lambda>t.
           let elapsed = now - tk_timestamp t in
           ok (if elapsed < tk_timeout t then tk_timeout t - elapsed else 0, w)))
      else ok (ATC_TIMEOUT_MAX, w))"

definition wait_step :: "'os atc_interface \<Rightarrow> 'os world \<Rightarrow> 'os world res" where
  "wait_step I w =
     rbind (wait_time I w) (\<lambda>(wait_ms, w).
     rbind (os_sem_take I (wake_semaphore (ctx w)) wait_ms w) (\<lambda>(r, w). ok w))"

text \<open>The body of \<open>for(;;)\<close>, and the loop, which never returns.\<close>

definition process_step :: "'os atc_interface \<Rightarrow> 'os world \<Rightarrow> 'os world res" where
  "process_step I w =
     rbind (extern_msg_handle I w) (\<lambda>w.
     rbind (send_msg_handle I w) (\<lambda>w.
     rbind (recv_data_handle I w) (\<lambda>w.
     rbind (check_send_timeout I w) (wait_step I))))"

partial_function (option) atc_process :: "'os atc_interface \<Rightarrow> 'os world \<Rightarrow> 'os world res" where
  "atc_process I w = rbind (process_step I w) (atc_process I)"

section \<open>The state behind the interface\<close>

lemma os_steps_queues: "os_steps I s s' \<Longrightarrow> queue_contract I Q \<Longrightarrow> same_queues Q s s'"
  using os_stepsD [of I s s' "same_queues Q"] queue_contract_keeps by blast

lemma time_get_ok:
  assumes "complete I"
  shows "\<exists>t s. atc_time_get I w = ok (t, w\<lparr>os := s\<rparr>) \<and> os_steps I (os w) s"
proof -
  obtain t s where r: "atc_time_get I w = ok (t, w\<lparr>os := s\<rparr>)" using atc_time_get_ok [OF assms] by blast
  have "os_steps I (os w) s" using atc_time_get_keeps [OF _ r] by (intro os_stepsI) simp
  then show ?thesis using r by blast
qed

lemma own_os [simp]: "own (w\<lparr>os := s\<rparr>) = own w" "own (emit e w) = own w"
  by (simp_all add: own_def Let_def cong: if_cong)

lemma spares_os: "os_steps I (os w) s \<Longrightarrow> spares I w (w\<lparr>os := s\<rparr>)"
  by (simp add: spares_def callers_kept_heap)

lemma rx_inv_os [simp]: "rx_inv I (w\<lparr>os := s\<rparr>) es ip xs T = rx_inv I w es ip xs T"
proof -
  have "rx_inv I (w\<lparr>os := s\<rparr>) es ip xs T" if "rx_inv I w es ip xs T" for w :: "'a world" and s
    by (rule rx_inv_cong [OF that])
      (use that rx_inv_resp [OF that] text_mode_resp [OF that] in
        \<open>auto simp: rx_inv_def buf_ok_def is_text_mode_def resp_text_def\<close>)
  from this [of w s] this [of "w\<lparr>os := s\<rparr>" "os w"] show ?thesis by auto
qed

lemma rx_good_os [simp]: "rx_good I es (w\<lparr>os := s\<rparr>) = rx_good I es w"
  by (simp add: rx_good_def prompt_ready_def prompt_is_def)

lemma rx_inv_emit [simp]: "rx_inv I (emit e w) es ip xs T = rx_inv I w es ip xs T"
proof -
  have "rx_inv I v es ip xs T" if "rx_inv I w es ip xs T" "heap v = heap w" "ctx v = ctx w" for v w :: "'a world"
    by (rule rx_inv_cong [OF that(1,2)])
      (use that rx_inv_resp [OF that(1)] text_mode_resp [OF that(1)] in
        \<open>auto simp: rx_inv_def buf_ok_def is_text_mode_def resp_text_def\<close>)
  from this [of w "emit e w"] this [of "emit e w" w] show ?thesis by auto
qed

lemma rx_good_emit [simp]: "rx_good I es (emit e w) = rx_good I es w"
  by (simp add: rx_good_def prompt_ready_def prompt_is_def)

lemma spares_emit [simp]: "spares I w (emit e v) = spares I w v"
  by (simp add: spares_def callers_kept_def)

section \<open>The current command\<close>

text \<open>What ends a command: nothing, or the timeout.\<close>

lemma current_task: "rx_inv I w es ip xs (Some t) \<Longrightarrow>
    current_send_task (ctx w) \<noteq> NULL \<and> heap w (current_send_task (ctx w)) = Some (O_Task t)"
  by (simp add: rx_inv_def task_state_def task_ok_def)

lemma no_task: "rx_inv I w es ip xs None \<Longrightarrow> current_send_task (ctx w) = NULL"
  by (simp add: rx_inv_def task_state_def)

lemma sint_small: "(n :: size_t) < 0x80000000 \<Longrightarrow> sint n = uint n"
proof -
  assume "n < 0x80000000"
  then have "uint n < 2 ^ 31" by (simp add: word_less_def)
  moreover have "- (2 ^ 31) \<le> uint n" by (rule order_trans [OF _ uint_ge_0]) simp
  ultimately show ?thesis by (simp add: sint_uint signed_take_bit_int_eq_self del: uint_ge_0)
qed

text \<open>The bytes of the command that the log statement prints are there.\<close>

lemma task_data_there:
  assumes inv: "rx_inv I w es ip xs (Some t)"
  shows "\<exists>bs. get_bytes (tk_data t) w = ok bs \<and> log_safe (Log_Prec (sint (tk_length t)) bs)"
proof -
  obtain bs where "tk_data t \<noteq> NULL" "heap w (tk_data t) = Some (O_Bytes bs)" "unat (tk_length t) \<le> length bs"
      "tk_length t < 0x80000000"
    using inv by (auto simp: rx_inv_def task_state_def task_ok_def bytes_at_def)
  then show ?thesis by (simp add: sint_small)
qed

lemma timeout_ok:
  assumes inv: "rx_inv I w es ip xs (Some t)" and now: "atc_time_get I w = ok (now, w\<lparr>os := s\<rparr>)"
  shows "check_send_timeout I w =
    (if now - tk_timestamp t \<ge> tk_timeout t then command_end_handle I ATC_TIMEOUT (w\<lparr>os := s\<rparr>) else ok (w\<lparr>os := s\<rparr>))"
proof -
  obtain bs where "get_bytes (tk_data t) (w\<lparr>os := s\<rparr>) = ok bs" "log_safe (Log_Prec (sint (tk_length t)) bs)"
    using task_data_there [of I "w\<lparr>os := s\<rparr>" es ip xs t] inv by auto
  then show ?thesis using current_task [OF inv] now rx_inv_interface [OF inv] by (simp add: check_send_timeout_def)
qed

lemma wait_ok:
  assumes inv: "rx_inv I w es ip xs (Some t)" and now: "atc_time_get I w = ok (now, w\<lparr>os := s\<rparr>)"
  shows "wait_time I w = ok (if now - tk_timestamp t < tk_timeout t then tk_timeout t - (now - tk_timestamp t) else 0, w\<lparr>os := s\<rparr>)"
  using current_task [OF inv] now by (simp add: wait_time_def Let_def)

lemma end_good:
  assumes "rx_good I es w"
  shows "\<exists>w'. command_end_handle I r w = ok w' \<and> rx_good I es w' \<and> ctx w' = cleared (ctx w) \<and> spares I w w'"
proof -
  obtain ip ys T where inv: "rx_inv I w es ip (stack_bytes ys) T" using assms by (auto simp: rx_good_def)
  from rx_end_ok [OF inv, of r] obtain w' where w': "command_end_handle I r w = ok w'" "rx_inv I w' es ip [] None"
      "ctx w' = cleared (ctx w)" "spares I w w'" by auto
  have "rx_good I es w'"
    unfolding rx_good_def using w'(2) by (intro exI [of _ ip] exI [of _ "[]"] exI [of _ None]) (simp add: prompt_ready_def)
  then show ?thesis using w' by blast
qed

lemma timeout_good:
  assumes "rx_good I es w"
  shows "\<exists>w'. check_send_timeout I w = ok w' \<and> rx_good I es w' \<and> rx_buffer (ctx w') = rx_buffer (ctx w) \<and> spares I w w'"
proof -
  obtain ip ys T where inv: "rx_inv I w es ip (stack_bytes ys) T" and p: "prompt_ready w T"
    using assms by (auto simp: rx_good_def)
  show ?thesis
  proof (cases T)
    case None
    then show ?thesis using no_task [of I w es ip] inv assms by (intro exI [of _ w]) (auto simp: check_send_timeout_def)
  next
    case (Some t)
    obtain now s where s: "atc_time_get I w = ok (now, w\<lparr>os := s\<rparr>)" "os_steps I (os w) s"
      using time_get_ok [OF conjunct1 [OF rx_inv_interface [OF inv]]] by blast
    have g: "rx_good I es (w\<lparr>os := s\<rparr>)" using assms by simp
    from end_good [OF this, of ATC_TIMEOUT] obtain w' where w': "command_end_handle I ATC_TIMEOUT (w\<lparr>os := s\<rparr>) = ok w'"
        "rx_good I es w'" "ctx w' = cleared (ctx w)" "spares I (w\<lparr>os := s\<rparr>) w'" by auto
    have "spares I w w'" by (rule spares_trans [OF spares_os [OF s(2)] w'(4)])
    then show ?thesis
      using g w'(1-3) timeout_ok [OF inv [unfolded Some] s(1)] spares_os [OF s(2)]
      by (cases "now - tk_timestamp t \<ge> tk_timeout t") (auto simp: cleared_def)
  qed
qed

lemma wait_good:
  assumes "rx_good I es w"
  shows "\<exists>s ms. wait_step I w = ok (emit (Ev_Take (wake_semaphore (ctx w)) ms) (w\<lparr>os := s\<rparr>)) \<and> os_steps I (os w) s"
proof -
  obtain ip ys T where inv: "rx_inv I w es ip (stack_bytes ys) T" using assms by (auto simp: rx_good_def)
  have I: "complete I" using rx_inv_interface [OF inv] by simp
  have "\<exists>ms s. wait_time I w = ok (ms, w\<lparr>os := s\<rparr>) \<and> os_steps I (os w) s"
  proof (cases T)
    case None
    then show ?thesis using no_task [of I w es ip] inv
      by (intro exI [of _ ATC_TIMEOUT_MAX] exI [of _ "os w"]) (auto simp: wait_time_def)
  next
    case (Some t)
    obtain now s where s: "atc_time_get I w = ok (now, w\<lparr>os := s\<rparr>)" "os_steps I (os w) s" using time_get_ok [OF I] by blast
    show ?thesis using wait_ok [OF inv [unfolded Some] s(1)] s(2) by blast
  qed
  then obtain ms s where s: "wait_time I w = ok (ms, w\<lparr>os := s\<rparr>)" "os_steps I (os w) s" by blast
  obtain r u where u: "os_sem_take I (wake_semaphore (ctx w)) ms (w\<lparr>os := s\<rparr>) =
      ok (r, emit (Ev_Take (wake_semaphore (ctx w)) ms) ((w\<lparr>os := s\<rparr>)\<lparr>os := u\<rparr>))"
    using os_sem_take_ok [OF I] by blast
  have "os_steps I s u" using os_sem_take_keeps [OF _ u] by (intro os_stepsI) simp
  then have "os_steps I (os w) u" by (rule os_steps_trans [OF s(2)])
  moreover have "wait_step I w = ok (emit (Ev_Take (wake_semaphore (ctx w)) ms) (w\<lparr>os := u\<rparr>))"
    using s(1) u by (simp add: wait_step_def)
  ultimately show ?thesis by blast
qed

section \<open>The invariant of the system\<close>

text \<open>
  Queued tasks own their buffers: each is ready, in prompt mode with a prompt and data to
  follow, and no two tasks, nor a task and the current one, share a buffer.
\<close>

definition task_bufs :: "send_task \<Rightarrow> addr list" where
  "task_bufs t = filter (\<lambda>p. p \<noteq> NULL) [tk_data t, tk_prompt t]"

definition tasks_ok :: "'os world \<Rightarrow> send_task list \<Rightarrow> bool" where
  "tasks_ok w ts \<longleftrightarrow> (\<forall>t \<in> set ts. task_ready w t \<and> prompt_ready w (Some t)) \<and>
     distinct (concat (map task_bufs ts)) \<and> own w \<inter> set (concat (map task_bufs ts)) = {}"

definition sys_inv :: "'os atc_interface \<Rightarrow> (addr \<Rightarrow> 'os \<Rightarrow> qitem list) \<Rightarrow> 'os world \<Rightarrow> bool" where
  "sys_inv I Q w \<longleftrightarrow> (\<exists>es ts ms. rx_good I es w \<and> rb_inv (rx_buffer (ctx w)) \<and>
     send_queue (ctx w) \<noteq> external_api_queue (ctx w) \<and>
     Q (send_queue (ctx w)) (os w) = map Q_Task ts \<and> Q (external_api_queue (ctx w)) (os w) = map Q_Msg ms \<and>
     tasks_ok w ts \<and> msgs_ok w ms)"

text \<open>What the receive path spares keeps its meaning.\<close>

lemma task_ready_spared:
  assumes t: "task_ready w t" "prompt_ready w (Some t)" and o: "own w \<inter> set (task_bufs t) = {}" and s: "spares I w w'"
  shows "task_ready w' t" "prompt_ready w' (Some t)"
proof -
  have same: "heap w' p = heap w p" if "p \<in> {tk_data t, tk_prompt t}" "p \<noteq> NULL" "heap w p = Some (O_Bytes bs)" for p bs
  proof -
    have "p \<in> set (task_bufs t)" using that(1,2) by (auto simp: task_bufs_def)
    then have "p \<notin> own w" using o by blast
    then show ?thesis using spares_heapD [OF s that(3)] that(3) by simp
  qed
  have b: "bytes_at w' p n" if "bytes_at w p n" "p \<in> {tk_data t, tk_prompt t}" "p \<noteq> NULL" for p n
    using that same unfolding bytes_at_def by auto
  have "sync_ok w t \<Longrightarrow> sync_ok w' t" using callers_kept_sync s by (auto simp: spares_def)
  then show "task_ready w' t" using t(1) b by (auto simp: task_ready_def)
  have "prompt_is w' t p" if "prompt_is w t p" for p
    using that same [of "tk_prompt t"] unfolding prompt_is_def by auto
  then show "prompt_ready w' (Some t)" using t(2) unfolding prompt_ready_def by blast
qed

lemma tasks_ok_spared:
  assumes "tasks_ok w ts" and s: "spares I w w'"
  shows "tasks_ok w' ts"
proof -
  have "task_ready w' t \<and> prompt_ready w' (Some t)" if "t \<in> set ts" for t
  proof -
    have "own w \<inter> set (task_bufs t) = {}" using assms(1) that by (auto simp: tasks_ok_def)
    then show ?thesis using task_ready_spared [OF _ _ _ s, of t] assms(1) that by (auto simp: tasks_ok_def)
  qed
  moreover have "own w' \<subseteq> own w" using s by (simp add: spares_def)
  ultimately show ?thesis using assms(1) unfolding tasks_ok_def by blast
qed

lemma own_kinds:
  assumes "rx_good I es w" and "p \<in> own w"
  shows "\<exists>ob. heap w p = Some ob \<and> (\<exists>t. ob = O_Task t) \<or> (\<exists>bs. heap w p = Some (O_Bytes bs))"
proof -
  obtain ip ys T where inv: "rx_inv I w es ip (stack_bytes ys) T" using assms(1) by (auto simp: rx_good_def)
  show ?thesis
  proof (cases T)
    case None
    then show ?thesis using own_none [of w] no_task [of I w es ip] inv assms(2) by auto
  next
    case (Some t)
    then have t: "task_ok w (current_send_task (ctx w)) t" using inv by (simp add: rx_inv_def task_state_def)
    then show ?thesis using own_task [OF t] assms(2) by (auto simp: task_ok_def bytes_at_def)
  qed
qed

lemma msg_ready_spared:
  assumes g: "rx_good I es w" and m: "msg_ready w m" and s: "spares I w w'"
  shows "msg_ready w' m" "msg_out w' m = msg_out w m"
proof -
  obtain x where x: "heap w (ms_data m) = Some x" "(\<exists>r. x = O_Reg r) \<or> (\<exists>u. x = O_Unreg u)"
    using m by (auto simp: msg_ready_def)
  have "ms_data m \<notin> own w" using own_kinds [OF g, of "ms_data m"] x by auto
  then have d: "heap w' (ms_data m) = heap w (ms_data m)" using spares_heapD [OF s x(1)] x by auto
  then show o: "msg_out w' m = msg_out w m" by (simp add: msg_out_def)
  have k: "callers_kept w w'" using s by (simp add: spares_def)
  have "\<exists>i. heap w' (msg_out w m) = Some (O_Int i)" if "heap w (msg_out w m) = Some (O_Int i)" for i
    using callers_keptD [OF k that] by simp
  moreover have "\<exists>r. heap w' (msg_out w m) = Some (O_Result r)" if "heap w (msg_out w m) = Some (O_Result r)" for r
    using callers_keptD [OF k that] by simp
  ultimately show "msg_ready w' m" using m d o unfolding msg_ready_def by metis
qed

lemma msgs_ok_spared:
  assumes "rx_good I es w" and "msgs_ok w ms" and "spares I w w'"
  shows "msgs_ok w' ms"
proof -
  have "msg_ready w' m" "msg_out w' m = msg_out w m" if "m \<in> set ms" for m
    using msg_ready_spared [OF assms(1) _ assms(3), of m] assms(2) that by (auto simp: msgs_ok_def)
  then show ?thesis using assms(2) by (auto simp: msgs_ok_def cong: map_cong)
qed

text \<open>The three handlers that only receive, end a command, or wait.\<close>

lemma sys_inv_spared:
  assumes "sys_inv I Q w" and Q: "queue_contract I Q" and s: "spares I w w'"
    and g: "\<And>es. rx_good I es w \<Longrightarrow> rx_good I es w'" and r: "rb_inv (rx_buffer (ctx w'))"
  shows "sys_inv I Q w'"
proof -
  obtain es ts ms where i: "rx_good I es w" "send_queue (ctx w) \<noteq> external_api_queue (ctx w)"
      "Q (send_queue (ctx w)) (os w) = map Q_Task ts" "Q (external_api_queue (ctx w)) (os w) = map Q_Msg ms"
      "tasks_ok w ts" "msgs_ok w ms"
    using assms(1) unfolding sys_inv_def by blast
  have q: "same_queues Q (os w) (os w')" by (rule os_steps_queues [OF _ Q]) (use s in \<open>simp add: spares_def\<close>)
  have h: "send_queue (ctx w') = send_queue (ctx w)" "external_api_queue (ctx w') = external_api_queue (ctx w)"
    using s by (simp_all add: spares_def)
  show ?thesis
    unfolding sys_inv_def h
    by (rule exI [of _ es], rule exI [of _ ts], rule exI [of _ ms])
      (use i g r q tasks_ok_spared [OF i(5) s] msgs_ok_spared [OF i(1,6) s] in \<open>simp add: same_queues_def\<close>)
qed

lemma recv_sys:
  assumes "sys_inv I Q w" and Q: "queue_contract I Q"
  shows "\<exists>w'. recv_data_handle I w = ok w' \<and> sys_inv I Q w'"
proof -
  obtain es where es: "rx_good I es w" "rb_inv (rx_buffer (ctx w))" using assms(1) by (auto simp: sys_inv_def)
  obtain w' where w': "recv_data_handle I w = ok w'" "rb_inv (rx_buffer (ctx w'))" "spares I w w'"
    using recv_data_ok [OF es] by blast
  have "rx_good I es' w'" if "rx_good I es' w" for es' using recv_data_ok [OF that es(2)] w'(1) by auto
  then show ?thesis using sys_inv_spared [OF assms w'(3) _ w'(2)] w'(1) by blast
qed

lemma timeout_sys:
  assumes "sys_inv I Q w" and Q: "queue_contract I Q"
  shows "\<exists>w'. check_send_timeout I w = ok w' \<and> sys_inv I Q w'"
proof -
  obtain es where es: "rx_good I es w" "rb_inv (rx_buffer (ctx w))" using assms(1) by (auto simp: sys_inv_def)
  obtain w' where w': "check_send_timeout I w = ok w'" "rx_buffer (ctx w') = rx_buffer (ctx w)" "spares I w w'"
    using timeout_good [OF es(1)] by blast
  have "rx_good I es' w'" if "rx_good I es' w" for es' using timeout_good [OF that] w'(1) by auto
  moreover have "rb_inv (rx_buffer (ctx w'))" using es(2) w'(2) by simp
  ultimately show ?thesis using sys_inv_spared [OF assms w'(3)] w'(1) by blast
qed

lemma wait_sys:
  assumes "sys_inv I Q w" and Q: "queue_contract I Q"
  shows "\<exists>w'. wait_step I w = ok w' \<and> sys_inv I Q w'"
proof -
  obtain es where es: "rx_good I es w" "rb_inv (rx_buffer (ctx w))" using assms(1) by (auto simp: sys_inv_def)
  obtain s ms where s: "wait_step I w = ok (emit (Ev_Take (wake_semaphore (ctx w)) ms) (w\<lparr>os := s\<rparr>))" "os_steps I (os w) s"
    using wait_good [OF es(1)] by blast
  have "sys_inv I Q (emit (Ev_Take (wake_semaphore (ctx w)) ms) (w\<lparr>os := s\<rparr>))"
    by (rule sys_inv_spared [OF assms]) (use s es in \<open>simp_all add: spares_os\<close>)
  then show ?thesis using s(1) by blast
qed

section \<open>Serving the external queue\<close>

text \<open>
  The table cannot outgrow the identifiers: two cells per entry and per message fit into the
  32-bit address space only for fewer than \<open>INT_MAX\<close> of them.
\<close>

fun obj_kind :: "obj \<Rightarrow> nat" where
  "obj_kind (O_Node n) = 1"
| "obj_kind (O_List l) = 2"
| "obj_kind (O_Entry e) = 3"
| "obj_kind (O_Stack k) = 4"
| "obj_kind (O_Items k) = 5"
| "obj_kind (O_Reg r) = 6"
| "obj_kind (O_Unreg u) = 6"
| "obj_kind (O_Int i) = 7"
| "obj_kind (O_Result r) = 7"
| "obj_kind _ = 0"

definition kind_at :: "'os world \<Rightarrow> addr \<Rightarrow> nat option" where
  "kind_at w a = map_option obj_kind (heap w a)"

lemma kinds_disjoint:
  "(\<And>a. a \<in> A \<Longrightarrow> k a = Some x) \<Longrightarrow> (\<And>a. a \<in> B \<Longrightarrow> k a = Some y) \<Longrightarrow> x \<noteq> y \<Longrightarrow> A \<inter> B = {}"
  by fastforce

lemma table_room:
  assumes g: "rx_good I es w" and m: "msgs_ok w ms"
  shows "int (length es) + int (length ms) < INT_MAX"
proof -
  obtain ip ys T where inv: "rx_inv I w es ip (stack_bytes ys) T" using g by (auto simp: rx_good_def)
  then obtain xs where xs: "slist_rep w (urc_handler_list (ctx w)) (Some Urc_Free) xs" "map snd xs = map fst es"
      and de: "distinct (map fst es)"
    by (auto simp: rx_inv_def urc_inv_def slist_holds_def)
  let ?l = "urc_handler_list (ctx w)" and ?s = "byte_stack (ctx w)"
  have l: "kind_at w ?l = Some 2" "?l \<noteq> NULL" "distinct (map fst xs)"
    using slist_rep_kinds(1) [OF xs(1)] xs(1) by (auto simp: slist_rep_def kind_at_def)
  have n: "kind_at w a = Some 1" if "a \<in> fst ` set xs" for a
    using slist_rep_kinds(2) [OF xs(1) that] by (auto simp: kind_at_def)
  have n0: "NULL \<notin> fst ` set xs" using xs(1) list_seg_nodes by (fastforce simp: slist_rep_def)
  have e: "kind_at w a = Some 3 \<and> a \<noteq> NULL" if "a \<in> fst ` set es" for a
    using inv that by (auto simp: rx_inv_def urc_inv_def entries_at_def kind_at_def split: prod.splits)
  have st: "kind_at w ?s = Some 4" "kind_at w ip = Some 5" "?s \<noteq> NULL" "ip \<noteq> NULL"
    using inv by (auto simp: rx_inv_def stack_rep_def kind_at_def)
  have d: "kind_at w a = Some 6 \<and> a \<noteq> NULL" if "a \<in> ms_data ` set ms" for a
    using m that by (auto simp: msgs_ok_def msg_ready_def kind_at_def)
  have o: "kind_at w a = Some 7 \<and> a \<noteq> NULL" if "a \<in> msg_out w ` set ms" for a
    using m that by (auto simp: msgs_ok_def msg_ready_def kind_at_def)
  let ?cells = "?l # ?s # ip # map fst xs @ map fst es @ map ms_data ms @ map (msg_out w) ms"
  have "distinct ?cells"
  proof -
    let ?S = "{fst ` set xs, fst ` set es, ms_data ` set ms, msg_out w ` set ms}"
    have k: "kind_at w a \<in> {Some 1, Some 3, Some 6, Some 7}" if "a \<in> X" "X \<in> ?S" for a X
      using that(2) n [of a] e [of a] d [of a] o [of a] that(1) by (elim insertE emptyE) simp_all
    have "?l \<notin> X" "?s \<notin> X" "ip \<notin> X" if "X \<in> ?S" for X
      using k [OF _ that, of ?l] k [OF _ that, of ?s] k [OF _ that, of ip] l(1) st(1,2) by auto
    moreover have "?l \<noteq> ?s" "?l \<noteq> ip" "?s \<noteq> ip" using l(1) st(1,2) by auto
    moreover have "fst ` set xs \<inter> fst ` set es = {}" by (rule kinds_disjoint [where k = "kind_at w", OF n conjunct1 [OF e]]) simp_all
    moreover have "fst ` set xs \<inter> ms_data ` set ms = {}" by (rule kinds_disjoint [where k = "kind_at w", OF n conjunct1 [OF d]]) simp_all
    moreover have "fst ` set xs \<inter> msg_out w ` set ms = {}" by (rule kinds_disjoint [where k = "kind_at w", OF n conjunct1 [OF o]]) simp_all
    moreover have "fst ` set es \<inter> ms_data ` set ms = {}" by (rule kinds_disjoint [where k = "kind_at w", OF conjunct1 [OF e] conjunct1 [OF d]]) simp_all
    moreover have "fst ` set es \<inter> msg_out w ` set ms = {}" by (rule kinds_disjoint [where k = "kind_at w", OF conjunct1 [OF e] conjunct1 [OF o]]) simp_all
    moreover have "ms_data ` set ms \<inter> msg_out w ` set ms = {}" by (rule kinds_disjoint [where k = "kind_at w", OF conjunct1 [OF d] conjunct1 [OF o]]) simp_all
    ultimately show ?thesis using l(3) de m by (simp add: msgs_ok_def Int_Un_distrib)
  qed
  moreover have "NULL \<notin> set ?cells" using l(2) st n0 e d o by auto
  ultimately have "length ?cells < 2 ^ 32" by (rule distinct_addr_length)
  moreover have "length xs = length es" using xs(2) by (metis length_map)
  ultimately show ?thesis by (simp add: INT_MAX_def)
qed

end
