(* ===== verification/Loop_Safety.thy ===== *)
theory Loop_Safety
  imports Event_Loop
begin

text \<open>
  The invariant of the whole system is kept by serving the external queue, by starting the
  next command, and so by an iteration of the event loop; and by what runs between its steps:
  the interrupt that receives bytes, threads that queue commands and messages, and threads
  that use their own variables.
\<close>

section \<open>Objects in use\<close>

text \<open>What the queues, the current task and the prompt stack refer to, besides callers' variables.\<close>

fun in_use :: "obj \<Rightarrow> bool" where
  "in_use (O_Stack k) = True"
| "in_use (O_Items k) = True"
| "in_use (O_Task t) = True"
| "in_use (O_Bytes bs) = True"
| "in_use _ = False"

lemma in_use_not_table: "in_use ob \<Longrightarrow> \<not> is_table ob"
  by (cases ob) auto

text \<open>\<open>live t\<close>: the variables of the task's caller are still there.\<close>

lemma kept_in_use:
  assumes k: "kept in_use w w'" and s: "\<And>t. live t \<Longrightarrow> sync_ok w t \<Longrightarrow> sync_ok w' t"
    and c: "ctx w' = (ctx w)\<lparr>urc_next_id := i\<rparr>"
  shows "rx_inv I w es ip xs T \<Longrightarrow> urc_inv I w' es' \<Longrightarrow> (\<And>t. T = Some t \<Longrightarrow> live t) \<Longrightarrow> rx_inv I w' es' ip xs T"
    and "prompt_ready w T \<Longrightarrow> prompt_ready w' T"
    and "task_ready w t \<Longrightarrow> live t \<Longrightarrow> task_ready w' t"
    and "rx_inv I w es ip xs T \<Longrightarrow> own w' = own w"
proof -
  note D = keptD [OF k]
  have b: "bytes_at w' p n" if "bytes_at w p n" for p n using that D by (fastforce simp: bytes_at_def)
  have p: "prompt_is w' t q" if "prompt_is w t q" for t q using that D by (fastforce simp: prompt_is_def)
  then show "prompt_ready w T \<Longrightarrow> prompt_ready w' T" by (fastforce simp: prompt_ready_def)
  show "task_ready w t \<Longrightarrow> live t \<Longrightarrow> task_ready w' t" using b s by (auto simp: task_ready_def)
  have t: "task_ok w' p t" if "task_ok w p t" "live t" for p t using that b s D by (auto simp: task_ok_def)
  have st: "stack_rep w' q ip cap xs" if "stack_rep w q ip cap xs" for q cap
    by (rule kept_stack_rep [OF that]) (use k in \<open>auto simp: kept_def elim!: is_stack.elims(2)\<close>)
  show "rx_inv I w es ip xs T \<Longrightarrow> urc_inv I w' es' \<Longrightarrow> (\<And>t. T = Some t \<Longrightarrow> live t) \<Longrightarrow> rx_inv I w' es' ip xs T"
    using t st c by (auto simp: rx_inv_def buf_ok_def task_state_def resp_text_def split: option.splits if_splits)
  show "own w' = own w" if "rx_inv I w es ip xs T"
  proof (cases T)
    case None
    then show ?thesis using no_task [of I w es ip xs] that own_none [of w] own_none [of w'] c by simp
  next
    case (Some u)
    then show ?thesis using current_task [of I w es ip xs u] that D c by (simp add: own_def)
  qed
qed

text \<open>The tasks of the current command and of the send queue.\<close>

definition live_task :: "(addr \<Rightarrow> 'os \<Rightarrow> qitem list) \<Rightarrow> 'os world \<Rightarrow> send_task \<Rightarrow> bool" where
  "live_task Q w t \<longleftrightarrow> heap w (current_send_task (ctx w)) = Some (O_Task t) \<or>
     Q_Task t \<in> set (Q (send_queue (ctx w)) (os w))"

lemma kept_good:
  assumes k: "kept in_use w w'" and s: "\<And>t. live_task Q w t \<Longrightarrow> sync_ok w t \<Longrightarrow> sync_ok w' t"
    and c: "ctx w' = (ctx w)\<lparr>urc_next_id := i\<rparr>" and g: "rx_good I es w" and u: "urc_inv I w' es'"
  shows "rx_good I es' w'"
proof -
  obtain ip ys T where inv: "rx_inv I w es ip (stack_bytes ys) T" "prompt_ready w T" using g by (auto simp: rx_good_def)
  have "live_task Q w t" if "T = Some t" for t using current_task [of I w es ip _ t] inv(1) that by (auto simp: live_task_def)
  then show ?thesis
    unfolding rx_good_def
    by (intro exI [of _ ip] exI [of _ ys] exI [of _ T] conjI kept_in_use(1) [OF k s c inv(1) u] kept_in_use(2) [OF k s c inv(2)])
qed

lemma kept_tasks:
  assumes k: "kept in_use w w'" and s: "\<And>t. live_task Q w t \<Longrightarrow> sync_ok w t \<Longrightarrow> sync_ok w' t"
    and c: "ctx w' = (ctx w)\<lparr>urc_next_id := i\<rparr>" and g: "rx_good I es w" and t: "tasks_ok w ts"
    and q: "Q_Task ` set ts \<subseteq> set (Q (send_queue (ctx w)) (os w))"
  shows "tasks_ok w' ts"
proof -
  obtain ip ys T where inv: "rx_inv I w es ip (stack_bytes ys) T" using g by (auto simp: rx_good_def)
  have "live_task Q w t" if "t \<in> set ts" for t using q that by (auto simp: live_task_def)
  then show ?thesis using t kept_in_use(2,3) [OF k s c] kept_in_use(4) [OF k s c inv] unfolding tasks_ok_def by blast
qed

section \<open>Serving the external queue\<close>

text \<open>The answer is stored in a variable of the sender's that has its type.\<close>

lemma answer_kind:
  assumes "msg_ready w m" and "serves es (msg_request w m) a es'"
  shows "\<exists>x. heap w (msg_out w m) = Some x \<and> same_kind x (Some (answer_obj a))"
proof -
  have m: "(\<exists>r. heap w (ms_data m) = Some (O_Reg r)) \<and> (\<exists>i. heap w (msg_out w m) = Some (O_Int i)) \<or>
      (\<exists>u. heap w (ms_data m) = Some (O_Unreg u)) \<and> (\<exists>r. heap w (msg_out w m) = Some (O_Result r))"
    using assms(1) by (auto simp: msg_ready_def)
  then show ?thesis using assms(2)
    by (auto simp: msg_request_def serves_register serves_unregister answer_obj_def)
qed

lemma all_served_answers:
  "serves_all es (map f ms) as es' \<Longrightarrow> list_all2 P ms as \<Longrightarrow> m \<in> set ms \<Longrightarrow> \<exists>a e1 e2. P m a \<and> serves e1 (f m) a e2"
proof (induction ms arbitrary: es as)
  case (Cons n ms)
  then show ?case by (auto simp: list_all2_Cons1)
qed simp

lemma all_served_kept:
  assumes ok: "msgs_ok w ms" and s: "all_served I ms es es' w w'"
  shows "kept in_use w w'" "callers_kept w w'"
proof -
  let ?A = "ms_data ` set ms \<union> msg_out w ` set ms"
  have k: "ext_kept ?A w w'" using s by (simp add: all_served_def)
  have ready: "msg_ready w m" if "m \<in> set ms" for m using ok that by (simp add: msgs_ok_def)
  have A: "\<exists>m \<in> set ms. p = ms_data m \<or> p = msg_out w m" if "p \<in> ?A" for p using that by blast
  show "kept in_use w w'"
    unfolding kept_def
  proof (intro allI impI)
    fix p ob assume p: "heap w p = Some ob" "in_use ob"
    have "p \<notin> ?A"
    proof
      assume "p \<in> ?A"
      then obtain m where m: "m \<in> set ms" "p = ms_data m \<or> p = msg_out w m" using A by blast
      then show False using ready [OF m(1)] p by (auto simp: msg_ready_def)
    qed
    then show "heap w' p = Some ob" using ext_keptD [OF k p(1)] in_use_not_table [OF p(2)] by simp
  qed
  obtain as where as: "serves_all es (map (msg_request w) ms) as es'"
      "list_all2 (\<lambda>m a. heap w' (msg_out w m) = Some (answer_obj a)) ms as"
    using s unfolding all_served_def by blast
  show "callers_kept w w'"
    unfolding callers_kept_def
  proof (intro allI impI)
    fix p ob assume p: "heap w p = Some ob"
    show "same_kind ob (heap w' p)"
    proof (cases "is_caller ob")
      case True
      show ?thesis
      proof (cases "p \<in> ?A")
        case True
        then obtain m where m: "m \<in> set ms" "p = ms_data m \<or> p = msg_out w m" using A by blast
        then have pm: "p = msg_out w m" using msg_ready_kinds(1) [OF ready [OF m(1)]] p \<open>is_caller ob\<close> by auto
        from all_served_answers [OF as m(1)] obtain a e1 e2 where
          "heap w' (msg_out w m) = Some (answer_obj a)" "serves e1 (msg_request w m) a e2" by blast
        then show ?thesis using answer_kind [OF ready [OF m(1)]] p pm by auto
      next
        case False
        have "\<not> is_table ob" using True by (cases ob) auto
        then show ?thesis using ext_keptD [OF k p False] by simp
      qed
    qed (rule same_kind_not_caller)
  qed
qed

lemma extern_sys:
  assumes "sys_inv I Q w" and Q: "queue_contract I Q"
  shows "\<exists>w'. extern_msg_handle I w = ok w' \<and> sys_inv I Q w'"
proof -
  obtain es ts ms where i: "rx_good I es w" "rb_inv (rx_buffer (ctx w))" "send_queue (ctx w) \<noteq> external_api_queue (ctx w)"
      "Q (send_queue (ctx w)) (os w) = map Q_Task ts" "Q (external_api_queue (ctx w)) (os w) = map Q_Msg ms"
      "tasks_ok w ts" "msgs_ok w ms"
    using assms(1) unfolding sys_inv_def by blast
  have u: "urc_inv I w es" using i(1) by (auto simp: rx_good_def rx_inv_def)
  from extern_loop [OF u Q i(5,7) table_room [OF i(1,7)]] obtain w' es' where w': "extern_msg_handle I w = ok w'"
      "all_served I ms es es' w w'" "\<forall>q. Q q (os w') = (if q = external_api_queue (ctx w) then [] else Q q (os w))" by blast
  obtain j where c: "ctx w' = (ctx w)\<lparr>urc_next_id := j\<rparr>" using w'(2) by (auto simp: all_served_def)
  note k = all_served_kept(1) [OF i(7) w'(2)] callers_kept_sync [OF _ all_served_kept(2) [OF i(7) w'(2)]]
  have u': "urc_inv I w' es'" using w'(2) by (simp add: all_served_def)
  have "sys_inv I Q w'"
    unfolding sys_inv_def
    by (rule exI [of _ es'], rule exI [of _ ts], rule exI [of _ "[]"])
      (use i c w'(3) kept_good [OF k c i(1) u'] kept_tasks [OF k c i(1,6), of Q] in \<open>simp add: msgs_ok_def\<close>)
  then show ?thesis using w'(1) by blast
qed

section \<open>Starting the next command\<close>

lemma task_bufs_there: "task_ready w t \<Longrightarrow> p \<in> set (task_bufs t) \<Longrightarrow> \<exists>bs. heap w p = Some (O_Bytes bs)"
  by (auto simp: task_ready_def task_bufs_def bytes_at_def split: if_splits)

lemma tasks_bufs_there: "tasks_ok w ts \<Longrightarrow> p \<in> set (concat (map task_bufs ts)) \<Longrightarrow> \<exists>bs. heap w p = Some (O_Bytes bs)"
  using task_bufs_there unfolding tasks_ok_def by fastforce

lemma grows_kept: "(\<And>p ob. heap w p = Some ob \<Longrightarrow> heap w' p = Some ob) \<Longrightarrow> kept P w w' \<and> callers_kept w w'"
  by (auto simp: kept_def callers_kept_def)

lemma msgs_ok_grows:
  fixes w w' :: "'os world"
  assumes m: "msgs_ok w ms" and h: "\<And>p ob. heap w p = Some ob \<Longrightarrow> heap w' p = Some ob"
  shows "msgs_ok w' ms"
proof -
  have k: "ext_kept {} w w'" using h by (simp add: ext_kept_def)
  have "msg_ready w' n" "msg_out w' n = msg_out w n" if "n \<in> set ms" for n
    using msg_kept [OF _ k, of n] m that by (auto simp: msgs_ok_def)
  then show ?thesis using m by (auto simp: msgs_ok_def cong: map_cong)
qed

text \<open>The first queued task is lost, or becomes the current one.\<close>

lemma dropped_sys:
  assumes i: "rx_good I es w" "rb_inv (rx_buffer (ctx w))" "send_queue (ctx w) \<noteq> external_api_queue (ctx w)"
      "Q (send_queue (ctx w)) (os w) = Q_Task t # map Q_Task us" "Q (external_api_queue (ctx w)) (os w) = map Q_Msg ms"
      "tasks_ok w (t # us)" "msgs_ok w ms"
    and q: "\<forall>x. Q x (os u) = (if x = send_queue (ctx w) then map Q_Task us else Q x (os w))"
    and u: "heap u = heap w" "ctx u = ctx w"
  shows "sys_inv I Q u"
proof -
  have "kept in_use w u \<and> callers_kept w u" by (rule grows_kept) (simp add: u(1))
  then have k: "kept in_use w u" "\<And>s. live_task Q w s \<Longrightarrow> sync_ok w s \<Longrightarrow> sync_ok u s"
    using callers_kept_sync by blast+
  have c: "ctx u = (ctx w)\<lparr>urc_next_id := urc_next_id (ctx w)\<rparr>" using u(2) by simp
  have "urc_inv I w es" using i(1) by (auto simp: rx_good_def rx_inv_def)
  then have "urc_inv I u es" by (rule urc_inv_stable) (use u in \<open>simp_all add: links_kept_heap\<close>)
  from kept_good [OF k c i(1) this] have g: "rx_good I es u" .
  have "tasks_ok w us" using i(6) by (auto simp: tasks_ok_def)
  from kept_tasks [where Q = Q, OF k c i(1) this] have "tasks_ok u us" using i(4) by auto
  then show ?thesis
    unfolding sys_inv_def
    by (intro exI [of _ es] exI [of _ us] exI [of _ ms])
      (use g u q i msgs_ok_grows [OF i(7), of u] in simp)
qed

lemma started_sys:
  assumes i: "rx_good I es w" "rb_inv (rx_buffer (ctx w))" "send_queue (ctx w) \<noteq> external_api_queue (ctx w)"
      "Q (send_queue (ctx w)) (os w) = Q_Task t # map Q_Task us" "Q (external_api_queue (ctx w)) (os w) = map Q_Msg ms"
      "tasks_ok w (t # us)" "msgs_ok w ms"
    and q: "\<forall>x. Q x (os u) = (if x = send_queue (ctx w) then map Q_Task us else Q x (os w))"
    and u: "p \<noteq> NULL" "heap w p = None" "rx_inv I u es ip (stack_bytes ys) (Some (t\<lparr>tk_timestamp := now\<rparr>))"
      "heap u = (heap w)(p \<mapsto> O_Task (t\<lparr>tk_timestamp := now\<rparr>))" "ctx u = started p (ctx w)"
  shows "rx_good I es u" and "sys_inv I Q u"
proof -
  let ?t = "t\<lparr>tk_timestamp := now\<rparr>"
  have t: "task_ready w t" "prompt_ready w (Some t)" and d: "distinct (task_bufs t @ concat (map task_bufs us))"
    and rest: "tasks_ok w us" using i(6) by (auto simp: tasks_ok_def)
  have grow: "heap u a = Some ob" if "heap w a = Some ob" for a ob using that u(2,4) by auto
  have k: "kept in_use w u" "callers_kept w u" using grows_kept [OF grow] by auto
  have ready: "task_ready u s \<and> prompt_ready u (Some s)" if "task_ready w s" "prompt_ready w (Some s)" for s
    using that k callers_kept_sync [OF _ k(2)] keptD [OF k(1)]
    unfolding task_ready_def prompt_ready_def prompt_is_def bytes_at_def by fastforce
  have "prompt_ready u (Some ?t)" using ready [OF t] by (auto simp: prompt_ready_def prompt_is_def)
  then show good: "rx_good I es u"
    unfolding rx_good_def using u(3) by (intro exI [of _ ip] exI [of _ ys] exI [of _ "Some ?t"]) simp
  have own: "own u \<subseteq> insert p (set (task_bufs t))"
    using own_task [of u ?t] u(1,3,5) by (auto simp: rx_inv_def task_state_def started_def task_bufs_def)
  have "p \<notin> set (concat (map task_bufs us))" using tasks_bufs_there [OF rest] u(2) by fastforce
  then have "own u \<inter> set (concat (map task_bufs us)) = {}" using own d by auto
  then have "tasks_ok u us" using rest ready by (simp add: tasks_ok_def)
  then show "sys_inv I Q u"
    unfolding sys_inv_def
    by (intro exI [of _ es] exI [of _ us] exI [of _ ms])
      (use good u(5) q i msgs_ok_grows [OF i(7) grow] in \<open>simp add: started_def\<close>)
qed

lemma end_sys:
  assumes "sys_inv I Q w" and "queue_contract I Q"
  shows "\<exists>w'. command_end_handle I r w = ok w' \<and> sys_inv I Q w'"
proof -
  obtain es where g: "rx_good I es w" "rb_inv (rx_buffer (ctx w))" using assms(1) by (auto simp: sys_inv_def)
  from end_good [OF g(1), of r] obtain w' where w': "command_end_handle I r w = ok w'" "ctx w' = cleared (ctx w)" "spares I w w'"
    by blast
  have "rx_good I es' w'" if "rx_good I es' w" for es' using end_good [OF that, of r] w'(1) by auto
  moreover have "rb_inv (rx_buffer (ctx w'))" using w'(2) g(2) by (simp add: cleared_def)
  ultimately show ?thesis using sys_inv_spared [OF assms w'(3)] w'(1) by blast
qed

lemma send_sys:
  assumes "sys_inv I Q w" and Q: "queue_contract I Q"
  shows "\<exists>w'. send_msg_handle I w = ok w' \<and> sys_inv I Q w'"
proof -
  obtain es ts ms where i: "rx_good I es w" "rb_inv (rx_buffer (ctx w))" "send_queue (ctx w) \<noteq> external_api_queue (ctx w)"
      "Q (send_queue (ctx w)) (os w) = map Q_Task ts" "Q (external_api_queue (ctx w)) (os w) = map Q_Msg ms"
      "tasks_ok w ts" "msgs_ok w ms"
    using assms(1) unfolding sys_inv_def by blast
  obtain ip ys T where inv: "rx_inv I w es ip (stack_bytes ys) T" using i(1) by (auto simp: rx_good_def)
  consider t where "T = Some t" | "T = None" "ts = []" | t us where "T = None" "ts = t # us" by (cases T; cases ts) auto
  then show ?thesis
  proof cases
    case 1
    then show ?thesis using send_handle_busy current_task inv assms(1) by blast
  next
    case 2
    from send_handle_idle [OF inv [unfolded 2(1)] Q] i(4) 2(2) obtain s where
      s: "send_msg_handle I w = ok (w\<lparr>os := s\<rparr>)" "same_queues Q (os w) s" by auto
    have "msgs_ok (w\<lparr>os := s\<rparr>) ms" by (rule msgs_ok_grows [OF i(7)]) simp
    then have "sys_inv I Q (w\<lparr>os := s\<rparr>)"
      unfolding sys_inv_def using s(2) i 2(2)
      by (intro exI [of _ es] exI [of _ "[]"] exI [of _ ms]) (simp add: same_queues_def tasks_ok_def)
    then show ?thesis using s(1) by blast
  next
    case 3
    have q: "Q (send_queue (ctx w)) (os w) = Q_Task t # map Q_Task us" and ts: "tasks_ok w (t # us)" using i(4,6) 3(2) by simp_all
    then have t: "task_ready w t" by (simp add: tasks_ok_def)
    note next_sys = dropped_sys [where Q = Q, OF i(1-3) q i(5) ts i(7)] started_sys [where Q = Q, OF i(1-3) q i(5) ts i(7)]
    from send_handle_next [OF inv [unfolded 3(1)] Q q t] show ?thesis
    proof (elim exE conjE disjE)
      fix u assume "\<forall>x. Q x (os u) = (if x = send_queue (ctx w) then map Q_Task us else Q x (os w))"
        "send_msg_handle I w = ok u" "heap u = heap w" "ctx u = ctx w"
      then show ?thesis using next_sys(1) by blast
    next
      fix u p now r assume u: "\<forall>x. Q x (os u) = (if x = send_queue (ctx w) then map Q_Task us else Q x (os w))"
        "p \<noteq> NULL" "heap w p = None" "rx_inv I u es ip (stack_bytes ys) (Some (t\<lparr>tk_timestamp := now\<rparr>))"
        "heap u = (heap w)(p \<mapsto> O_Task (t\<lparr>tk_timestamp := now\<rparr>))" "ctx u = started p (ctx w)"
        "send_msg_handle I w = (if r = ATC_SUCCESS then ok u else command_end_handle I ATC_HARDWARE_ERROR u)"
      then have "sys_inv I Q u" using next_sys(3) by blast
      then show ?thesis using u(7) end_sys [OF _ Q] by (cases "r = ATC_SUCCESS") auto
    qed
  qed
qed

text \<open>An iteration of the loop.\<close>

lemma process_sys:
  assumes "sys_inv I Q w" and Q: "queue_contract I Q"
  shows "\<exists>w'. process_step I w = ok w' \<and> sys_inv I Q w'"
proof -
  obtain a where a: "extern_msg_handle I w = ok a" "sys_inv I Q a" using extern_sys [OF assms] by blast
  obtain b where b: "send_msg_handle I a = ok b" "sys_inv I Q b" using send_sys [OF a(2) Q] by blast
  obtain c where c: "recv_data_handle I b = ok c" "sys_inv I Q c" using recv_sys [OF b(2) Q] by blast
  obtain d where d: "check_send_timeout I c = ok d" "sys_inv I Q d" using timeout_sys [OF c(2) Q] by blast
  obtain e where e: "wait_step I d = ok e" "sys_inv I Q e" using wait_sys [OF d(2) Q] by blast
  show ?thesis using a b c d e by (simp add: process_step_def)
qed

end
