(* ===== verification/System.thy ===== *)
theory System
  imports Loop_Safety
begin

text \<open>
  The event loop among the interrupt and the other threads: a step relation whose steps are
  the handlers of the loop, in their order, and between them whatever may happen elsewhere.
\<close>

section \<open>The loop as a state machine\<close>

datatype pc = At_Extern | At_Send | At_Recv | At_Timeout | At_Wait

fun run_handler :: "pc \<Rightarrow> 'os atc_interface \<Rightarrow> 'os world \<Rightarrow> 'os world res" where
  "run_handler At_Extern I w = extern_msg_handle I w"
| "run_handler At_Send I w = send_msg_handle I w"
| "run_handler At_Recv I w = recv_data_handle I w"
| "run_handler At_Timeout I w = check_send_timeout I w"
| "run_handler At_Wait I w = wait_step I w"

fun next_pc :: "pc \<Rightarrow> pc" where
  "next_pc At_Extern = At_Send"
| "next_pc At_Send = At_Recv"
| "next_pc At_Recv = At_Timeout"
| "next_pc At_Timeout = At_Wait"
| "next_pc At_Wait = At_Extern"

lemma handler_sys:
  assumes "sys_inv I Q w" and "queue_contract I Q"
  shows "\<exists>w'. run_handler p I w = ok w' \<and> sys_inv I Q w'"
  using extern_sys [OF assms] send_sys [OF assms] recv_sys [OF assms] timeout_sys [OF assms] wait_sys [OF assms]
  by (cases p) simp_all

section \<open>What happens elsewhere\<close>

text \<open>A message as \<open>atc_urc_register\<close> and \<open>atc_urc_unregister\<close> leave it in the queue.\<close>

definition message_queued :: "(addr \<Rightarrow> 'os \<Rightarrow> qitem list) \<Rightarrow> msg \<Rightarrow> 'os world \<Rightarrow> 'os world \<Rightarrow> bool" where
  "message_queued Q m w w' \<longleftrightarrow> msg_ready w' m \<and> heap w (ms_data m) = None \<and> heap w (msg_out w' m) = None \<and>
     (\<forall>p. p \<noteq> ms_data m \<longrightarrow> p \<noteq> msg_out w' m \<longrightarrow> heap w' p = heap w p) \<and> ctx w' = ctx w \<and>
     (\<forall>q. Q q (os w') = Q q (os w) @ (if q = external_api_queue (ctx w) then [Q_Msg m] else [])) \<and>
     threads_emit w w'"

text \<open>
  The callers' variables that the event loop may still write: those of the current command,
  of the queued ones and of the queued messages.  Threads may do what they like with the
  others, and may write these as long as they stay what they are.
\<close>

definition waited :: "(addr \<Rightarrow> 'os \<Rightarrow> qitem list) \<Rightarrow> 'os world \<Rightarrow> addr \<Rightarrow> bool" where
  "waited Q w p \<longleftrightarrow> (\<exists>t. live_task Q w t \<and> p \<in> caller_cells t) \<or>
     (\<exists>m. Q_Msg m \<in> set (Q (external_api_queue (ctx w)) (os w)) \<and> p = msg_out w m)"

definition threads_run :: "(addr \<Rightarrow> 'os \<Rightarrow> qitem list) \<Rightarrow> 'os world \<Rightarrow> 'os world \<Rightarrow> bool" where
  "threads_run Q w w' \<longleftrightarrow> kept (\<lambda>ob. \<not> is_caller ob) w w' \<and> ctx w' = ctx w \<and> same_queues Q (os w) (os w') \<and>
     (\<forall>p ob. waited Q w p \<longrightarrow> heap w p = Some ob \<longrightarrow> same_kind ob (heap w' p)) \<and> threads_emit w w'"

text \<open>
  \<open>allowed\<close> says which commands threads queue.  The calls accept any; but a command with a prompt
  and with \<open>recv_len = 0\<close>, which \<open>ATCortex.h\<close> documents as the way to ask for no data, makes the
  loop read through a null pointer when its prompt is recognised (\<open>prompt_without_data_crashes\<close>).
  What is proved of the loop is therefore proved of threads whose commands with a prompt all
  expect data after it (\<open>expects_data\<close>), and says so in its hypotheses.
\<close>

definition expects_data :: "send_task \<Rightarrow> bool" where
  "expects_data t \<longleftrightarrow> (tk_status t = SEND_TASK_STATUS_PROMPT \<longrightarrow> tk_need_recv_len t \<noteq> 0)"

inductive elsewhere ::
  "'os atc_interface \<Rightarrow> (addr \<Rightarrow> 'os \<Rightarrow> qitem list) \<Rightarrow> (send_task \<Rightarrow> bool) \<Rightarrow> 'os world \<Rightarrow> 'os world \<Rightarrow> bool"
  for I Q allowed where
  received: "atc_receive_data I (Some bs) len w = ok (n, w') \<Longrightarrow> unat len \<le> length bs \<Longrightarrow> elsewhere I Q allowed w w'"
| command: "command_queued Q bs timeout h t w w' \<Longrightarrow> tk_status t = SEND_TASK_STATUS_PROMPT \<longrightarrow> (\<exists>p. prompt_is w' t p) \<Longrightarrow>
    allowed t \<Longrightarrow> elsewhere I Q allowed w w'"
| message: "message_queued Q m w w' \<Longrightarrow> elsewhere I Q allowed w w'"
| threads: "threads_run Q w w' \<Longrightarrow> elsewhere I Q allowed w w'"

inductive reachable ::
  "'os atc_interface \<Rightarrow> (addr \<Rightarrow> 'os \<Rightarrow> qitem list) \<Rightarrow> (send_task \<Rightarrow> bool) \<Rightarrow> 'os world \<Rightarrow> pc \<Rightarrow> 'os world \<Rightarrow> bool"
  for I Q allowed w0 where
  start: "reachable I Q allowed w0 At_Extern w0"
| handler: "reachable I Q allowed w0 p w \<Longrightarrow> run_handler p I w = ok w' \<Longrightarrow> reachable I Q allowed w0 (next_pc p) w'"
| elsewhere: "reachable I Q allowed w0 p w \<Longrightarrow> elsewhere I Q allowed w w' \<Longrightarrow> reachable I Q allowed w0 p w'"

section \<open>The invariant elsewhere\<close>

lemma within_give_isr [within_os]: "os_keeps R I \<Longrightarrow> R s (os w) \<Longrightarrow> within R s (os_sem_give_isr I p w)"
proof -
  assume a: "os_keeps R I" "R s (os w)"
  have "R (os w) (os w')" if "os_sem_give_isr I p w = ok w'" for w'
    using a(1) that by (auto simp: os_keeps_def os_sem_give_isr_def call_def split: option.splits prod.splits) (metis snd_conv)
  then show ?thesis using a os_keeps_trans unfolding within_def by metis
qed

lemma receive_data_os: "os_keeps R I \<Longrightarrow> R s (os w) \<Longrightarrow> withinp R s (atc_receive_data I data len w)"
  unfolding atc_receive_data_def Let_def
  by (rule within_os | assumption | simp only: split_paired_all prod.case | simp)+

text \<open>Another state with the same heap and, the ring apart, the same context.\<close>

lemma rx_good_ring:
  assumes g: "rx_good I es w" and v: "heap v = heap w" "ctx v = (ctx w)\<lparr>rx_buffer := h\<rparr>"
  shows "rx_good I es v"
proof -
  have g': "rx_good I es (with_rx h w)" using g by simp
  then have "urc_inv I (with_rx h w) es" by (auto simp: rx_good_def rx_inv_def)
  then have u: "urc_inv I v es" by (rule urc_inv_stable) (use v in \<open>simp_all add: links_kept_heap\<close>)
  have k: "kept in_use (with_rx h w) v" "ctx v = (ctx (with_rx h w))\<lparr>urc_next_id := urc_next_id (ctx w)\<rparr>"
    using v by (simp_all add: kept_heap)
  show ?thesis
    by (rule kept_good [OF k(1) _ k(2) g' u, where Q = "\<lambda>q s. []"]) (use v in \<open>simp add: sync_ok_def\<close>)
qed

lemma received_sys:
  assumes "sys_inv I Q w" and Q: "queue_contract I Q"
    and run: "atc_receive_data I (Some bs) len w = ok (n, w')" and len: "unat len \<le> length bs"
  shows "sys_inv I Q w'"
proof (cases "len = 0")
  case True
  then show ?thesis using assms(1) run by (simp add: atc_receive_data_def)
next
  case False
  obtain es where es: "rx_good I es w" "rb_inv (rx_buffer (ctx w))" using assms(1) by (auto simp: sys_inv_def)
  have I: "complete I" using es(1) rx_inv_interface unfolding rx_good_def by blast
  have "0 < unat len" using False by (simp add: unat_gt_0)
  from atc_receive_data_ok [OF I es(2) this len] run obtain h where
    h: "ctx w' = (ctx w)\<lparr>rx_buffer := h\<rparr>" "heap w' = heap w" "rb_inv h" by auto
  have "os_steps I (os w) (os w')"
  proof (rule os_stepsI)
    fix R assume R: "os_keeps R I"
    show "R (os w) (os w')" using receive_data_os [OF R os_keeps_refl [OF R], of w "Some bs" len] run by (simp add: withinp_def)
  qed
  then have "spares I w w'" using h by (simp add: spares_def callers_kept_heap own_def Let_def)
  then show ?thesis
    by (rule sys_inv_spared [OF assms(1,2)]) (use h rx_good_ring in auto)
qed

lemma sys_invE:
  assumes "sys_inv I Q w"
  obtains es ts ms where "rx_good I es w" "rb_inv (rx_buffer (ctx w))" "send_queue (ctx w) \<noteq> external_api_queue (ctx w)"
    "Q (send_queue (ctx w)) (os w) = map Q_Task ts" "Q (external_api_queue (ctx w)) (os w) = map Q_Msg ms"
    "tasks_ok w ts" "msgs_ok w ms" "urc_inv I w es"
  using assms unfolding sys_inv_def by (auto simp: rx_good_def rx_inv_def)

lemma grows_sys:
  assumes g: "rx_good I es w" "urc_inv I w es" and h: "\<And>p ob. heap w p = Some ob \<Longrightarrow> heap w' p = Some ob" "ctx w' = ctx w"
    and t: "tasks_ok w ts" "Q_Task ` set ts \<subseteq> set (Q (send_queue (ctx w)) (os w))"
  shows "rx_good I es w'" and "tasks_ok w' ts" and "own w' = own w"
proof -
  have k: "kept in_use w w'" "links_kept (fst ` set es) w w'" using h(1) by (auto simp: kept_def links_kept_def)
  have s: "\<And>t. live_task Q w t \<Longrightarrow> sync_ok w t \<Longrightarrow> sync_ok w' t"
    using sync_ok_mono [of w _ w'] h(1) by metis
  have c: "ctx w' = (ctx w)\<lparr>urc_next_id := urc_next_id (ctx w)\<rparr>" using h(2) by simp
  have "urc_inv I w' es" by (rule urc_inv_stable [OF g(2)]) (use k(2) h(2) in simp_all)
  from kept_good [where Q = Q, OF k(1) s c g(1) this] show "rx_good I es w'" .
  from kept_tasks [where Q = Q, OF k(1) s c g(1) t] show "tasks_ok w' ts" .
  obtain ip ys T where "rx_inv I w es ip (stack_bytes ys) T" using g(1) by (auto simp: rx_good_def)
  from kept_in_use(4) [OF k(1) s c this] show "own w' = own w" .
qed

lemma command_sys:
  assumes "sys_inv I Q w" and c: "command_queued Q bs timeout h t w w'" and p: "prompt_ready w' (Some t)"
  shows "sys_inv I Q w'"
proof -
  obtain es ts ms where i: "rx_good I es w" "rb_inv (rx_buffer (ctx w))" "send_queue (ctx w) \<noteq> external_api_queue (ctx w)"
    "Q (send_queue (ctx w)) (os w) = map Q_Task ts" "Q (external_api_queue (ctx w)) (os w) = map Q_Msg ms"
    "tasks_ok w ts" "msgs_ok w ms" "urc_inv I w es" using sys_invE [OF assms(1)] .
  have t: "task_ready w' t" "heap w (tk_data t) = None" "tk_prompt t \<noteq> NULL \<longrightarrow> heap w (tk_prompt t) = None" "ctx w' = ctx w"
      "\<forall>p. p \<noteq> tk_data t \<longrightarrow> p \<noteq> tk_prompt t \<or> p = NULL \<longrightarrow> heap w' p = heap w p"
      "\<forall>q. Q q (os w') = Q q (os w) @ (if q = send_queue (ctx w) then [Q_Task t] else [])"
    using c by (simp_all add: command_queued_def)
  have grow: "heap w' a = Some ob" if "heap w a = Some ob" for a ob
  proof -
    have "a \<noteq> tk_data t" "a \<noteq> tk_prompt t \<or> a = NULL" using that t(2,3) by auto
    then show ?thesis using that t(5) by simp
  qed
  have q: "Q_Task ` set ts \<subseteq> set (Q (send_queue (ctx w)) (os w))" using i(4) by auto
  note g = grows_sys [where Q = Q, OF i(1,8) grow t(4) i(6) q]
  have new: "heap w a = None" if "a \<in> set (task_bufs t)" for a
    using that t(2,3) by (auto simp: task_bufs_def split: if_splits)
  have "distinct (task_bufs t)" using t(1) by (auto simp: task_bufs_def task_ready_def)
  moreover have "set (concat (map task_bufs ts)) \<inter> set (task_bufs t) = {}"
    using tasks_bufs_there [OF i(6)] new by fastforce
  moreover have "own w \<inter> set (task_bufs t) = {}" using own_kinds [OF i(1)] new by fastforce
  ultimately have "tasks_ok w' (ts @ [t])"
    using g(2,3) t(1) p by (auto simp: tasks_ok_def)
  then show ?thesis
    unfolding sys_inv_def
    by (intro exI [of _ es] exI [of _ "ts @ [t]"] exI [of _ ms] conjI)
      (use i t(4,6) g(1) msgs_ok_grows [OF i(7) grow] in simp_all)
qed

lemma message_sys:
  assumes "sys_inv I Q w" and m: "message_queued Q m w w'"
  shows "sys_inv I Q w'"
proof -
  obtain es ts ms where i: "rx_good I es w" "rb_inv (rx_buffer (ctx w))" "send_queue (ctx w) \<noteq> external_api_queue (ctx w)"
    "Q (send_queue (ctx w)) (os w) = map Q_Task ts" "Q (external_api_queue (ctx w)) (os w) = map Q_Msg ms"
    "tasks_ok w ts" "msgs_ok w ms" "urc_inv I w es" using sys_invE [OF assms(1)] .
  have grow: "heap w' a = Some ob" if "heap w a = Some ob" for a ob
    using that m unfolding message_queued_def by (metis option.distinct(1))
  have c: "ctx w' = ctx w" using m by (simp add: message_queued_def)
  have q: "Q_Task ` set ts \<subseteq> set (Q (send_queue (ctx w)) (os w))" using i(4) by auto
  note g = grows_sys [where Q = Q, OF i(1,8) grow c i(6) q]
  have old: "msgs_ok w' ms" by (rule msgs_ok_grows [OF i(7) grow])
  have out: "msg_out w' n = msg_out w n" if "n \<in> set ms" for n
    using msg_kept(2) [of w n "{}" w'] i(7) that grow by (simp add: msgs_ok_def ext_kept_def)
  have there: "heap w (ms_data n) \<noteq> None" "heap w (msg_out w n) \<noteq> None" if "n \<in> set ms" for n
    using msg_ready_kinds [of w n] i(7) that by (auto simp: msgs_ok_def)
  have "ms_data m \<notin> ms_data ` set ms" using there(1) m by (force simp: message_queued_def)
  moreover have "msg_out w' m \<notin> msg_out w' ` set ms" using there(2) out m by (force simp: message_queued_def)
  ultimately have "msgs_ok w' (ms @ [m])" using old m by (auto simp: msgs_ok_def message_queued_def)
  then show ?thesis
    unfolding sys_inv_def
    by (intro exI [of _ es] exI [of _ ts] exI [of _ "ms @ [m]"] conjI)
      (use i c g(1,2) m in \<open>simp_all add: message_queued_def\<close>)
qed

lemma threads_sys:
  assumes "sys_inv I Q w" and r: "threads_run Q w w'"
  shows "sys_inv I Q w'"
proof -
  obtain es ts ms where i: "rx_good I es w" "rb_inv (rx_buffer (ctx w))" "send_queue (ctx w) \<noteq> external_api_queue (ctx w)"
    "Q (send_queue (ctx w)) (os w) = map Q_Task ts" "Q (external_api_queue (ctx w)) (os w) = map Q_Msg ms"
    "tasks_ok w ts" "msgs_ok w ms" "urc_inv I w es" using sys_invE [OF assms(1)] .
  have c: "ctx w' = ctx w" "ctx w' = (ctx w)\<lparr>urc_next_id := urc_next_id (ctx w)\<rparr>" and q: "same_queues Q (os w) (os w')"
      and k: "\<And>p ob. heap w p = Some ob \<Longrightarrow> \<not> is_caller ob \<Longrightarrow> heap w' p = Some ob"
      and d: "\<And>p ob. waited Q w p \<Longrightarrow> heap w p = Some ob \<Longrightarrow> same_kind ob (heap w' p)"
    using r by (auto simp: threads_run_def kept_def)
  have in_use: "kept in_use w w'" unfolding kept_def using k by (metis in_use.simps(5-) is_caller.elims(2) in_use.elims(2) is_caller.simps)
  have s: "\<And>t. live_task Q w t \<Longrightarrow> sync_ok w t \<Longrightarrow> sync_ok w' t"
    using sync_ok_kinds [of w _ w'] d by (metis waited_def)
  have "kept is_table w w'" unfolding kept_def using k by (metis is_caller.elims(2) is_table.simps is_link.simps)
  then have u: "urc_inv I w' es" by (rule kept_table_inv [OF i(8)]) (use c in simp_all)
  have m: "msg_ready w' n \<and> msg_out w' n = msg_out w n" if n: "n \<in> set ms" for n
  proof -
    have n': "msg_ready w n" "Q_Msg n \<in> set (Q (external_api_queue (ctx w)) (os w))" using i(5,7) n by (auto simp: msgs_ok_def)
    have h: "heap w' (ms_data n) = heap w (ms_data n)" using msg_ready_kinds(1) [OF n'(1)] k by force
    have o: "msg_out w' n = msg_out w n" using h by (simp add: msg_out_def)
    have "waited Q w (msg_out w n)" using n'(2) by (auto simp: waited_def)
    note d [OF this]
    then show ?thesis using n'(1) h o unfolding msg_ready_def by fastforce
  qed
  then have "msgs_ok w' ms" using i(7) by (auto simp: msgs_ok_def cong: map_cong)
  moreover have "tasks_ok w' ts" by (rule kept_tasks [OF in_use s c(2) i(1,6)]) (use i(4) in auto)
  ultimately show ?thesis
    unfolding sys_inv_def
    by (intro exI [of _ es] exI [of _ ts] exI [of _ ms] conjI)
      (use i c(1) q kept_good [OF in_use s c(2) i(1) u] in \<open>simp_all add: same_queues_def\<close>)
qed

lemma expects_ready: "expects_data t \<Longrightarrow> tk_status t = SEND_TASK_STATUS_PROMPT \<longrightarrow> (\<exists>p. prompt_is w t p) \<Longrightarrow> prompt_ready w (Some t)"
  by (simp add: expects_data_def prompt_ready_def)

lemma elsewhere_sys:
  "elsewhere I Q allowed w w' \<Longrightarrow> sys_inv I Q w \<Longrightarrow> queue_contract I Q \<Longrightarrow> \<forall>t. allowed t \<longrightarrow> expects_data t \<Longrightarrow> sys_inv I Q w'"
proof (induction rule: elsewhere.induct)
  case (received bs len w n w')
  show ?case by (rule received_sys [OF received(3,4,1,2)])
next
  case (command bs timeout h t w w')
  then show ?case using expects_ready command_sys [OF command(4,1)] by blast
next
  case (message m w w')
  show ?case by (rule message_sys [OF message(2,1)])
next
  case (threads w w')
  show ?case by (rule threads_sys [OF threads(2,1)])
qed

lemma reachable_sys:
  "reachable I Q allowed w0 p w \<Longrightarrow> sys_inv I Q w0 \<Longrightarrow> queue_contract I Q \<Longrightarrow> \<forall>t. allowed t \<longrightarrow> expects_data t \<Longrightarrow> sys_inv I Q w"
proof (induction rule: reachable.induct)
  case (handler p w w')
  then show ?case using handler_sys [of I Q w p] by auto
next
  case (elsewhere p w w')
  then show ?case using elsewhere_sys by blast
qed

end
