(* ===== verification/Loop_Props.thy ===== *)
theory Loop_Props
  imports System
begin

text \<open>
  What the event loop as a whole guarantees, and what it does not: initialisation, safety of
  every interleaving, the timeout, a command from the call that queues it to its response, and
  the queued command that nobody wakes the loop for.
\<close>

section \<open>Initialisation\<close>

text \<open>Creating a queue changes the contents of none.\<close>

definition create_contract :: "'os atc_interface \<Rightarrow> (addr \<Rightarrow> 'os \<Rightarrow> qitem list) \<Rightarrow> bool" where
  "create_contract I Q \<longleftrightarrow> (\<forall>f n m s. atc_queue_create I = Some f \<longrightarrow> same_queues Q s (snd (f n m s)))"

text \<open>A zeroed context, as far as initialisation relies on it.\<close>

definition zeroed :: "atc_context \<Rightarrow> bool" where
  "zeroed c \<longleftrightarrow> urc_handler_list c = NULL \<and> current_send_task c = NULL \<and> length (line_buffer c) = 256 \<and>
     line_buffer_index c = 0 \<and> response c = replicate 512 0 \<and> response_length c = 0"

lemma queue_created:
  assumes "complete I" and "create_contract I Q"
  shows "\<exists>q s. os_queue_create I n m w = ok (q, w\<lparr>os := s\<rparr>) \<and> same_queues Q (os w) s"
proof -
  obtain f where f: "atc_queue_create I = Some f" using assms(1) by (auto simp: complete_def)
  obtain q s where "f n m (os w) = (q, s)" by (cases "f n m (os w)")
  then show ?thesis using f assms(2) unfolding create_contract_def by (auto simp: os_queue_create_def) (metis snd_conv)
qed

lemma stack_create_os [within_os]: "os_keeps R I \<Longrightarrow> R s (os w) \<Longrightarrow> withinp R s (stack_create I n w)"
  unfolding stack_create_def by (rule within_os | assumption | simp)+

lemma slist_create_os [within_os]: "os_keeps R I \<Longrightarrow> R s (os w) \<Longrightarrow> withinp R s (slist_create I fn w)"
  unfolding slist_create_def by (rule within_os | assumption | simp)+

lemma urc_init_os: "os_keeps R I \<Longrightarrow> R s (os w) \<Longrightarrow> withinp R s (urc_init I w)"
  unfolding urc_init_def Let_def by (rule within_os | assumption | simp)+

text \<open>The ring and the prompt stack.\<close>

lemma recv_init_ok:
  assumes I: "complete I" "malloc_fresh I" and buf: "2 \<le> length buf" "length buf < 2 ^ 32" and w: "heap w NULL = None"
    and k: "os_keeps R I"
  shows "\<exists>r w' h s. recv_data_init I buf w = ok (r, w') \<and> ctx w' = (ctx w)\<lparr>rx_buffer := h, byte_stack := s\<rparr> \<and>
    rb_inv h \<and> rb_contents h = [] \<and> R (os w) (os w') \<and>
    (if r = ATC_SUCCESS then \<exists>ip. stack_rep w' s ip 20 [] else r = ATC_ERROR)"
proof -
  have "length buf = unat (of_nat (length buf) :: u32)" "2 \<le> unat (of_nat (length buf) :: u32)"
    using buf by (simp_all add: unat_of_nat take_bit_nat_eq_self)
  from ring_buffer_init_inv [OF this, of "rx_buffer (ctx w)"] obtain h where h:
    "ring_buffer_init (Some (rx_buffer (ctx w))) (Some buf) (of_nat (length buf)) = (1, Some h)" "rb_inv h" "rb_contents h = []"
    by blast
  have os: "withinp R (os w) (stack_create I 20 (with_rx h w))"
    using os_keeps_refl [OF k] by (intro stack_create_os [OF k]) simp
  have n: "ATC_PROMPT_STACK_MAX_DEPTH = 20" by (simp add: atc_constants)
  from stack_create_rep [OF I, of 20 "with_rx h w"] w consider
      (no) v where "stack_create I 20 (with_rx h w) = ok (NULL, v)" "ctx v = ctx (with_rx h w)"
    | (yes) v s ip where "stack_create I 20 (with_rx h w) = ok (s, v)" "stack_rep v s ip 20 []" "ctx v = ctx (with_rx h w)"
    by fastforce
  then show ?thesis
  proof cases
    case no
    then show ?thesis using h os n
      by (intro exI [of _ ATC_ERROR] exI [of _ "upd_ctx (\<lambda>c. c\<lparr>byte_stack := NULL\<rparr>) v"] exI [of _ h] exI [of _ NULL])
        (auto simp: recv_data_init_def Let_def withinp_def I(1))
  next
    case yes
    then have "s \<noteq> NULL" by (simp add: stack_rep_def)
    then show ?thesis using yes h os n
      by (intro exI [of _ ATC_SUCCESS] exI [of _ "upd_ctx (\<lambda>c. c\<lparr>byte_stack := s\<rparr>) v"] exI [of _ h] exI [of _ s])
        (auto simp: recv_data_init_def Let_def withinp_def stack_rep_def)
  qed
qed

lemma ext_queue_init_ok:
  assumes "complete I" and "create_contract I Q"
  shows "\<exists>r w' q. extern_msg_queue_init I w = ok (r, w') \<and> heap w' = heap w \<and> ctx w' = (ctx w)\<lparr>external_api_queue := q\<rparr> \<and>
    same_queues Q (os w) (os w') \<and> (if r = ATC_SUCCESS then q \<noteq> NULL else r = ATC_ERROR)"
proof -
  obtain q s where "os_queue_create I 5 sizeof_msg w = ok (q, w\<lparr>os := s\<rparr>)" "same_queues Q (os w) s"
    using queue_created [OF assms] by blast
  then show ?thesis using assms(1)
    by (cases "q = NULL") (auto simp: extern_msg_queue_init_def Let_def intro!: exI [of _ q])
qed

lemma send_queue_init_ok:
  assumes "complete I" and "create_contract I Q"
  shows "\<exists>r w' q. send_msg_queue_init I w = ok (r, w') \<and> heap w' = heap w \<and> ctx w' = (ctx w)\<lparr>send_queue := q\<rparr> \<and>
    same_queues Q (os w) (os w') \<and> (if r = ATC_SUCCESS then q \<noteq> NULL else r = ATC_ERROR)"
proof -
  obtain q s where "os_queue_create I 6 sizeof_send_task w = ok (q, w\<lparr>os := s\<rparr>)" "same_queues Q (os w) s"
    using queue_created [OF assms] by blast
  then show ?thesis using assms(1)
    by (cases "q = NULL") (auto simp: send_msg_queue_init_def Let_def intro!: exI [of _ q])
qed

text \<open>The parts together: the invariant of the receive path, with no handler registered.\<close>

lemma init_good:
  assumes u: "urc_inv I w []" and st: "stack_rep w (byte_stack (ctx w)) ip 20 []"
    and c: "buf_ok (ctx w)" "resp_text (ctx w)" "current_send_task (ctx w) = NULL"
  shows "rx_good I [] w"
proof -
  have "rx_inv I w [] ip [] None" using assms by (simp add: rx_inv_def task_state_def)
  then show ?thesis by (intro rx_goodI [of _ _ _ ip "[]" None]) (simp_all add: prompt_ready_def)
qed

lemma init_ok:
  assumes I: "complete I" "malloc_fresh I" and Q: "queue_contract I Q" "create_contract I Q" and buf: "length buf = 256"
    and w: "heap w NULL = None" "zeroed (ctx w)" "\<And>q. Q q (os w) = []"
  shows "\<exists>r w'. atc_init I c buf w = ok (r, w') \<and>
    (if r = ATC_SUCCESS
     then rx_good I [] w' \<and> rb_inv (rx_buffer (ctx w')) \<and> rb_contents (rx_buffer (ctx w')) = [] \<and>
       send_queue (ctx w') \<noteq> NULL \<and> external_api_queue (ctx w') \<noteq> NULL \<and> wake_semaphore (ctx w') \<noteq> NULL \<and>
       (\<forall>q. Q q (os w') = [])
     else r = ATC_ERROR)"
proof -
  note keep = queue_contract_keeps [OF Q(1)]
  from recv_init_ok [OF I _ _ w(1) keep, of buf] buf obtain r1 w1 h s where r1: "recv_data_init I buf w = ok (r1, w1)"
      "ctx w1 = (ctx w)\<lparr>rx_buffer := h, byte_stack := s\<rparr>" "rb_inv h" "rb_contents h = []" "same_queues Q (os w) (os w1)"
      "if r1 = ATC_SUCCESS then \<exists>ip. stack_rep w1 s ip 20 [] else r1 = ATC_ERROR" by auto
  obtain r2 w2 q2 where r2: "extern_msg_queue_init I w1 = ok (r2, w2)" "heap w2 = heap w1"
      "ctx w2 = (ctx w1)\<lparr>external_api_queue := q2\<rparr>" "same_queues Q (os w1) (os w2)"
      "if r2 = ATC_SUCCESS then q2 \<noteq> NULL else r2 = ATC_ERROR" using ext_queue_init_ok [OF I(1) Q(2)] by blast
  obtain r3 w3 q3 where r3: "send_msg_queue_init I w2 = ok (r3, w3)" "heap w3 = heap w2"
      "ctx w3 = (ctx w2)\<lparr>send_queue := q3\<rparr>" "same_queues Q (os w2) (os w3)"
      "if r3 = ATC_SUCCESS then q3 \<noteq> NULL else r3 = ATC_ERROR" using send_queue_init_ok [OF I(1) Q(2)] by blast
  have free: "urc_handler_list (ctx w3) = NULL" using w(2) r1(2) r2(3) r3(3) by (simp add: zeroed_def)
  from urc_init_ok [OF I free] obtain r4 w4 where r4: "urc_init I w3 = ok (r4, w4)" "keeps {} w3 w4"
      "ctx w4 = (ctx w3)\<lparr>urc_handler_list := urc_handler_list (ctx w4), urc_next_id := urc_next_id (ctx w4)\<rparr>"
      "if r4 = ATC_SUCCESS then urc_inv I w4 [] else r4 = ATC_ERROR"
    by (metis (no_types, lifting))
  then obtain l i where c4: "ctx w4 = (ctx w3)\<lparr>urc_handler_list := l, urc_next_id := i\<rparr>" by blast
  have o4: "same_queues Q (os w3) (os w4)"
    using urc_init_os [OF keep os_keeps_refl [OF keep], of w3] r4(1) by (simp add: withinp_def)
  obtain sem s5 where q5: "os_sem_create I w4 = ok (sem, w4\<lparr>os := s5\<rparr>)" "\<And>R. os_keeps R I \<Longrightarrow> R (os w4) s5"
    using sem_create_ok [OF I(1)] by blast
  let ?w5 = "upd_ctx (\<lambda>c. c\<lparr>wake_semaphore := sem\<rparr>) (w4\<lparr>os := s5\<rparr>)"
  note runs = r1(1) r2(1) r3(1) r4(1) q5(1)
  show ?thesis
  proof (cases "r1 = ATC_SUCCESS \<and> r2 = ATC_SUCCESS \<and> r3 = ATC_SUCCESS \<and> r4 = ATC_SUCCESS \<and> sem \<noteq> NULL")
    case False
    then show ?thesis using runs I(1) by (auto simp: atc_init_def Let_def)
  next
    case True
    then obtain ip where st: "stack_rep w1 s ip 20 []" using r1(6) by auto
    have run: "atc_init I c buf w = ok (ATC_SUCCESS, ?w5)" using True runs I(1) by (simp add: atc_init_def Let_def)
    have c: "ctx ?w5 = (ctx w)\<lparr>rx_buffer := h, byte_stack := s, external_api_queue := q2, send_queue := q3,
        urc_handler_list := l, urc_next_id := i, wake_semaphore := sem\<rparr>"
      by (simp add: r1(2) r2(3) r3(3) c4)
    have "heap w4 p = Some ob" if "heap w3 p = Some ob" "is_stack ob" for p ob
      using keepsD [OF r4(2) that(1)] that(2) by (cases ob) auto
    then have "kept is_stack w1 ?w5" using r2(2) r3(2) by (simp add: kept_def)
    from kept_stack_rep [OF st this] have sr: "stack_rep ?w5 (byte_stack (ctx ?w5)) ip 20 []" using c by simp
    have ui: "urc_inv I ?w5 []"
      by (rule urc_inv_stable [of I w4]) (use r4(4) True in \<open>simp_all add: links_kept_heap\<close>)
    have "rx_good I [] ?w5" by (rule init_good [OF ui sr]) (use w(2) c in \<open>simp_all add: zeroed_def buf_ok_def resp_text_def\<close>)
    moreover have "\<forall>q. Q q (os ?w5) = []"
      using w(3) r1(5) r2(4) r3(4) o4 q5(2) [OF keep] by (simp add: same_queues_def)
    ultimately show ?thesis using run c r1(3,4) r2(5) r3(5) True by (intro exI conjI) auto
  qed
qed

section \<open>A command from end to end\<close>

lemma rx_inv_grows:
  assumes inv: "rx_inv I w es ip xs T" and h: "\<And>p ob. heap w p = Some ob \<Longrightarrow> heap w' p = Some ob" and c: "ctx w' = ctx w"
  shows "rx_inv I w' es ip xs T"
proof -
  have k: "kept in_use w w'" "links_kept (fst ` set es) w w'" using h by (auto simp: kept_def links_kept_def)
  have s: "\<And>t. sync_ok w t \<Longrightarrow> sync_ok w' t" using sync_ok_mono [of w _ w'] h by metis
  have c': "ctx w' = (ctx w)\<lparr>urc_next_id := urc_next_id (ctx w)\<rparr>" using c by simp
  have "urc_inv I w' es" by (rule urc_inv_stable [of I w]) (use inv k(2) c in \<open>simp_all add: rx_inv_def\<close>)
  then show ?thesis using kept_in_use(1) [OF k(1) s c' inv, where live = "\<lambda>t. True"] by simp
qed

text \<open>When the next task has become the current one, its bytes have been sent.\<close>

lemma send_started:
  assumes inv: "rx_inv I w es ip xs None" and Q: "queue_contract I Q"
    and q: "Q (send_queue (ctx w)) (os w) = Q_Task t # rest" and t: "task_ready w t"
    and start: "send_msg_handle I w = ok w2" "current_send_task (ctx w2) \<noteq> NULL"
  shows "\<exists>p now. rx_inv I w2 es ip xs (Some (t\<lparr>tk_timestamp := now\<rparr>)) \<and> ctx w2 = started p (ctx w) \<and>
    trace w2 = trace w @ [Ev_Send (task_bytes w t) ATC_SUCCESS] \<and>
    heap w p = None \<and> heap w2 = (heap w)(p \<mapsto> O_Task (t\<lparr>tk_timestamp := now\<rparr>)) \<and>
    (\<forall>x. Q x (os w2) = (if x = send_queue (ctx w) then rest else Q x (os w)))"
proof -
  from send_handle_next [OF inv Q q t] obtain u where u: "\<forall>x. Q x (os u) = (if x = send_queue (ctx w) then rest else Q x (os w))"
    "send_msg_handle I w = ok u \<and> heap u = heap w \<and> ctx u = ctx w \<and> trace u = trace w \<or>
     (\<exists>p now r. p \<noteq> NULL \<and> heap w p = None \<and> rx_inv I u es ip xs (Some (t\<lparr>tk_timestamp := now\<rparr>)) \<and>
        heap u = (heap w)(p \<mapsto> O_Task (t\<lparr>tk_timestamp := now\<rparr>)) \<and> ctx u = started p (ctx w) \<and>
        trace u = trace w @ [Ev_Send (task_bytes w t) r] \<and>
        send_msg_handle I w = (if r = ATC_SUCCESS then ok u else command_end_handle I ATC_HARDWARE_ERROR u))" by blast
  from u(2) show ?thesis
  proof (elim disjE exE conjE)
    assume "send_msg_handle I w = ok u" "ctx u = ctx w"
    then show ?thesis using start no_task [OF inv] by simp
  next
    fix p now r
    assume a: "rx_inv I u es ip xs (Some (t\<lparr>tk_timestamp := now\<rparr>))" "ctx u = started p (ctx w)"
      "trace u = trace w @ [Ev_Send (task_bytes w t) r]"
      "heap w p = None" "heap u = (heap w)(p \<mapsto> O_Task (t\<lparr>tk_timestamp := now\<rparr>))"
      "send_msg_handle I w = (if r = ATC_SUCCESS then ok u else command_end_handle I ATC_HARDWARE_ERROR u)"
    have r: "r = ATC_SUCCESS"
    proof (rule ccontr)
      assume "r \<noteq> ATC_SUCCESS"
      then have "command_end_handle I ATC_HARDWARE_ERROR u = ok w2" using a(6) start(1) by simp
      then show False using rx_end_ok [OF a(1), of ATC_HARDWARE_ERROR] start(2) by (auto simp: cleared_def)
    qed
    then have "w2 = u" using a(6) start(1) by simp
    then show ?thesis using a(1-5) u(1) r by blast
  qed
qed

text \<open>A command that a thread has queued on an idle loop, and that the next iteration starts.\<close>

lemma queued_started:
  assumes inv: "rx_inv I w es ip xs None" and Q: "queue_contract I Q" and q: "Q (send_queue (ctx w)) (os w) = []"
    and v: "command_queued Q bytes n h t w v" and start: "send_msg_handle I v = ok u" "current_send_task (ctx u) \<noteq> NULL"
  shows "\<exists>now. rx_inv I u es ip xs (Some (t\<lparr>tk_timestamp := now\<rparr>)) \<and> resp_is (ctx u) [] \<and> pending (ctx u) = pending (ctx w) \<and>
    trace u = trace w @ [Ev_Give (wake_semaphore (ctx w)), Ev_Send bytes ATC_SUCCESS] \<and>
    (\<forall>p ob. heap w p = Some ob \<longrightarrow> heap u p = Some ob) \<and> rx_buffer (ctx u) = rx_buffer (ctx w) \<and>
    (\<forall>p ob. heap v p = Some ob \<longrightarrow> heap u p = Some ob)"
proof -
  have c: "ctx v = ctx w" "trace v = trace w @ [Ev_Give (wake_semaphore (ctx w))]" "task_ready v t" "task_bytes v t = bytes"
      "Q (send_queue (ctx v)) (os v) = [Q_Task t]"
    using v q by (simp_all add: command_queued_def)
  have grow: "heap v p = Some ob" if "heap w p = Some ob" for p ob
    using v that unfolding command_queued_def by (metis option.distinct(1))
  have "rx_inv I v es ip xs None" by (rule rx_inv_grows [OF inv grow c(1)])
  from send_started [OF this Q c(5,3) start] obtain a now where a:
      "rx_inv I u es ip xs (Some (t\<lparr>tk_timestamp := now\<rparr>))" "ctx u = started a (ctx v)" "heap v a = None"
      "trace u = trace v @ [Ev_Send (task_bytes v t) ATC_SUCCESS]" "heap u = (heap v)(a \<mapsto> O_Task (t\<lparr>tk_timestamp := now\<rparr>))" by blast
  have grow2: "heap u p = Some ob" if "heap v p = Some ob" for p ob using that a(3,5) by auto
  moreover have "heap u p = Some ob" if "heap w p = Some ob" for p ob by (rule grow2 [OF grow [OF that]])
  moreover have "resp_is (ctx u) []" "pending (ctx u) = pending (ctx w)" "rx_buffer (ctx u) = rx_buffer (ctx w)"
    using a(2) c(1) rx_inv_resp(1) [OF inv] by (simp_all add: resp_is_def started_def pending_def)
  ultimately show ?thesis using a(1,4) c(2,4) by (intro exI [of _ now]) simp
qed

text \<open>The call queues the task, and the next iteration makes it the current command.\<close>

lemma async_started:
  assumes inv: "rx_inv I w es ip xs None" and Q: "queue_contract I Q" and q: "Q (send_queue (ctx w)) (os w) = []"
    and len: "len \<noteq> 0" "unat len \<le> length data"
    and call: "atc_send_async I False (Some data) len (Some (App_Response_Handler f)) timeout w = ok (ATC_SUCCESS, w1)"
    and start: "send_msg_handle I w1 = ok w2" "current_send_task (ctx w2) \<noteq> NULL"
  shows "\<exists>t. rx_inv I w2 es ip xs (Some t) \<and> tk_status t = SEND_TASK_STATUS_LINE_RECV \<and>
    tk_response_handler t = Some (App_Response_Handler f) \<and> pending (ctx w2) = pending (ctx w) \<and> resp_is (ctx w2) [] \<and>
    trace w2 = trace w @ [Ev_Give (wake_semaphore (ctx w)), Ev_Send (take (unat len) data) ATC_SUCCESS]"
proof -
  have I: "complete I" "malloc_fresh I" using rx_inv_interface [OF inv] by auto
  let ?h = "Some (App_Response_Handler f)"
  from send_async_ok [OF I Q len, of ?h timeout w] call obtain p where p:
      "trace w1 = trace w @ [Ev_Give (wake_semaphore (ctx w))]"
      "queued Q (plain_task p len ?h timeout) [(p, take (unat len) data)] w w1" by auto
  let ?t = "plain_task p len ?h timeout"
  have "command_queued Q (take (unat len) data) timeout ?h ?t w w1"
    using queued_plain [of Q ?t "take (unat len) data" w w1 timeout] p len(2) by simp
  from queued_started [OF inv Q q this start] obtain now where
    "rx_inv I w2 es ip xs (Some (?t\<lparr>tk_timestamp := now\<rparr>))" "resp_is (ctx w2) []" "pending (ctx w2) = pending (ctx w)"
    "trace w2 = trace w @ [Ev_Give (wake_semaphore (ctx w)), Ev_Send (take (unat len) data) ATC_SUCCESS]" by blast
  then show ?thesis by (intro exI [of _ "?t\<lparr>tk_timestamp := now\<rparr>"]) simp
qed

section \<open>Properties\<close>

text \<open>
  C16: Initialisation from a zeroed context either fails with \<open>ATC_ERROR\<close> or establishes the
  invariant of the system: an empty ring, an empty prompt stack, an empty table of URC
  handlers, no command, both queues and the wake semaphore created.
\<close>

theorem init_establishes:
  assumes "complete I" and "malloc_fresh I" and "queue_contract I Q" and "create_contract I Q"
    and "length rx_buffer_data = 256" and "heap w NULL = None" and "zeroed (ctx w)" and "\<And>q. Q q (os w) = []"
  shows "\<exists>r w'. atc_init I context rx_buffer_data w = ok (r, w') \<and>
    (if r = ATC_SUCCESS
     then rx_good I [] w' \<and> rb_inv (rx_buffer (ctx w')) \<and> rb_contents (rx_buffer (ctx w')) = [] \<and>
       send_queue (ctx w') \<noteq> NULL \<and> external_api_queue (ctx w') \<noteq> NULL \<and> wake_semaphore (ctx w') \<noteq> NULL \<and>
       (send_queue (ctx w') \<noteq> external_api_queue (ctx w') \<longrightarrow> sys_inv I Q w')
     else r = ATC_ERROR)"
proof -
  have sys: "sys_inv I Q w'" if "rx_good I [] w'" "rb_inv (rx_buffer (ctx w'))" "send_queue (ctx w') \<noteq> external_api_queue (ctx w')"
      "\<forall>q. Q q (os w') = []" for w'
    unfolding sys_inv_def
    by (rule exI [of _ "[]"], rule exI [of _ "[]"], rule exI [of _ "[]"]) (use that in \<open>simp add: tasks_ok_def msgs_ok_def\<close>)
  show ?thesis using init_ok [OF assms] sys by (metis (no_types, lifting))
qed

lemma platform_create: "create_contract platform_interface (\<lambda>q s. pl_queues s q)"
  by (simp add: create_contract_def platform_interface_def same_queues_def)

theorem init_establishes_witness:
  "\<exists>w'. atc_init platform_interface 1000 (replicate 256 0) platform_world = ok (ATC_SUCCESS, w') \<and>
     sys_inv platform_interface (\<lambda>q s. pl_queues s q) w'"
proof -
  have "zeroed (ctx platform_world)" "heap platform_world NULL = None" "\<And>q. pl_queues (os platform_world) q = []"
    by (simp_all add: platform_world_def zeroed_def demo_context_def platform_start_def)
  moreover have "\<exists>w'. atc_init platform_interface 1000 (replicate 256 0) platform_world = ok (ATC_SUCCESS, w') \<and>
      send_queue (ctx w') \<noteq> external_api_queue (ctx w')"
    by (simp add: sample_run atc_init_def recv_data_init_def ring_buffer_init_def stack_create_def extern_msg_queue_init_def
        send_msg_queue_init_def urc_init_def slist_create_def platform_world_def platform_start_def demo_context_def
        atc_constants with_rx_def sizeof_ptr_def)
  ultimately show ?thesis
    using init_establishes [OF platform_complete platform_malloc_fresh platform_queues platform_create, of "replicate 256 0" platform_world 1000]
    by auto
qed

text \<open>
  C37: Nothing works before a complete interface is registered.  The first registration either
  succeeds, and from then on a log statement returns exactly when its strings end, or it leaves
  the interface zeroed; then initialisation and the API calls go through a null pointer.  That
  includes the calls that check the semaphore functions: the message that these are missing is
  reported through \<open>atc_log\<close>, which is null as well.
\<close>

theorem registration_needed:
  assumes "atc_interface_register interface zero_interface = (r, g)"
    and "p \<noteq> []" and "handler \<noteq> NULL" and "0 < i" and "len \<noteq> 0"
  shows "if r = ATC_SUCCESS
    then interface = Some g \<and> (LOG_ERR g fmt args = ok () \<longleftrightarrow> list_all log_safe args)
    else r = ATC_ERROR \<and> atc_init g context buf w = fail NullCall \<and>
      atc_send_sync g others context_null data n res rbuf rlen timeout w = fail NullCall \<and>
      atc_send_async g False (Some bs) len app timeout w = fail NullCall \<and>
      atc_urc_register g others False (Some p) handler out w = fail NullCall \<and>
      atc_urc_unregister g others False i out w = fail NullCall"
proof (cases "r = ATC_SUCCESS")
  case True
  then have "interface = Some g" "complete g"
    using assms(1) by (auto simp: atc_interface_register_def complete_def split: option.splits if_splits)
  then show ?thesis using True os_log_iff [of g] by (simp add: LOG_ERR_def LOG_LEVEL_ERROR_def)
next
  case False
  then have g: "r = ATC_ERROR" "g = zero_interface"
    using assms(1) by (auto simp: atc_interface_register_def split: option.splits if_splits)
  have z: "atc_malloc zero_interface = None" "atc_semaphore_take zero_interface = None"
      "atc_semaphore_create_binary zero_interface = None"
    by (simp_all add: zero_interface_def)
  show ?thesis unfolding g using False g(1) assms(2-5)
    by (simp add: atc_init_def atc_send_sync_def atc_send_async_def malloc_copy_def os_malloc_def call_def z
        atc_urc_register_def atc_urc_unregister_def with_local_def log_unregistered)
qed

theorem registration_needed_witness:
  "atc_init zero_interface 1000 (replicate 256 0) platform_world = fail NullCall \<and>
   atc_send_sync zero_interface ok False (Some [65, 84]) 2 70 71 72 0 platform_world = fail NullCall"
proof -
  have "atc_interface_register None zero_interface = (ATC_ERROR, zero_interface)"
    by (simp add: atc_interface_register_def)
  from registration_needed [OF this, of "[43]" 8 1 1 "[]" "[]" 1000 "replicate 256 0" platform_world ok False
      "Some [65, 84]" 2 70 71 72 0 "[65]" None 90]
  show ?thesis by simp
qed

lemma demo_idle_101 [simp]: "heap (demo_idle ts) 101 = None"
  by (simp add: demo_idle_def Let_def demo_rx_prompt_def demo_urc_world_def demo_list_world_def)

text \<open>An idle event loop with the tasks \<open>ts\<close> queued, among them perhaps one of its own buffer 63.\<close>

definition second_task :: send_task where
  "second_task = zero_task\<lparr>tk_data := 63, tk_length := 2, tk_timeout := 1000\<rparr>"

definition demo_two :: "platform world" where
  "demo_two = (let w = demo_idle [demo_task SEND_TASK_STATUS_LINE_RECV 0, second_task] in
     w\<lparr>heap := (heap w)(63 \<mapsto> O_Bytes [65, 90])\<rparr>)"

lemma demo_two_inv: "rx_inv platform_interface demo_two demo_table 51 (stack_bytes []) None"
proof -
  have "heap (demo_idle ts) 63 = None" for ts
    by (simp add: demo_idle_def Let_def demo_rx_prompt_def demo_urc_world_def demo_list_world_def)
  then show ?thesis unfolding demo_two_def Let_def
    by (simp, intro rx_inv_grows [OF demo_idle_inv]) auto
qed

lemma demo_two_ready:
  "task_ready demo_two (demo_task SEND_TASK_STATUS_LINE_RECV 0)" "task_ready demo_two second_task"
  by (simp_all add: demo_two_def Let_def task_ready_def demo_task_def second_task_def zero_task_def bytes_at_def)

lemma demo_two_fields [simp]:
  "pl_queues (os demo_two) = (\<lambda>q. if q = 7 then map Q_Task [demo_task SEND_TASK_STATUS_LINE_RECV 0, second_task] else [])"
  "send_queue (ctx demo_two) = 7" "external_api_queue (ctx demo_two) = 6" "trace demo_two = []"
  "wake_semaphore (ctx demo_two) = 5" "pl_tick (os demo_two) = 0" "pl_next (os demo_two) = 100"
  "current_send_task (ctx demo_two) = NULL" "heap demo_two 61 = Some (O_Bytes [65, 84])" "heap demo_two 100 = None"
  "rx_buffer (ctx demo_two) = \<lparr>rb_buffer = Some [79, 75, 10, 0], rb_capacity = 4, rb_read_index = 0, rb_write_index = 3\<rparr>"
  "line_buffer_index (ctx demo_two) = 0"
  by (simp_all add: demo_two_def Let_def) (simp_all add: demo_idle_def Let_def demo_rx_prompt_def demo_urc_fields)

lemma demo_two_sys: "sys_inv platform_interface (\<lambda>q s. pl_queues s q) demo_two"
proof -
  let ?ts = "[demo_task SEND_TASK_STATUS_LINE_RECV 0, second_task]"
  have p: "prompt_ready demo_two (Some t)" if "t \<in> set ?ts" for t
    using that by (auto simp: prompt_ready_def demo_task_def second_task_def zero_task_def)
  have "distinct (concat (map task_bufs ?ts))"
    by (simp add: task_bufs_def demo_task_def second_task_def zero_task_def)
  then have "tasks_ok demo_two ?ts" using demo_two_ready p by (simp add: tasks_ok_def own_none)
  moreover have "rx_good platform_interface demo_table demo_two"
    unfolding rx_good_def using demo_two_inv
    by (intro exI [of _ 51] exI [of _ "[]"] exI [of _ None]) (simp add: prompt_ready_def)
  moreover have "rb_inv (rx_buffer (ctx demo_two))" by (simp add: rb_inv_def)
  ultimately show ?thesis
    unfolding sys_inv_def
    by (intro exI [of _ demo_table] exI [of _ ?ts] exI [of _ "[]"]) (simp add: msgs_ok_def)
qed

text \<open>A run of the loop: two commands are queued, and the first is answered at once.\<close>

lemma demo_two_runs:
  "\<exists>u w. run_handler At_Extern platform_interface demo_two = ok demo_two \<and>
    run_handler At_Send platform_interface demo_two = ok u \<and> run_handler At_Recv platform_interface u = ok w \<and>
    current_send_task (ctx u) \<noteq> NULL \<and> pl_queues (os u) (send_queue (ctx u)) = [Q_Task second_task] \<and>
    current_send_task (ctx w) = NULL \<and> pl_queues (os w) (send_queue (ctx w)) = [Q_Task second_task] \<and>
    wake_semaphore (ctx u) = 5 \<and> trace w \<noteq> []"
proof -
  let ?I = platform_interface and ?Q = "\<lambda>q s. pl_queues s q" and ?t = "demo_task SEND_TASK_STATUS_LINE_RECV 0"
  have e: "run_handler At_Extern ?I demo_two = ok demo_two"
    by (simp add: extern_msg_handle.simps sample_run)
  have q: "pl_queues (os demo_two) (send_queue (ctx demo_two)) = Q_Task ?t # [Q_Task second_task]" by simp
  have c: "\<exists>w'. send_msg_handle ?I demo_two = ok w' \<and> current_send_task (ctx w') = 100"
    by (simp add: sample_run demo_task_def cong: if_cong)
  then obtain u where u: "send_msg_handle ?I demo_two = ok u" "current_send_task (ctx u) \<noteq> NULL" by auto
  from send_started [OF demo_two_inv platform_queues q demo_two_ready(1) u] obtain p now where s:
      "rx_inv ?I u demo_table 51 (stack_bytes []) (Some (?t\<lparr>tk_timestamp := now\<rparr>))" "ctx u = started p (ctx demo_two)"
      "\<forall>x. pl_queues (os u) x = (if x = 7 then [Q_Task second_task] else pl_queues (os demo_two) x)" by auto
  have g: "rx_good ?I demo_table u"
    unfolding rx_good_def using s(1) by (intro exI [of _ 51] exI [of _ "[]"] exI [of _ "Some (?t\<lparr>tk_timestamp := now\<rparr>)"])
      (simp add: prompt_ready_def demo_task_def)
  have h: "rb_inv (rx_buffer (ctx u))" "rb_contents (rx_buffer (ctx u)) = concat [] @ [79, 75, 10]"
    by (simp_all add: s(2) started_def rb_inv_def rb_contents_def rb_count_def upt_rec)
  obtain w where w: "recv_data_handle ?I u = ok w" "spares ?I u w" using recv_data_ok [OF g h(1)] by blast
  from recv_data_run [OF g h(1) w(1)] have run: "rx_run ?I (concat [] @ [79, 75, 10]) u w" unfolding h(2) .
  have l: "text_line [79, 75, 10 :: u8]" "line_ends demo_table [79, 75, 10] = Some ATC_SUCCESS"
    by (auto simp: text_line_def line_ends_def verdict_def demo_table_def demo_entry_def urc_match_def cstr_def
        Cons_eq_append_conv)
  have p: "pending (ctx u) = []" "resp_is (ctx u) []"
    using rx_inv_resp(1) [OF s(1)] by (simp_all add: s(2) started_def pending_def resp_is_def)
  have "tk_status (?t\<lparr>tk_timestamp := now\<rparr>) = SEND_TASK_STATUS_LINE_RECV" by (simp add: demo_task_def)
  from command_run [OF run s(1) this p(1) _ l p(2) refl] have inv: "rx_inv ?I w demo_table 51 [] None" and tr: "trace w \<noteq> []"
    by (auto simp: demo_task_def)
  note none = no_task [OF inv]
  have "same_queues ?Q (os u) (os w)" by (rule os_steps_queues [OF _ platform_queues]) (use w(2) in \<open>simp add: spares_def\<close>)
  moreover have "send_queue (ctx w) = 7" using w(2) s(2) by (simp_all add: spares_def started_def)
  moreover have "send_queue (ctx u) = 7" "wake_semaphore (ctx u) = 5" by (simp_all add: s(2) started_def)
  ultimately show ?thesis using e u w(1) none s(3) tr by (intro exI [of _ u] exI [of _ w]) (simp add: same_queues_def)
qed

lemma demo_two_reaches:
  "\<exists>w. reachable platform_interface (\<lambda>q s. pl_queues s q) allowed demo_two At_Timeout w \<and> current_send_task (ctx w) = NULL \<and>
    pl_queues (os w) (send_queue (ctx w)) = [Q_Task second_task] \<and> trace w \<noteq> []"
proof -
  obtain u w where w: "run_handler At_Extern platform_interface demo_two = ok demo_two"
    "run_handler At_Send platform_interface demo_two = ok u" "run_handler At_Recv platform_interface u = ok w"
    "current_send_task (ctx w) = NULL" "pl_queues (os w) (send_queue (ctx w)) = [Q_Task second_task]" "trace w \<noteq> []"
    using demo_two_runs by blast
  note steps = reachable.handler [OF reachable.handler [OF reachable.handler [OF reachable.start w(1)]]]
  have "reachable platform_interface (\<lambda>q s. pl_queues s q) allowed demo_two At_Timeout w" using steps w(2,3) by fastforce
  then show ?thesis using w(4-6) by blast
qed

text \<open>
  C3: Whatever happens between the steps of the event loop, the loop is safe, as long as no
  thread sends a command with a prompt and \<open>recv_len = 0\<close>: from every state with the system's
  invariant, after any interleaving of handlers with receive interrupts, commands and messages
  that other threads queue, and their work on their own variables, the invariant holds, and
  whichever handler is next returns without undefined behaviour.  The commands that are excluded
  are documented in \<open>ATCortex.h\<close>, and the loop is not safe with them: when their prompt is
  recognised it reads through a null pointer (\<open>prompt_without_data_crashes\<close>).
\<close>

theorem loop_safe:
  assumes "queue_contract I Q" and "sys_inv I Q w0" and "reachable I Q allowed w0 p w"
    and "\<forall>t. allowed t \<and> tk_status t = SEND_TASK_STATUS_PROMPT \<longrightarrow> tk_need_recv_len t \<noteq> 0"
  shows "sys_inv I Q w \<and> (\<exists>w'. run_handler p I w = ok w')"
proof -
  have "sys_inv I Q w" by (rule reachable_sys [OF assms(3,2,1)]) (use assms(4) in \<open>simp add: expects_data_def\<close>)
  then show ?thesis using handler_sys [OF _ assms(1)] by blast
qed

theorem loop_safe_witness:
  "\<exists>w w'. reachable platform_interface (\<lambda>q s. pl_queues s q) expects_data demo_two At_Timeout w \<and> trace w \<noteq> [] \<and>
     sys_inv platform_interface (\<lambda>q s. pl_queues s q) w \<and> check_send_timeout platform_interface w = ok w'"
proof -
  obtain w where w: "reachable platform_interface (\<lambda>q s. pl_queues s q) expects_data demo_two At_Timeout w" "trace w \<noteq> []"
    using demo_two_reaches by blast
  from loop_safe [OF platform_queues demo_two_sys w(1)] w show ?thesis by (auto simp: expects_data_def)
qed

text \<open>
  C11: The timeout is exact, across the wrap of the 32-bit tick counter: when \<open>d\<close>
  milliseconds have passed since the command was sent, it is ended with \<open>ATC_TIMEOUT\<close> if and
  only if \<open>d\<close> is at least its timeout, and otherwise the loop sleeps for what is left of it.
\<close>

theorem timeout_exact:
  assumes "rx_inv I w es ip xs (Some t)" and "atc_time_get I w = ok (tk_timestamp t + of_nat d, w1)" and "d < 2 ^ 32"
  shows "if unat (tk_timeout t) \<le> d
    then \<exists>w'. check_send_timeout I w = ok w' \<and> rx_inv I w' es ip [] None \<and>
      trace w' = trace w @ end_events t ATC_TIMEOUT (ctx w)
    else check_send_timeout I w = ok w1 \<and>
      (\<exists>ms. wait_time I w = ok (ms, w1) \<and> d + unat ms = unat (tk_timeout t))"
proof -
  obtain s where s: "w1 = w\<lparr>os := s\<rparr>" using time_get_ok [OF conjunct1 [OF rx_inv_interface [OF assms(1)]], of w] assms(2) by auto
  note now = assms(2) [unfolded s]
  have d: "unat (of_nat d :: u32) = d" using assms(3) by (simp add: unat_of_nat take_bit_nat_eq_self)
  have le: "tk_timeout t \<le> of_nat d \<longleftrightarrow> unat (tk_timeout t) \<le> d" by (simp add: word_le_nat_alt d)
  show ?thesis
  proof (cases "unat (tk_timeout t) \<le> d")
    case True
    have "rx_inv I w1 es ip xs (Some t)" using assms(1) s by simp
    from rx_end_ok [OF this, of ATC_TIMEOUT] show ?thesis
      using True timeout_ok [OF assms(1) now] le s by (auto simp: task_events_def)
  next
    case False
    then have lt: "of_nat d < tk_timeout t" using le by (simp add: not_le)
    then have "d + unat (tk_timeout t - of_nat d) = unat (tk_timeout t)"
      using False d by (simp add: unat_sub)
    then show ?thesis using False lt timeout_ok [OF assms(1) now] wait_ok [OF assms(1) now] le s by simp
  qed
qed

theorem timeout_exact_witness:
  "check_send_timeout platform_interface (demo_rx ((demo_task SEND_TASK_STATUS_LINE_RECV 0)\<lparr>tk_timestamp := 0xFFFFFFF6\<rparr>)) =
     ok (demo_rx ((demo_task SEND_TASK_STATUS_LINE_RECV 0)\<lparr>tk_timestamp := 0xFFFFFFF6\<rparr>))"
proof -
  let ?t = "(demo_task SEND_TASK_STATUS_LINE_RECV 0)\<lparr>tk_timestamp := 0xFFFFFFF6\<rparr>"
  have inv: "rx_inv platform_interface (demo_rx ?t) demo_table 51 [] (Some ?t)"
    by (rule demo_rx_inv) (simp_all add: demo_task_def)
  have "atc_time_get platform_interface (demo_rx ?t) = ok (tk_timestamp ?t + of_nat 10, demo_rx ?t)"
    by (simp add: sample_run demo_rx_prompt_def demo_urc_world_def demo_list_world_def
        platform_world_def platform_start_def)
  from timeout_exact [OF inv this] show ?thesis by (simp add: demo_task_def)
qed

text \<open>
  C2: A command from end to end.  On an idle loop, a command that \<open>atc_send_async\<close> accepts
  and that the next iteration starts is transmitted exactly as the caller gave it, and
  whatever lines arrive then, up to the first one that ends a command, the caller's handler
  is called once, with the result of that line and the replies that the response buffer holds; the
  unsolicited lines go to the URC handlers; and the loop is idle again.
\<close>

theorem async_roundtrip:
  assumes "rx_inv I w es ip xs None" and "queue_contract I Q" and "Q (send_queue (ctx w)) (os w) = []"
    and "pending (ctx w) = []" and "len \<noteq> 0" and "unat len \<le> length data"
    and "atc_send_async I False (Some data) len (Some (App_Response_Handler f)) timeout w = ok (ATC_SUCCESS, w1)"
    and "send_msg_handle I w1 = ok w2" and "current_send_task (ctx w2) \<noteq> NULL"
    and "rx_run I (concat lns @ fin) w2 w3"
    and "\<forall>ln \<in> set lns. text_line ln \<and> line_ends es ln = None" and "text_line fin" and "line_ends es fin = Some r"
    and "reply = gather [] (filter (is_reply es) lns @ [fin])"
  shows "rx_inv I w3 es ip [] None \<and>
    trace w3 = trace w @ [Ev_Give (wake_semaphore (ctx w)), Ev_Send (take (unat len) data) ATC_SUCCESS] @
      line_calls es lns @ [Ev_Response f r reply (of_nat (length reply))]"
proof -
  from async_started [OF assms(1-3,5-9)] assms(4) obtain t where t: "rx_inv I w2 es ip xs (Some t)"
      "tk_status t = SEND_TASK_STATUS_LINE_RECV" "tk_response_handler t = Some (App_Response_Handler f)"
      "pending (ctx w2) = []" "resp_is (ctx w2) []"
      "trace w2 = trace w @ [Ev_Give (wake_semaphore (ctx w)), Ev_Send (take (unat len) data) ATC_SUCCESS]" by auto
  from command_run [OF assms(10) t(1,2,4) assms(11-13) t(5) assms(14)] t(3,6) show ?thesis by simp
qed

theorem async_roundtrip_witness:
  "\<exists>w1 w2 w3. atc_send_async platform_interface False (Some [65, 84, 13]) 3 (Some (App_Response_Handler 9)) 0 (demo_idle []) =
       ok (ATC_SUCCESS, w1) \<and> send_msg_handle platform_interface w1 = ok w2 \<and>
     rx_run platform_interface ([65, 66, 10] @ [79, 75, 10]) w2 w3 \<and>
     trace w3 = [Ev_Give 5, Ev_Send [65, 84, 13] ATC_SUCCESS, Ev_Response 9 ATC_SUCCESS [65, 66, 10, 79, 75, 10] 6]"
proof -
  let ?lns = "[[65, 66, 10]] :: u8 list list"
  have "\<exists>w1 w2. atc_send_async platform_interface False (Some [65, 84, 13]) 3 (Some (App_Response_Handler 9)) 0 (demo_idle []) =
       ok (ATC_SUCCESS, w1) \<and> send_msg_handle platform_interface w1 = ok w2 \<and> current_send_task (ctx w2) \<noteq> NULL"
    by (simp add: sample_run cong: if_cong)
  then obtain w1 w2 where run: "atc_send_async platform_interface False (Some [65, 84, 13]) 3 (Some (App_Response_Handler 9)) 0 (demo_idle []) =
       ok (ATC_SUCCESS, w1)" "send_msg_handle platform_interface w1 = ok w2" "current_send_task (ctx w2) \<noteq> NULL" by blast
  have q: "pl_queues (os (demo_idle [])) (send_queue (ctx (demo_idle []))) = []" "pending (ctx (demo_idle [])) = []"
    by (simp, simp add: demo_idle_def Let_def pending_def demo_rx_prompt_def demo_urc_fields)
  have n: "(3 :: u32) \<noteq> 0" "unat (3 :: u32) \<le> length [65, 84, 13 :: u8]" by simp_all
  from async_started [OF demo_idle_inv platform_queues q(1) n run] obtain t where t: "rx_inv platform_interface w2 demo_table 51 [] (Some t)"
      "tk_status t = SEND_TASK_STATUS_LINE_RECV" by blast
  then have "rx_good platform_interface demo_table w2"
    unfolding rx_good_def by (intro exI [of _ 51] exI [of _ "[]"] exI [of _ "Some t"]) (simp add: prompt_ready_def)
  then obtain w3 where w3: "rx_run platform_interface (concat ?lns @ [79, 75, 10]) w2 w3" using rx_run_exists by blast
  have l: "\<forall>ln \<in> set ?lns. text_line ln \<and> line_ends demo_table ln = None" "text_line [79, 75, 10 :: u8]"
    by (auto simp: text_line_def line_ends_def verdict_def demo_table_def demo_entry_def urc_match_def cstr_def
        Cons_eq_append_conv)
  have e: "line_ends demo_table [79, 75, 10] = Some ATC_SUCCESS" "filter (is_reply demo_table) ?lns = [[65, 66, 10]]"
    "line_calls demo_table ?lns = []"
    by (simp_all add: line_ends_def verdict_def is_reply_def line_calls_def urc_calls_def demo_table_def demo_entry_def
        urc_match_def cstr_def)
  show ?thesis
    using async_roundtrip [OF demo_idle_inv platform_queues q n run w3 l e(1) refl] run w3 e by auto
qed

end
