(* ===== verification/Sync_Props.thy ===== *)
theory Sync_Props
  imports Loop_Props
begin

text \<open>
  A synchronous call from its entry to its return: what \<open>atc_send_sync\<close> gives its caller when
  the event loop starts the command and receives the answer while the caller is blocked.
\<close>

section \<open>The variables of the blocked caller\<close>

definition caller_vars :: "'os world \<Rightarrow> addr \<Rightarrow> addr \<Rightarrow> addr \<Rightarrow> size_t \<Rightarrow> u8 list \<Rightarrow> bool" where
  "caller_vars w res buf rl m b \<longleftrightarrow> res \<noteq> NULL \<and> buf \<noteq> NULL \<and> rl \<noteq> NULL \<and>
     (\<exists>r. heap w res = Some (O_Result r)) \<and> heap w buf = Some (O_Buf b) \<and> heap w rl = Some (O_Size m) \<and>
     unat m \<le> length b"

lemma caller_vars_sync: "caller_vars w res buf rl m b \<Longrightarrow> sync_ok w (with_caller sem res buf rl t)"
  by (simp add: caller_vars_def sync_ok_def with_caller_def)

lemma caller_vars_mono:
  "caller_vars w res buf rl m b \<Longrightarrow> (\<And>p ob. heap w p = Some ob \<Longrightarrow> heap w' p = Some ob) \<Longrightarrow> caller_vars w' res buf rl m b"
  unfolding caller_vars_def by blast

text \<open>The answer, cut to the size the caller offered.\<close>

lemma handed_answer:
  assumes t: "tk_response_handler t = Some Sync_Response_Handler" "tk_sync_send_result t = res"
      "tk_sync_response_buf t = buf" "tk_sync_response_length t = rl"
    and v: "caller_vars w res buf rl m b" and c: "resp_is c reply" "reply \<noteq> []" "length reply \<le> 512"
    and h: "handed (Some t) r c w w'"
  shows "heap w' res = Some (O_Result r)"
    and "heap w' rl = Some (O_Size (of_nat (min (length reply) (unat m))))"
    and "heap w' buf = Some (O_Buf (take (min (length reply) (unat m)) reply @ drop (min (length reply) (unat m)) b))"
proof -
  let ?n = "of_nat (length reply) :: size_t"
  have n: "unat ?n = length reply" using c(3) by (simp add: unat_of_nat)
  then have ne: "?n \<noteq> 0" using c(2) by (metis length_0_conv unat_0)
  have k: "unat (min ?n m) = min (length reply) (unat m)"
    by (cases "?n \<le> m") (simp_all add: min_def n word_le_nat_alt)
  have w: "min ?n m = of_nat (min (length reply) (unat m))" by (simp add: k [symmetric])
  have d: "delivered t r (response c) ?n w w'"
    using h t(1) c(1) by (simp add: handed_def resp_is_def)
  have cut: "take (min (length reply) (unat m)) (response c) = take (min (length reply) (unat m)) reply"
    using c(1) by (simp add: resp_is_def)
  have "heap w' res = Some (O_Result r)" "heap w' rl = Some (O_Size (min ?n m))"
    "heap w' buf = Some (O_Buf (take (unat (min ?n m)) (response c) @ drop (unat (min ?n m)) b))"
    using d v ne by (auto simp: delivered_def caller_vars_def t)
  then show "heap w' res = Some (O_Result r)"
    and "heap w' rl = Some (O_Size (of_nat (min (length reply) (unat m))))"
    and "heap w' buf = Some (O_Buf (take (min (length reply) (unat m)) reply @ drop (min (length reply) (unat m)) b))"
    unfolding k cut unfolding w by simp_all
qed

section \<open>Properties\<close>

text \<open>
  C4: A synchronous command from end to end.  If the call succeeds, and while the caller was
  blocked the event loop started the command and received lines up to the first one that ends
  it, then the caller finds the result of that line in its variable, the replies in its
  buffer, cut to the size it offered, and the number of bytes stored; it was woken once, by the
  semaphore of its own call, which it deletes; and the loop is idle again.
\<close>

theorem sync_roundtrip:
  assumes "rx_inv I w es ip xs None" and "queue_contract I Q" and "Q (send_queue (ctx w)) (os w) = []"
    and "pending (ctx w) = []" and "len \<noteq> 0" and "unat len \<le> length data" and "caller_vars w res buf rl m b"
    and "\<And>t v u. command_queued Q (take (unat len) data) timeout (Some Sync_Response_Handler) t w v \<Longrightarrow>
      tk_status t = SEND_TASK_STATUS_LINE_RECV \<Longrightarrow> others v = ok u \<Longrightarrow>
      \<exists>v'. send_msg_handle I v = ok v' \<and> current_send_task (ctx v') \<noteq> NULL \<and> rx_run I (concat lns @ fin) v' u"
    and "atc_send_sync I others False (Some data) len res buf rl timeout w = ok (ATC_SUCCESS, w')"
    and "\<forall>ln \<in> set lns. text_line ln \<and> line_ends es ln = None" and "text_line fin" and "line_ends es fin = Some r"
    and "reply = gather [] (filter (is_reply es) lns @ [fin])" and "k = min (length reply) (unat m)"
  shows "heap w' res = Some (O_Result r) \<and> heap w' rl = Some (O_Size (of_nat k)) \<and>
    heap w' buf = Some (O_Buf (take k reply @ drop k b)) \<and> current_send_task (ctx w') = NULL \<and>
    (\<exists>sem. own_semaphore I data len w = Some sem \<and> sem \<noteq> NULL \<and>
       trace w' = trace w @ [Ev_Give (wake_semaphore (ctx w)), Ev_Send (take (unat len) data) ATC_SUCCESS] @
         line_calls es lns @ [Ev_Give sem, Ev_Take sem 0xFFFFFFFF, Ev_Delete sem])"
proof -
  have I: "complete I" "malloc_fresh I" using rx_inv_interface [OF assms(1)] by auto
  have "rl \<noteq> NULL" using assms(7) by (simp add: caller_vars_def)
  with send_sync_ok [OF I assms(2,5,6), of buf rl others res timeout w] assms(9) obtain p sem v where v:
      "wait_and_delete I others sem v = ok (ATC_SUCCESS, w')" "sem \<noteq> NULL"
      "trace v = trace w @ [Ev_Give (wake_semaphore (ctx w))]"
      "queued Q (with_caller sem res buf rl (plain_task p len None timeout)) [(p, take (unat len) data)] w v"
      "own_semaphore I data len w = Some sem" by auto
  let ?t = "with_caller sem res buf rl (plain_task p len None timeout)"
  have q: "command_queued Q (take (unat len) data) timeout (Some Sync_Response_Handler) ?t w v"
    using queued_plain [of Q ?t "take (unat len) data" w v timeout] v(3,4) assms(6) caller_vars_sync [OF assms(7)] by simp
  obtain u where u: "others v = ok u"
    using v(1) unfolding wait_and_delete_def rbind_eq_ok by blast
  have "tk_status ?t = SEND_TASK_STATUS_LINE_RECV" by (simp add: with_caller_def)
  from assms(8) [OF q this u] obtain v' where v': "send_msg_handle I v = ok v'" "current_send_task (ctx v') \<noteq> NULL"
      "rx_run I (concat lns @ fin) v' u" by blast
  from queued_started [OF assms(1-3) q v'(1,2)] obtain now where s:
      "rx_inv I v' es ip xs (Some (?t\<lparr>tk_timestamp := now\<rparr>))" "resp_is (ctx v') []" "pending (ctx v') = pending (ctx w)"
      "trace v' = trace w @ [Ev_Give (wake_semaphore (ctx w)), Ev_Send (take (unat len) data) ATC_SUCCESS]"
      "\<forall>p ob. heap w p = Some ob \<longrightarrow> heap v' p = Some ob" by blast
  let ?T = "?t\<lparr>tk_timestamp := now\<rparr>"
  have T: "tk_status ?T = SEND_TASK_STATUS_LINE_RECV" "tk_response_handler ?T = Some Sync_Response_Handler"
      "tk_semaphore ?T = sem" "tk_sync_send_result ?T = res" "tk_sync_response_buf ?T = buf" "tk_sync_response_length ?T = rl"
    by (simp_all add: with_caller_def)
  have idle: "pending (ctx v') = []" using s(3) assms(4) by simp
  from command_run [OF v'(3) s(1) T(1) idle assms(10,11,12) s(2) assms(13)] obtain c where c:
      "rx_inv I u es ip [] None" "trace u = trace v' @ line_calls es lns @ [Ev_Give sem]" "resp_is c reply"
      "handed (Some ?T) r c v' u"
    using T(2,3) v(2) by auto
  have vars: "caller_vars v' res buf rl m b" using caller_vars_mono [OF assms(7)] s(5) by blast
  have "\<forall>ln \<in> set (filter (is_reply es) lns @ [fin]). 0 < length ln \<and> length ln < 512"
    using assms(10,11) text_line_facts by fastforce
  then have ne: "reply \<noteq> []" "length reply < 512" unfolding assms(13) by (intro gather_nonempty gather_bound; simp)+
  note ans = handed_answer [OF T(2,4-6) vars c(3) ne(1) less_imp_le [OF ne(2)] c(4), folded assms(14)]
  from wait_returns [of I others v u sem, OF I(1) u] v(1) have w': "heap w' = heap u" "ctx w' = ctx u"
      "trace w' = trace u @ [Ev_Take sem ATC_TIMEOUT_MAX, Ev_Delete sem]" by auto
  then show ?thesis using ans c(2) s(4) v(2,5) no_task [OF c(1)] by (simp add: atc_constants)
qed

text \<open>An idle loop whose ring holds OK, and a caller with a buffer of four bytes that offers two.\<close>

definition demo_sync :: "platform world" where
  "demo_sync = put 90 (O_Result ATC_ERROR) (put 91 (O_Buf [1, 2, 3, 4]) (put 92 (O_Size 2) (demo_idle [])))"

definition demo_others :: "platform world \<Rightarrow> platform world res" where
  "demo_others v = rbind (send_msg_handle platform_interface v) (\<lambda>v.
     if current_send_task (ctx v) = NULL then fail NullDeref else recv_data_handle platform_interface v)"

lemma demo_sync_facts:
  "rx_inv platform_interface demo_sync demo_table 51 [] None" "pl_queues (os demo_sync) (send_queue (ctx demo_sync)) = []"
  "pending (ctx demo_sync) = []" "caller_vars demo_sync 90 91 92 2 [1, 2, 3, 4]" "trace demo_sync = []"
  "wake_semaphore (ctx demo_sync) = 5" "rb_contents (rx_buffer (ctx demo_sync)) = [79, 75, 10]" "rb_inv (rx_buffer (ctx demo_sync))"
proof -
  have free: "heap (demo_idle []) 90 = None" "heap (demo_idle []) 91 = None" "heap (demo_idle []) 92 = None"
    by (simp_all add: demo_idle_def Let_def demo_rx_prompt_def demo_urc_world_def demo_list_world_def)
  then have "heap demo_sync p = Some ob" if "heap (demo_idle []) p = Some ob" for p ob
    using that by (auto simp: demo_sync_def)
  then show "rx_inv platform_interface demo_sync demo_table 51 [] None"
    using rx_inv_grows [OF demo_idle_inv, of "[]" demo_sync] by (simp add: demo_sync_def)
  show "pl_queues (os demo_sync) (send_queue (ctx demo_sync)) = []" "trace demo_sync = []" "wake_semaphore (ctx demo_sync) = 5"
    "caller_vars demo_sync 90 91 92 2 [1, 2, 3, 4]"
    by (simp_all add: demo_sync_def caller_vars_def)
  have "rx_buffer (ctx (demo_idle [])) = \<lparr>rb_buffer = Some [79, 75, 10, 0], rb_capacity = 4, rb_read_index = 0, rb_write_index = 3\<rparr>"
    "pending (ctx (demo_idle [])) = []"
    by (simp_all add: demo_idle_def Let_def demo_rx_prompt_def demo_urc_fields pending_def)
  then show "rb_contents (rx_buffer (ctx demo_sync)) = [79, 75, 10]" "rb_inv (rx_buffer (ctx demo_sync))" "pending (ctx demo_sync) = []"
    by (simp_all add: demo_sync_def rb_inv_def rb_contents_def rb_count_def upt_rec)
qed

lemma demo_others_run:
  assumes "command_queued (\<lambda>q s. pl_queues s q) bytes n h t demo_sync v" and "demo_others v = ok u" and "tk_status t = SEND_TASK_STATUS_LINE_RECV"
  shows "\<exists>v'. send_msg_handle platform_interface v = ok v' \<and> current_send_task (ctx v') \<noteq> NULL \<and>
    rx_run platform_interface [79, 75, 10] v' u"
proof -
  from assms(2) obtain v' where v': "send_msg_handle platform_interface v = ok v'" "current_send_task (ctx v') \<noteq> NULL"
      "recv_data_handle platform_interface v' = ok u"
    unfolding demo_others_def rbind_eq_ok by (auto split: if_splits)
  from queued_started [OF demo_sync_facts(1) platform_queues demo_sync_facts(2) assms(1) v'(1,2)] obtain now where
      s: "rx_inv platform_interface v' demo_table 51 [] (Some (t\<lparr>tk_timestamp := now\<rparr>))" "rx_buffer (ctx v') = rx_buffer (ctx demo_sync)"
    by blast
  have "rx_good platform_interface demo_table v'"
    unfolding rx_good_def using s(1) assms(3)
    by (intro exI [of _ 51] exI [of _ "[]"] exI [of _ "Some (t\<lparr>tk_timestamp := now\<rparr>)"]) (simp add: prompt_ready_def)
  from recv_data_run [OF this _ v'(3)] s(2) demo_sync_facts(7,8) have "rx_run platform_interface [79, 75, 10] v' u" by simp
  then show ?thesis using v' by blast
qed

text \<open>The call queues the command, and the loop of \<open>demo_others\<close> starts and answers it.\<close>

definition demo_posted :: "platform world" where
  "demo_posted = emit (Ev_Give 5) (put 100 (O_Bytes [65, 84, 13]) (demo_sync
     \<lparr>os := os demo_sync\<lparr>pl_next := 102, pl_queues := (\<lambda>q. if q = 7
        then [Q_Task (with_caller 101 90 91 92 (plain_task 100 3 None 0))] else [])\<rparr>\<rparr>))"

lemma demo_posts:
  "atc_send_sync platform_interface others False (Some [65, 84, 13]) 3 90 91 92 0 demo_sync =
     wait_and_delete platform_interface others 101 demo_posted"
proof -
  have q: "(\<lambda>q :: addr. [])(7 := x) = (\<lambda>q. if q = 7 then x else [] :: qitem list)" for x by auto
  have o: "demo_sync\<lparr>os := s, heap := h\<rparr> = demo_sync\<lparr>heap := h, os := s\<rparr>" for s h by simp
  have "trace demo_sync = []" "heap demo_sync 100 = None" "pl_next (os demo_sync) = 100" "pl_queues (os demo_sync) = (\<lambda>q. [])"
    "send_queue (ctx demo_sync) = 7" "wake_semaphore (ctx demo_sync) = 5"
    by (simp_all add: demo_sync_def cong: if_cong)
  then show ?thesis
    by (simp add: sample_run with_caller_def plain_task_def demo_posted_def wait_and_delete_def q o put_def cong: if_cong)
qed

lemma demo_idle_102 [simp]: "heap (demo_idle ts) 102 = None"
  by (simp add: demo_idle_def Let_def demo_rx_prompt_def demo_urc_world_def demo_list_world_def)

lemma demo_answers: "\<exists>u. demo_others demo_posted = ok u"
proof -
  let ?I = platform_interface
  have "\<exists>v. send_msg_handle ?I demo_posted = ok v \<and> current_send_task (ctx v) \<noteq> NULL"
    by (simp add: sample_run demo_posted_def demo_sync_def with_caller_def plain_task_def cong: if_cong)
  then obtain v where v: "send_msg_handle ?I demo_posted = ok v" "current_send_task (ctx v) \<noteq> NULL" by blast
  let ?t = "with_caller 101 90 91 92 (plain_task 100 3 None 0)"
  have q: "command_queued (\<lambda>q s. pl_queues s q) [65, 84, 13] 0 (Some Sync_Response_Handler) ?t demo_sync demo_posted"
    using demo_sync_facts(2,4-6)
    by (auto simp: command_queued_def demo_posted_def task_ready_def task_bytes_def bytes_at_def default_timeout_value
        caller_vars_def sync_ok_def with_caller_def demo_sync_def)
  from queued_started [OF demo_sync_facts(1) platform_queues demo_sync_facts(2) q v] obtain now where
      s: "rx_inv ?I v demo_table 51 [] (Some (?t\<lparr>tk_timestamp := now\<rparr>))" "rx_buffer (ctx v) = rx_buffer (ctx demo_sync)"
    by blast
  have "rx_good ?I demo_table v"
    unfolding rx_good_def using s(1)
    by (intro exI [of _ 51] exI [of _ "[]"] exI [of _ "Some (?t\<lparr>tk_timestamp := now\<rparr>)"])
      (simp add: prompt_ready_def with_caller_def)
  from recv_data_ok [OF this] s(2) demo_sync_facts(8) show ?thesis using v by (auto simp: demo_others_def)
qed

theorem sync_roundtrip_witness:
  "\<exists>w'. atc_send_sync platform_interface demo_others False (Some [65, 84, 13]) 3 90 91 92 0 demo_sync = ok (ATC_SUCCESS, w') \<and>
     heap w' 90 = Some (O_Result ATC_SUCCESS) \<and> heap w' 92 = Some (O_Size 2) \<and> heap w' 91 = Some (O_Buf [79, 75, 3, 4])"
proof -
  obtain u where "demo_others demo_posted = ok u" using demo_answers by blast
  from wait_returns [of platform_interface demo_others demo_posted u 101, OF platform_complete this] obtain w' where
    run: "atc_send_sync platform_interface demo_others False (Some [65, 84, 13]) 3 90 91 92 0 demo_sync = ok (ATC_SUCCESS, w')"
    unfolding demo_posts by blast
  have n: "(3 :: u32) \<noteq> 0" "unat (3 :: u32) \<le> length [65, 84, 13 :: u8]" by simp_all
  have l: "\<forall>ln \<in> set []. text_line ln \<and> line_ends demo_table ln = None" "text_line [79, 75, 10 :: u8]"
    "line_ends demo_table [79, 75, 10] = Some ATC_SUCCESS"
    by (auto simp: text_line_def line_ends_def verdict_def demo_table_def demo_entry_def urc_match_def cstr_def
        Cons_eq_append_conv)
  have r: "[79, 75, 10 :: u8] = gather [] (filter (is_reply demo_table) [] @ [[79, 75, 10]])" by simp
  have o: "\<exists>v'. send_msg_handle platform_interface v = ok v' \<and> current_send_task (ctx v') \<noteq> NULL \<and>
      rx_run platform_interface (concat [] @ [79, 75, 10]) v' u"
    if "command_queued (\<lambda>q s. pl_queues s q) (take (unat (3 :: u32)) [65, 84, 13]) 0 (Some Sync_Response_Handler) t demo_sync v"
      "tk_status t = SEND_TASK_STATUS_LINE_RECV" "demo_others v = ok u" for t v u
    using demo_others_run [OF that(1,3,2)] by simp
  from sync_roundtrip [OF demo_sync_facts(1) platform_queues demo_sync_facts(2,3) n demo_sync_facts(4) o run l r refl]
  show ?thesis using run by simp
qed

end
