(* ===== verification/Prompt_Props.thy ===== *)
theory Prompt_Props
  imports Sync_Props
begin

text \<open>
  A command with a prompt from end to end, asynchronous and synchronous: the call, its start by
  the event loop, the bytes up to the prompt, the binary data after it, and the answer.
\<close>

section \<open>From the queue to the answer\<close>

lemma prompt_is_mono:
  "prompt_is w t p \<Longrightarrow> (\<And>q ob. heap w q = Some ob \<Longrightarrow> heap w' q = Some ob) \<Longrightarrow> prompt_is w' t p"
  unfolding prompt_is_def by blast

text \<open>The bytes \<open>pre\<close> end with the prompt \<open>p\<close> for the first time, and \<open>reply\<close> is as long as wanted.\<close>

definition prompt_reply :: "u8 list \<Rightarrow> size_t \<Rightarrow> u8 list \<Rightarrow> u8 list \<Rightarrow> bool" where
  "prompt_reply p recv_len pre reply \<longleftrightarrow> 0 \<notin> set p \<and> length p \<le> 20 \<and> suffix p pre \<and>
     (\<forall>q. strict_prefix q pre \<longrightarrow> \<not> suffix p q) \<and>
     unat recv_len = length reply \<and> 1 \<le> length reply \<and> length reply \<le> 512"

lemma prompt_reply_length: "prompt_reply p recv_len pre reply \<Longrightarrow> of_nat (length reply) = recv_len"
  by (simp add: prompt_reply_def word_unat_eq_iff unat_of_nat)

lemma prompt_started:
  assumes "rx_inv I w es ip xs None" and "queue_contract I Q" and "Q (send_queue (ctx w)) (os w) = []"
    and "command_queued Q bytes n h t w v" and "prompt_is v t p"
    and "send_msg_handle I v = ok u" and "current_send_task (ctx u) \<noteq> NULL"
  shows "\<exists>now. rx_inv I u es ip xs (Some (t\<lparr>tk_timestamp := now\<rparr>)) \<and> prompt_is u (t\<lparr>tk_timestamp := now\<rparr>) p \<and>
    trace u = trace w @ [Ev_Give (wake_semaphore (ctx w)), Ev_Send bytes ATC_SUCCESS] \<and>
    (\<forall>p ob. heap w p = Some ob \<longrightarrow> heap u p = Some ob) \<and> rx_buffer (ctx u) = rx_buffer (ctx w)"
proof -
  from queued_started [OF assms(1-4,6,7)] obtain now where s: "rx_inv I u es ip xs (Some (t\<lparr>tk_timestamp := now\<rparr>))"
      "trace u = trace w @ [Ev_Give (wake_semaphore (ctx w)), Ev_Send bytes ATC_SUCCESS]"
      "\<forall>p ob. heap w p = Some ob \<longrightarrow> heap u p = Some ob" "rx_buffer (ctx u) = rx_buffer (ctx w)"
      "\<forall>p ob. heap v p = Some ob \<longrightarrow> heap u p = Some ob" by blast
  have "prompt_is u t p" by (rule prompt_is_mono [OF assms(5)]) (use s(5) in blast)
  then have "prompt_is u (t\<lparr>tk_timestamp := now\<rparr>) p" by (simp add: prompt_is_def)
  with s(1-4) show ?thesis by blast
qed

lemma prompt_answered:
  assumes "rx_inv I w es ip [] None" and "queue_contract I Q" and "Q (send_queue (ctx w)) (os w) = []"
    and "command_queued Q bytes n h t w v" and "prompt_is v t p"
    and "send_msg_handle I v = ok u" and "current_send_task (ctx u) \<noteq> NULL"
    and st: "tk_status t = SEND_TASK_STATUS_PROMPT"
    and run: "rx_run I (pre @ reply) u u'" and r: "prompt_reply p (tk_need_recv_len t) pre reply"
  shows "rx_inv I u' es ip [] None \<and>
    trace u' = trace w @ [Ev_Give (wake_semaphore (ctx w)), Ev_Send bytes ATC_SUCCESS] @ answer_events t ATC_SUCCESS reply \<and>
    (\<exists>c. resp_is c reply \<and> handed (Some t) ATC_SUCCESS c u u') \<and> (\<forall>p ob. heap w p = Some ob \<longrightarrow> heap u p = Some ob)"
proof -
  from prompt_started [OF assms(1-7)] obtain now where
      s: "rx_inv I u es ip [] (Some (t\<lparr>tk_timestamp := now\<rparr>))" "prompt_is u (t\<lparr>tk_timestamp := now\<rparr>) p"
      "trace u = trace w @ [Ev_Give (wake_semaphore (ctx w)), Ev_Send bytes ATC_SUCCESS]"
      "\<forall>p ob. heap w p = Some ob \<longrightarrow> heap u p = Some ob" by blast
  let ?t = "t\<lparr>tk_timestamp := now\<rparr>"
  have "binary_done I es ip ?t u reply u'"
    using prompt_binary_run [OF run s(1) _ s(2)] st r by (simp add: prompt_reply_def)
  then obtain c where d: "rx_inv I u' es ip [] None" "trace u' = trace u @ answer_events ?t ATC_SUCCESS reply"
      "resp_is c reply" "handed (Some ?t) ATC_SUCCESS c u u'" unfolding binary_done_def by blast
  have "handed (Some t) ATC_SUCCESS c u u'" using d(4) by (simp add: handed_def delivered_def cong: if_cong)
  moreover have "answer_events ?t ATC_SUCCESS reply = answer_events t ATC_SUCCESS reply"
    by (simp split: option.split response_handler.split)
  ultimately show ?thesis using s(3,4) d(1-3) by auto
qed

text \<open>The call leaves a task with the prompt in the queue.\<close>

lemma prompt_lengths:
  assumes "unat (len :: size_t) \<le> length data" and "(plen :: size_t) \<noteq> 0" and "unat plen \<le> length prompt"
  shows "length (take (unat len) data) = unat len" and "length (take (unat plen) prompt) = unat plen"
    and "take (unat plen) prompt \<noteq> []"
  using assms by (auto simp: unat_eq_0)

lemma prompt_async_queued:
  assumes inv: "rx_inv I w es ip xs None" and Q: "queue_contract I Q"
    and len: "len \<noteq> 0" "unat len \<le> length data" "plen \<noteq> 0" "unat plen \<le> length prompt"
    and call: "atc_send_with_prompt_binary_rx_async I False (Some data) len (Some prompt) plen recv_len
          (Some (App_Response_Handler f)) timeout w = ok (ATC_SUCCESS, w1)"
  shows "\<exists>t. command_queued Q (take (unat len) data) timeout (Some (App_Response_Handler f)) t w w1 \<and>
    prompt_is w1 t (take (unat plen) prompt) \<and> tk_status t = SEND_TASK_STATUS_PROMPT \<and> tk_need_recv_len t = recv_len \<and>
    tk_response_handler t = Some (App_Response_Handler f)"
proof -
  have I: "complete I" "malloc_fresh I" using rx_inv_interface [OF inv] by auto
  let ?h = "Some (App_Response_Handler f)"
  from prompt_async_ok [OF I Q len, of recv_len ?h timeout w] call obtain a b where q:
      "trace w1 = trace w @ [Ev_Give (wake_semaphore (ctx w))]"
      "queued Q (with_prompt b plen recv_len (plain_task a len ?h timeout)) [(a, take (unat len) data), (b, take (unat plen) prompt)] w w1"
    by auto
  let ?t = "with_prompt b plen recv_len (plain_task a len ?h timeout)"
  have "command_queued Q (take (unat len) data) timeout ?h ?t w w1" "prompt_is w1 ?t (take (unat plen) prompt)"
    using queued_prompt [of Q ?t "take (unat len) data" "take (unat plen) prompt" w w1 timeout] q prompt_lengths [OF len(2-4)]
    by simp_all
  then show ?thesis by (intro exI [of _ ?t]) simp
qed

lemma prompt_sync_queued:
  assumes inv: "rx_inv I w es ip xs None" and Q: "queue_contract I Q"
    and len: "len \<noteq> 0" "unat len \<le> length data" "plen \<noteq> 0" "unat plen \<le> length prompt"
    and vars: "caller_vars w res buf rl m b"
    and call: "atc_send_with_prompt_binary_rx_sync I others False (Some data) len (Some prompt) plen recv_len
          res buf rl timeout w = ok (ATC_SUCCESS, w')"
  shows "\<exists>sem t v. sem \<noteq> NULL \<and> wait_and_delete I others sem v = ok (ATC_SUCCESS, w') \<and>
    command_queued Q (take (unat len) data) timeout (Some Sync_Response_Handler) t w v \<and>
    prompt_is v t (take (unat plen) prompt) \<and> tk_status t = SEND_TASK_STATUS_PROMPT \<and> tk_need_recv_len t = recv_len \<and>
    tk_response_handler t = Some Sync_Response_Handler \<and> tk_semaphore t = sem \<and> tk_sync_send_result t = res \<and>
    tk_sync_response_buf t = buf \<and> tk_sync_response_length t = rl \<and> own_semaphore I data len w = Some sem"
proof -
  have I: "complete I" "malloc_fresh I" using rx_inv_interface [OF inv] by auto
  from prompt_sync_ok [OF I Q len, of others recv_len res buf rl timeout w] call obtain p q sem v where v:
      "wait_and_delete I others sem v = ok (ATC_SUCCESS, w')" "sem \<noteq> NULL"
      "trace v = trace w @ [Ev_Give (wake_semaphore (ctx w))]"
      "queued Q (with_prompt q plen recv_len (with_caller sem res buf rl (plain_task p len None timeout)))
        [(p, take (unat len) data), (q, take (unat plen) prompt)] w v" "own_semaphore I data len w = Some sem" by auto
  let ?t = "with_prompt q plen recv_len (with_caller sem res buf rl (plain_task p len None timeout))"
  have "sync_ok w ?t" using caller_vars_sync [OF vars, of sem "plain_task p len None timeout"] by (simp add: sync_ok_def)
  then have "command_queued Q (take (unat len) data) timeout (Some Sync_Response_Handler) ?t w v"
      "prompt_is v ?t (take (unat plen) prompt)"
    using queued_prompt [of Q ?t "take (unat len) data" "take (unat plen) prompt" w v timeout] v(3,4) prompt_lengths [OF len(2-4)]
    by simp_all
  then show ?thesis using v(1,2,5) by (intro exI [of _ sem] exI [of _ ?t] exI [of _ v]) simp
qed

section \<open>Properties\<close>

text \<open>
  C7: A command with a prompt from end to end.  On an idle loop, a command that
  \<open>atc_send_with_prompt_binary_rx_async\<close> accepts and that the next iteration starts is
  transmitted exactly as the caller gave it; whatever arrives up to the first occurrence of the
  prompt is dropped, the caller's handler is called once, with the \<open>recv_len\<close> bytes after
  the prompt, and the loop is idle again.
\<close>

theorem prompt_roundtrip:
  assumes "rx_inv I w es ip [] None" and "queue_contract I Q" and "Q (send_queue (ctx w)) (os w) = []"
    and "len \<noteq> 0" and "unat len \<le> length data" and "plen \<noteq> 0" and "unat plen \<le> length prompt"
    and "atc_send_with_prompt_binary_rx_async I False (Some data) len (Some prompt) plen recv_len
          (Some (App_Response_Handler f)) timeout w = ok (ATC_SUCCESS, w1)"
    and "send_msg_handle I w1 = ok w2" and "current_send_task (ctx w2) \<noteq> NULL"
    and "rx_run I (pre @ reply) w2 w3" and "prompt_reply (take (unat plen) prompt) recv_len pre reply"
  shows "rx_inv I w3 es ip [] None \<and>
    trace w3 = trace w @ [Ev_Give (wake_semaphore (ctx w)), Ev_Send (take (unat len) data) ATC_SUCCESS,
      Ev_Response f ATC_SUCCESS reply recv_len]"
proof -
  from prompt_async_queued [OF assms(1,2,4-8)] obtain t where t:
      "command_queued Q (take (unat len) data) timeout (Some (App_Response_Handler f)) t w w1"
      "prompt_is w1 t (take (unat plen) prompt)" "tk_status t = SEND_TASK_STATUS_PROMPT" "tk_need_recv_len t = recv_len"
      "tk_response_handler t = Some (App_Response_Handler f)" by blast
  from prompt_answered [OF assms(1-3) t(1,2) assms(9,10) t(3) assms(11)] t(4,5) assms(12) prompt_reply_length [OF assms(12)]
  show ?thesis by simp
qed

theorem prompt_roundtrip_witness:
  "\<exists>w1 w2 w3. atc_send_with_prompt_binary_rx_async platform_interface False (Some [65, 84, 13]) 3 (Some [62]) 1 2
       (Some (App_Response_Handler 9)) 0 (demo_idle []) = ok (ATC_SUCCESS, w1) \<and> send_msg_handle platform_interface w1 = ok w2 \<and>
     rx_run platform_interface ([13, 10, 62] @ [1, 0]) w2 w3 \<and>
     trace w3 = [Ev_Give 5, Ev_Send [65, 84, 13] ATC_SUCCESS, Ev_Response 9 ATC_SUCCESS [1, 0] 2]"
proof -
  let ?call = "atc_send_with_prompt_binary_rx_async platform_interface False (Some [65, 84, 13]) 3 (Some [62]) 1 2
       (Some (App_Response_Handler 9)) 0 (demo_idle [])"
  have "\<exists>w1 w2. ?call = ok (ATC_SUCCESS, w1) \<and> send_msg_handle platform_interface w1 = ok w2 \<and> current_send_task (ctx w2) \<noteq> NULL"
    by (simp add: sample_run cong: if_cong)
  then obtain w1 w2 where run: "?call = ok (ATC_SUCCESS, w1)" "send_msg_handle platform_interface w1 = ok w2"
      "current_send_task (ctx w2) \<noteq> NULL" by blast
  have q: "pl_queues (os (demo_idle [])) (send_queue (ctx (demo_idle []))) = []" by simp
  have n: "(3 :: u32) \<noteq> 0" "unat (3 :: u32) \<le> length [65, 84, 13 :: u8]" "(1 :: u32) \<noteq> 0" "unat (1 :: u32) \<le> length [62 :: u8]"
    by simp_all
  from prompt_async_queued [OF demo_idle_inv platform_queues n run(1)] obtain t where t:
      "command_queued (\<lambda>q s. pl_queues s q) (take (unat (3 :: size_t)) [65, 84, 13]) 0 (Some (App_Response_Handler 9)) t (demo_idle []) w1"
      "prompt_is w1 t (take (unat (1 :: size_t)) [62])" "tk_status t = SEND_TASK_STATUS_PROMPT" "tk_need_recv_len t = 2" by blast
  from prompt_started [OF demo_idle_inv platform_queues q t(1,2) run(2,3)] obtain now where
      "rx_inv platform_interface w2 demo_table 51 [] (Some (t\<lparr>tk_timestamp := now\<rparr>))"
      "prompt_is w2 (t\<lparr>tk_timestamp := now\<rparr>) (take (unat (1 :: size_t)) [62])" by blast
  then have "rx_good platform_interface demo_table w2"
    using t(3,4) by (intro rx_goodI [of _ _ _ 51 "[]"]) (auto simp: prompt_ready_def)
  then obtain w3 where w3: "rx_run platform_interface ([13, 10, 62] @ [1, 0]) w2 w3" using rx_run_exists by blast
  have "prompt_reply (take (unat (1 :: size_t)) [62]) 2 [13, 10, 62] [1, 0]"
    by (auto simp: prompt_reply_def strict_prefix_def prefix_Cons suffix_def)
  from prompt_roundtrip [OF demo_idle_inv platform_queues q n run w3 this] show ?thesis using run w3 by auto
qed

text \<open>
  C8: The synchronous call with a prompt.  If it succeeds, and while the caller was blocked the
  event loop started the command and received the prompt and the data after it, then the
  caller finds \<open>ATC_SUCCESS\<close>, the data, cut to the size it offered, and the number of bytes
  stored in its variables; it was woken once, by the semaphore of its own call, which it
  deletes; and the loop is idle again.
\<close>

theorem prompt_sync_roundtrip:
  assumes "rx_inv I w es ip [] None" and "queue_contract I Q" and "Q (send_queue (ctx w)) (os w) = []"
    and "len \<noteq> 0" and "unat len \<le> length data" and "plen \<noteq> 0" and "unat plen \<le> length prompt"
    and "caller_vars w res buf rl m b"
    and "\<And>t v u. command_queued Q (take (unat len) data) timeout (Some Sync_Response_Handler) t w v \<Longrightarrow>
      prompt_is v t (take (unat plen) prompt) \<Longrightarrow> tk_status t = SEND_TASK_STATUS_PROMPT \<Longrightarrow> tk_need_recv_len t = recv_len \<Longrightarrow>
      others v = ok u \<Longrightarrow>
      \<exists>v'. send_msg_handle I v = ok v' \<and> current_send_task (ctx v') \<noteq> NULL \<and> rx_run I (pre @ reply) v' u"
    and "atc_send_with_prompt_binary_rx_sync I others False (Some data) len (Some prompt) plen recv_len
          res buf rl timeout w = ok (ATC_SUCCESS, w')"
    and "prompt_reply (take (unat plen) prompt) recv_len pre reply" and "k = min (length reply) (unat m)"
  shows "heap w' res = Some (O_Result ATC_SUCCESS) \<and> heap w' rl = Some (O_Size (of_nat k)) \<and>
    heap w' buf = Some (O_Buf (take k reply @ drop k b)) \<and> current_send_task (ctx w') = NULL \<and>
    (\<exists>sem. own_semaphore I data len w = Some sem \<and> sem \<noteq> NULL \<and>
       trace w' = trace w @ [Ev_Give (wake_semaphore (ctx w)), Ev_Send (take (unat len) data) ATC_SUCCESS,
         Ev_Give sem, Ev_Take sem 0xFFFFFFFF, Ev_Delete sem])"
proof -
  have I: "complete I" "malloc_fresh I" using rx_inv_interface [OF assms(1)] by auto
  from prompt_sync_queued [OF assms(1,2,4-8,10)] obtain sem t v where t: "sem \<noteq> NULL"
      "wait_and_delete I others sem v = ok (ATC_SUCCESS, w')"
      "command_queued Q (take (unat len) data) timeout (Some Sync_Response_Handler) t w v"
      "prompt_is v t (take (unat plen) prompt)" "tk_status t = SEND_TASK_STATUS_PROMPT" "tk_need_recv_len t = recv_len"
      "tk_response_handler t = Some Sync_Response_Handler" "tk_semaphore t = sem" "tk_sync_send_result t = res"
      "tk_sync_response_buf t = buf" "tk_sync_response_length t = rl" "own_semaphore I data len w = Some sem" by blast
  obtain u where u: "others v = ok u" using t(2) unfolding wait_and_delete_def rbind_eq_ok by blast
  from assms(9) [OF t(3-6) u] obtain v' where v': "send_msg_handle I v = ok v'" "current_send_task (ctx v') \<noteq> NULL"
      "rx_run I (pre @ reply) v' u" by blast
  from prompt_answered [OF assms(1-3) t(3,4) v'(1,2) t(5) v'(3)] assms(11) t(6) obtain c where c:
      "rx_inv I u es ip [] None" "resp_is c reply" "handed (Some t) ATC_SUCCESS c v' u"
      "trace u = trace w @ [Ev_Give (wake_semaphore (ctx w)), Ev_Send (take (unat len) data) ATC_SUCCESS] @ answer_events t ATC_SUCCESS reply"
      "\<forall>p ob. heap w p = Some ob \<longrightarrow> heap v' p = Some ob" by blast
  have vars: "caller_vars v' res buf rl m b" using caller_vars_mono [OF assms(8)] c(5) by blast
  have ne: "reply \<noteq> []" "length reply \<le> 512" using assms(11) by (auto simp: prompt_reply_def)
  note ans = handed_answer [OF t(7,9-11) vars c(2) ne c(3), folded assms(12)]
  from wait_returns [of I others v u sem, OF I(1) u] t(2) have "heap w' = heap u" "ctx w' = ctx u"
      "trace w' = trace u @ [Ev_Take sem ATC_TIMEOUT_MAX, Ev_Delete sem]" by auto
  then show ?thesis using ans c(4) t(1,7,8,12) no_task [OF c(1)] by (simp add: atc_constants)
qed

text \<open>The call in \<open>demo_sync\<close>, whose ring holds OK: the prompt is K, and one byte is wanted.\<close>

definition demo_prompt_posted :: "platform world" where
  "demo_prompt_posted = emit (Ev_Give 5) (put 102 (O_Bytes [75]) (put 100 (O_Bytes [65, 84, 13]) (demo_sync
     \<lparr>os := os demo_sync\<lparr>pl_next := 103, pl_queues := (\<lambda>q. if q = 7
        then [Q_Task (with_prompt 102 1 1 (with_caller 101 90 91 92 (plain_task 100 3 None 0)))] else [])\<rparr>\<rparr>)))"

lemma demo_sync_cells [simp]:
  "heap demo_sync 100 = None" "heap demo_sync 102 = None" "heap demo_sync 103 = None"
  by (simp_all add: demo_sync_def) (simp add: demo_idle_def Let_def demo_rx_prompt_def demo_urc_world_def demo_list_world_def)

lemma demo_prompt_posts:
  "atc_send_with_prompt_binary_rx_sync platform_interface others False (Some [65, 84, 13]) 3 (Some [75]) 1 1 90 91 92 0 demo_sync =
     wait_and_delete platform_interface others 101 demo_prompt_posted"
proof -
  have q: "(\<lambda>q :: addr. [])(7 := x) = (\<lambda>q. if q = 7 then x else [] :: qitem list)" for x by auto
  have o: "demo_sync\<lparr>os := s, heap := h\<rparr> = demo_sync\<lparr>heap := h, os := s\<rparr>" for s h by simp
  have "trace demo_sync = []" "pl_next (os demo_sync) = 100" "pl_queues (os demo_sync) = (\<lambda>q. [])"
    "send_queue (ctx demo_sync) = 7" "wake_semaphore (ctx demo_sync) = 5"
    by (simp_all add: demo_sync_def cong: if_cong)
  then show ?thesis
    by (simp add: sample_run with_caller_def with_prompt_def plain_task_def demo_prompt_posted_def
        wait_and_delete_def q o put_def cong: if_cong)
qed

text \<open>A queued command of \<open>demo_sync\<close>, once started, receives the bytes of the ring.\<close>

lemma demo_prompt_good:
  assumes "command_queued (\<lambda>q s. pl_queues s q) bytes n h t demo_sync v" and "prompt_is v t p"
    and "tk_status t = SEND_TASK_STATUS_PROMPT" and "tk_need_recv_len t \<noteq> 0"
    and "send_msg_handle platform_interface v = ok v'" and "current_send_task (ctx v') \<noteq> NULL"
  shows "rx_good platform_interface demo_table v'" and "rx_buffer (ctx v') = rx_buffer (ctx demo_sync)"
proof -
  from prompt_started [OF demo_sync_facts(1) platform_queues demo_sync_facts(2) assms(1,2,5,6)] obtain now where
      s: "rx_inv platform_interface v' demo_table 51 [] (Some (t\<lparr>tk_timestamp := now\<rparr>))"
        "prompt_is v' (t\<lparr>tk_timestamp := now\<rparr>) p" "rx_buffer (ctx v') = rx_buffer (ctx demo_sync)" by blast
  show "rx_good platform_interface demo_table v'"
    by (rule rx_goodI [of _ _ _ 51 "[]"]) (use s assms(3,4) in \<open>auto simp: prompt_ready_def\<close>)
  show "rx_buffer (ctx v') = rx_buffer (ctx demo_sync)" by (rule s(3))
qed

lemma demo_prompt_run:
  assumes "command_queued (\<lambda>q s. pl_queues s q) bytes n h t demo_sync v" and "prompt_is v t p"
    and "tk_status t = SEND_TASK_STATUS_PROMPT" and "tk_need_recv_len t \<noteq> 0" and "demo_others v = ok u"
  shows "\<exists>v'. send_msg_handle platform_interface v = ok v' \<and> current_send_task (ctx v') \<noteq> NULL \<and>
    rx_run platform_interface [79, 75, 10] v' u"
proof -
  from assms(5) obtain v' where v': "send_msg_handle platform_interface v = ok v'" "current_send_task (ctx v') \<noteq> NULL"
      "recv_data_handle platform_interface v' = ok u"
    unfolding demo_others_def rbind_eq_ok by (auto split: if_splits)
  note good = demo_prompt_good [OF assms(1-4) v'(1,2)]
  from recv_data_run [OF good(1) _ v'(3)] good(2) demo_sync_facts(7,8) have "rx_run platform_interface [79, 75, 10] v' u" by simp
  then show ?thesis using v' by blast
qed

lemma demo_prompt_answers: "\<exists>u. demo_others demo_prompt_posted = ok u"
proof -
  let ?I = platform_interface and ?t = "with_prompt 102 1 1 (with_caller 101 90 91 92 (plain_task 100 3 None 0))"
  have f: "heap demo_sync 90 \<noteq> None" "trace demo_sync = []" "wake_semaphore (ctx demo_sync) = 5" "send_queue (ctx demo_sync) = 7"
    "pl_queues (os demo_sync) = (\<lambda>q. [])" "current_send_task (ctx demo_sync) = NULL" "caller_vars demo_sync 90 91 92 2 [1, 2, 3, 4]"
    using demo_sync_facts(4) by (simp_all add: demo_sync_def cong: if_cong)
  have "\<exists>v. send_msg_handle ?I demo_prompt_posted = ok v \<and> current_send_task (ctx v) \<noteq> NULL"
    using f(4-6) by (simp add: sample_run demo_prompt_posted_def with_caller_def with_prompt_def
        plain_task_def cong: if_cong)
  then obtain v where v: "send_msg_handle ?I demo_prompt_posted = ok v" "current_send_task (ctx v) \<noteq> NULL" by blast
  have q: "command_queued (\<lambda>q s. pl_queues s q) [65, 84, 13] 0 (Some Sync_Response_Handler) ?t demo_sync demo_prompt_posted"
    using f by (auto simp: command_queued_def demo_prompt_posted_def task_ready_def task_bytes_def bytes_at_def default_timeout_value
        caller_vars_def sync_ok_def)
  have p: "prompt_is demo_prompt_posted ?t [75]" by (simp add: prompt_is_def demo_prompt_posted_def)
  have "tk_need_recv_len ?t \<noteq> 0" by simp
  note good = demo_prompt_good [OF q p _ this v, simplified]
  from recv_data_ok [OF good(1)] good(2) demo_sync_facts(8) show ?thesis using v by (auto simp: demo_others_def)
qed

theorem prompt_sync_roundtrip_witness:
  "\<exists>w'. atc_send_with_prompt_binary_rx_sync platform_interface demo_others False (Some [65, 84, 13]) 3 (Some [75]) 1 1
       90 91 92 0 demo_sync = ok (ATC_SUCCESS, w') \<and>
     heap w' 90 = Some (O_Result ATC_SUCCESS) \<and> heap w' 92 = Some (O_Size 1) \<and> heap w' 91 = Some (O_Buf [10, 2, 3, 4])"
proof -
  let ?call = "atc_send_with_prompt_binary_rx_sync platform_interface demo_others False (Some [65, 84, 13]) 3 (Some [75]) 1 1
       90 91 92 0 demo_sync"
  obtain u where "demo_others demo_prompt_posted = ok u" using demo_prompt_answers by blast
  from wait_returns [of platform_interface demo_others demo_prompt_posted u 101, OF platform_complete this] obtain w' where
    run: "?call = ok (ATC_SUCCESS, w')"
    unfolding demo_prompt_posts by blast
  have n: "(3 :: u32) \<noteq> 0" "unat (3 :: u32) \<le> length [65, 84, 13 :: u8]" "(1 :: u32) \<noteq> 0" "unat (1 :: u32) \<le> length [75 :: u8]"
    by simp_all
  have r: "prompt_reply (take (unat (1 :: size_t)) [75]) 1 [79, 75] [10]"
    by (auto simp: prompt_reply_def strict_prefix_def prefix_Cons suffix_def)
  have o: "\<exists>v'. send_msg_handle platform_interface v = ok v' \<and> current_send_task (ctx v') \<noteq> NULL \<and>
      rx_run platform_interface ([79, 75] @ [10]) v' u"
    if "command_queued (\<lambda>q s. pl_queues s q) (take (unat (3 :: u32)) [65, 84, 13]) 0 (Some Sync_Response_Handler) t demo_sync v"
      "prompt_is v t (take (unat (1 :: u32)) [75])" "tk_status t = SEND_TASK_STATUS_PROMPT" "tk_need_recv_len t = 1"
      "demo_others v = ok u" for t v u
    using demo_prompt_run [OF that(1-3) _ that(5)] that(4) by simp
  from prompt_sync_roundtrip [OF demo_sync_facts(1) platform_queues demo_sync_facts(2) n demo_sync_facts(4) o run r refl]
  show ?thesis using run by simp
qed

end
