(* ===== verification/Api_Steps.thy ===== *)
theory Api_Steps
  imports System
begin

text \<open>
  The calls that application threads make are steps that \<open>System\<close> allows between the handlers
  of the event loop: an asynchronous call is one of them; a call that blocks is one before and
  one after the thread has waited, and between the two its variables are \<open>waited\<close>.  The
  lemmas need only that the relation allows the task that is queued; a call with a prompt and
  \<open>recv_len = 0\<close> is such a step too, of a relation that does not require \<open>expects_data\<close>.
\<close>

section \<open>Sending\<close>

lemma unchanged_elsewhere: "unchanged Q w w' \<Longrightarrow> threads_emit w w' \<Longrightarrow> elsewhere I Q allowed w w'"
  by (rule elsewhere.threads) (auto simp: unchanged_def threads_run_def kept_heap)

lemma async_elsewhere:
  assumes "complete I" "malloc_fresh I" and "queue_contract I Q" and "len \<noteq> 0" "unat len \<le> length data"
    and h: "h = map_option App_Response_Handler app" and a: "\<And>t. tk_status t = SEND_TASK_STATUS_LINE_RECV \<Longrightarrow> allowed t"
    and call: "atc_send_async I False (Some data) len h timeout w = ok (r, w')"
  shows "elsewhere I Q allowed w w'"
proof (cases "r = ATC_SUCCESS")
  case True
  with send_async_ok [OF assms(1-5), of h timeout w] call obtain p where p:
    "trace w' = trace w @ [Ev_Give (wake_semaphore (ctx w))]"
    "queued Q (plain_task p len h timeout) [(p, take (unat len) data)] w w'" by auto
  have "command_queued Q (take (unat len) data) timeout h (plain_task p len h timeout) w w'"
    using queued_plain [of Q "plain_task p len h timeout" "take (unat len) data" w w' timeout] p assms(5) h
    by (cases app) simp_all
  then show ?thesis by (rule elsewhere.command) (use a in simp_all)
next
  case False
  with send_async_ok [OF assms(1-5), of h timeout w] call show ?thesis
    by (auto intro: unchanged_elsewhere threads_emit_same)
qed

lemma prompt_async_elsewhere:
  assumes "complete I" "malloc_fresh I" and "queue_contract I Q" and "len \<noteq> 0" "unat len \<le> length data"
    and "plen \<noteq> 0" "unat plen \<le> length prompt" and a: "\<And>t. tk_need_recv_len t = recv_len \<Longrightarrow> allowed t" and h: "h = map_option App_Response_Handler app"
    and call: "atc_send_with_prompt_binary_rx_async I False (Some data) len (Some prompt) plen recv_len h timeout w = ok (r, w')"
  shows "elsewhere I Q allowed w w'"
proof (cases "r = ATC_SUCCESS")
  case True
  with prompt_async_ok [OF assms(1-7), of recv_len h timeout w] call obtain p q where p:
    "trace w' = trace w @ [Ev_Give (wake_semaphore (ctx w))]"
    "queued Q (with_prompt q plen recv_len (plain_task p len h timeout))
       [(p, take (unat len) data), (q, take (unat plen) prompt)] w w'" by auto
  let ?t = "with_prompt q plen recv_len (plain_task p len h timeout)"
  have n: "unat (tk_length ?t) = length (take (unat len) data)" "unat (tk_prompt_len ?t) = length (take (unat plen) prompt)"
      "take (unat plen) prompt \<noteq> []"
    using assms(5-7) unat_gt_0 [of plen] by (auto simp: min_absorb2)
  note c = queued_prompt [of Q ?t "take (unat len) data" "take (unat plen) prompt" w w' timeout]
  have "command_queued Q (take (unat len) data) timeout h ?t w w'" using c(1) p n h by (cases app) simp_all
  moreover have "prompt_is w' ?t (take (unat plen) prompt)" using c(2) p n h by (cases app) simp_all
  ultimately show ?thesis using a by (intro elsewhere.command) auto
next
  case False
  with prompt_async_ok [OF assms(1-7), of recv_len h timeout w] call show ?thesis
    by (auto intro: unchanged_elsewhere threads_emit_same)
qed

lemma gave_up_elsewhere: "gave_up I Q data len sizes w w' \<Longrightarrow> elsewhere I Q allowed w w'"
  by (rule unchanged_elsewhere) (auto simp: threads_emit_def dest!: gave_up_unchanged)

text \<open>A synchronous call is two such steps, one before and one after the caller is blocked.\<close>

lemma sync_elsewhere:
  assumes "complete I" "malloc_fresh I" and "queue_contract I Q" and "len \<noteq> 0" "unat len \<le> length data"
    and "buf = NULL \<or> rl \<noteq> NULL" and s: "\<And>sem t. sync_ok w (with_caller sem res buf rl t)"
    and a: "\<And>t. tk_status t = SEND_TASK_STATUS_LINE_RECV \<Longrightarrow> allowed t"
  shows "(\<exists>w'. atc_send_sync I others False (Some data) len res buf rl timeout w = ok (ATC_ERROR, w') \<and> elsewhere I Q allowed w w') \<or>
    (\<exists>sem v. atc_send_sync I others False (Some data) len res buf rl timeout w = wait_and_delete I others sem v \<and>
       elsewhere I Q allowed w v)"
proof -
  from send_sync_ok [OF assms(1-6), of others res timeout w] show ?thesis
  proof (elim disjE exE conjE)
    fix w' assume "atc_send_sync I others False (Some data) len res buf rl timeout w = ok (ATC_ERROR, w')" "gave_up I Q data len {} w w'"
    then show ?thesis using gave_up_elsewhere by blast
  next
    fix p sem v
    let ?t = "with_caller sem res buf rl (plain_task p len None timeout)"
    assume c: "atc_send_sync I others False (Some data) len res buf rl timeout w = wait_and_delete I others sem v"
      "trace v = trace w @ [Ev_Give (wake_semaphore (ctx w))]" "queued Q ?t [(p, take (unat len) data)] w v"
    have "command_queued Q (take (unat len) data) timeout (Some Sync_Response_Handler) ?t w v"
      using queued_plain [of Q ?t "take (unat len) data" w v timeout] c assms(5) s by simp
    then have "elsewhere I Q allowed w v" by (rule elsewhere.command) (use a in simp_all)
    then show ?thesis using c(1) by blast
  qed
qed

lemma prompt_sync_elsewhere:
  assumes "complete I" "malloc_fresh I" and "queue_contract I Q" and "len \<noteq> 0" "unat len \<le> length data"
    and "plen \<noteq> 0" "unat plen \<le> length prompt" and a: "\<And>t. tk_need_recv_len t = recv_len \<Longrightarrow> allowed t"
    and s: "\<And>sem t. sync_ok w (with_caller sem res buf rl t)"
    and c: "outcome = atc_send_with_prompt_binary_rx_sync I others False (Some data) len (Some prompt) plen recv_len res buf rl timeout w"
  shows "(\<exists>w'. outcome = ok (ATC_ERROR, w') \<and> elsewhere I Q allowed w w') \<or>
    (\<exists>sem v. outcome = wait_and_delete I others sem v \<and> elsewhere I Q allowed w v)"
proof -
  from prompt_sync_ok [OF assms(1-7), of others recv_len res buf rl timeout w] show ?thesis
    unfolding c [symmetric]
  proof (elim disjE exE conjE)
    fix w' assume "outcome = ok (ATC_ERROR, w')" "gave_up I Q data len {plen} w w'"
    then show ?thesis using gave_up_elsewhere by blast
  next
    fix p q sem v
    let ?t = "with_prompt q plen recv_len (with_caller sem res buf rl (plain_task p len None timeout))"
    assume v: "outcome = wait_and_delete I others sem v" "trace v = trace w @ [Ev_Give (wake_semaphore (ctx w))]"
      "queued Q ?t [(p, take (unat len) data), (q, take (unat plen) prompt)] w v"
    have n: "unat (tk_length ?t) = length (take (unat len) data)" "unat (tk_prompt_len ?t) = length (take (unat plen) prompt)"
        "take (unat plen) prompt \<noteq> []"
      using assms(5-7) unat_gt_0 [of plen] by (auto simp: min_absorb2)
    have st: "sync_ok w ?t" using s [of sem "with_prompt q plen recv_len (plain_task p len None timeout)"] by (simp add: sync_ok_def)
    note k = queued_prompt [of Q ?t "take (unat len) data" "take (unat plen) prompt" w v timeout]
    have "command_queued Q (take (unat len) data) timeout (Some Sync_Response_Handler) ?t w v" using k(1) v(2,3) n st by simp
    moreover have "prompt_is v ?t (take (unat plen) prompt)" using k(2) v(2,3) n st by simp
    ultimately have "elsewhere I Q allowed w v" using a by (intro elsewhere.command) auto
    then show ?thesis using v(1) by blast
  qed
qed

lemma wake_up_elsewhere:
  assumes "complete I" and Q: "queue_contract I Q" and "wait_and_delete I ok sem w = ok (r, w')"
  shows "elsewhere I Q allowed w w'"
proof -
  note keep = queue_contract_keeps [OF Q]
  obtain x s where t: "os_sem_take I sem ATC_TIMEOUT_MAX w = ok (x, emit (Ev_Take sem ATC_TIMEOUT_MAX) (w\<lparr>os := s\<rparr>))"
    using os_sem_take_ok [OF assms(1)] by blast
  let ?v = "emit (Ev_Take sem ATC_TIMEOUT_MAX) (w\<lparr>os := s\<rparr>)"
  obtain u where d: "os_sem_delete I sem ?v = ok (emit (Ev_Delete sem) (?v\<lparr>os := u\<rparr>))"
    using os_sem_delete_ok [OF assms(1)] by blast
  have "same_queues Q (os w) s" using os_sem_take_keeps [OF keep t] by simp
  moreover have "same_queues Q s u" using os_sem_delete_keeps [OF keep d] by simp
  moreover have "w' = emit (Ev_Delete sem) (?v\<lparr>os := u\<rparr>)" using assms(3) t d by (simp add: wait_and_delete_def)
  ultimately have "unchanged Q w w'" "w' = emit (Ev_Delete sem) (?v\<lparr>os := u\<rparr>)" by (simp_all add: unchanged_def same_queues_def)
  then show ?thesis by (auto intro: unchanged_elsewhere)
qed

section \<open>Registration and removal\<close>

lemma local_freed: "heap w out = None \<Longrightarrow> (heap w)(out := None) = heap w"
  by auto

text \<open>The call up to its wait: nothing happens, or a message with a variable of the caller's is queued.\<close>

lemma message_steps:
  assumes I: "complete I" and Q: "queue_contract I Q" and out: "out \<noteq> NULL" "heap w out = None"
    and a: "a \<noteq> NULL" "a \<noteq> out" "heap w a = None" and s: "same_queues Q (os w) s"
    and msg: "ty = MSG_TYPE_URC_REGISTER \<and> (\<exists>e i. ob = O_Reg \<lparr>rg_entry = e, rg_out_id = out\<rparr> \<and> 0 \<in> set (ue_prefix e) \<and> x = O_Int i) \<or>
      ty = MSG_TYPE_URC_UNREGISTER \<and> (\<exists>i r. ob = O_Unreg \<lparr>un_id = i, un_out_result = out\<rparr> \<and> x = O_Result r)"
    and body: "body (put out x w) = post_msg I others ty a sel out failure (put a ob ((put out x w)\<lparr>os := s\<rparr>))"
  shows "(\<exists>w'. with_local out x body w = ok (failure, w') \<and> unchanged Q w w' \<and> threads_emit w w') \<or>
    (\<exists>sem m v. message_queued Q m w v \<and> msg_out v m = out \<and>
       with_local out x body w = rbind (rbind (others v) (answered I sem sel out)) (\<lambda>(r, w). ok (r, w\<lparr>heap := (heap w)(out := None)\<rparr>)))"
proof -
  let ?v = "put a ob ((put out x w)\<lparr>os := s\<rparr>)"
  have "heap ?v a = Some ob" by simp
  from post_msg_steps [OF I Q this, of others ty sel out failure] show ?thesis
  proof (elim disjE exE conjE)
    fix w' assume w': "post_msg I others ty a sel out failure ?v = ok (failure, w')" "heap w' = (heap ?v)(a := None)"
      "ctx w' = ctx ?v" "same_queues Q (os ?v) (os w')" "threads_emit ?v w'"
    have "(heap w')(out := None) = heap w" using w'(2) out a by auto
    then have "unchanged Q w (w'\<lparr>heap := (heap w')(out := None)\<rparr>)"
      using w'(3,4) s by (simp add: unchanged_def same_queues_def)
    moreover have "threads_emit w (w'\<lparr>heap := (heap w')(out := None)\<rparr>)" using w'(5) by (simp add: threads_emit_def)
    ultimately show ?thesis using w'(1) body by (intro disjI1 exI [of _ "w'\<lparr>heap := (heap w')(out := None)\<rparr>"]) (simp add: with_local_def)
  next
    fix sem u
    let ?m = "\<lparr>ms_type = ty, ms_data = a, ms_free_fn = Some Msg_Free, ms_semaphore = sem\<rparr>"
    assume u: "sem \<noteq> NULL" "heap u = heap ?v" "ctx u = ctx ?v"
      "\<forall>q. Q q (os u) = Q q (os ?v) @ (if q = external_api_queue (ctx ?v) then [Q_Msg ?m] else [])"
      "post_msg I others ty a sel out failure ?v = rbind (others u) (answered I sem sel out)"
      "threads_emit ?v u"
    have o: "msg_out u ?m = out" using msg u(2) by (auto simp: msg_out_def)
    have "msg_ready u ?m" using msg u(1,2) a out(1) o by (auto simp: msg_ready_def)
    then have "message_queued Q ?m w u"
      unfolding message_queued_def o using u(2-4,6) a(3) out(2) s by (simp add: same_queues_def threads_emit_def)
    then show ?thesis using o u(5) body by (intro disjI2 exI [of _ sem] exI [of _ ?m] exI [of _ u]) (simp add: with_local_def)
  qed
qed

lemma local_unchanged:
  assumes "heap w out = None" and "body (put out x w) = ok (r, v)" and "heap v = heap (put out x w)" "ctx v = ctx w"
    and "same_queues Q (os w) (os v)" "trace v = trace w"
  shows "\<exists>w'. with_local out x body w = ok (r, w') \<and> unchanged Q w w' \<and> threads_emit w w'"
  using assms local_freed [of w out] by (intro exI [of _ "v\<lparr>heap := (heap v)(out := None)\<rparr>"]) (simp add: with_local_def unchanged_def threads_emit_same)

lemma register_steps:
  assumes I: "complete I" "malloc_fresh I" and Q: "queue_contract I Q" and out: "out \<noteq> NULL" "heap w out = None"
    and p: "0 \<in> set p" and h: "handler \<noteq> NULL"
  shows "(\<exists>w'. atc_urc_register I others False (Some p) handler out w = ok (-1, w') \<and> unchanged Q w w' \<and> threads_emit w w') \<or>
    (\<exists>sem m v. message_queued Q m w v \<and> msg_out v m = out \<and>
       atc_urc_register I others False (Some p) handler out w =
         rbind (rbind (others v) (answered I sem sel_int out)) (\<lambda>(r, w). ok (r, w\<lparr>heap := (heap w)(out := None)\<rparr>)))"
proof -
  let ?x = "O_Int (-1)" and ?body = "register_body I others p handler out"
  show ?thesis
    unfolding register_unfold [OF I(1) p h]
  proof (cases rule: register_body_cases [OF I Q, of others p handler out "put out ?x w", case_names refused posts])
    case (refused v)
    from local_unchanged [where Q = Q and body = ?body, OF out(2) refused(1,2)] refused(3-5)
    show "(\<exists>w'. with_local out ?x ?body w = ok (-1, w') \<and> unchanged Q w w' \<and> threads_emit w w') \<or>
      (\<exists>sem m v. message_queued Q m w v \<and> msg_out v m = out \<and> with_local out ?x ?body w =
         rbind (rbind (others v) (answered I sem sel_int out)) (\<lambda>(r, w). ok (r, w\<lparr>heap := (heap w)(out := None)\<rparr>)))" by simp
  next
    case (posts a s)
    have a: "a \<noteq> out" "heap w a = None" using posts(2) by (auto split: if_splits)
    have "same_queues Q (os w) s" using posts(3) by simp
    from message_steps [where body = ?body, OF I(1) Q out posts(1) a this _ posts(6)]
    show "(\<exists>w'. with_local out ?x ?body w = ok (-1, w') \<and> unchanged Q w w' \<and> threads_emit w w') \<or>
      (\<exists>sem m v. message_queued Q m w v \<and> msg_out v m = out \<and> with_local out ?x ?body w =
         rbind (rbind (others v) (answered I sem sel_int out)) (\<lambda>(r, w). ok (r, w\<lparr>heap := (heap w)(out := None)\<rparr>)))" by simp
  qed
qed

lemma unregister_steps:
  assumes I: "complete I" "malloc_fresh I" and Q: "queue_contract I Q" and out: "out \<noteq> NULL" "heap w out = None"
    and i: "0 < i"
  shows "(\<exists>w'. atc_urc_unregister I others False i out w = ok (ATC_ERROR, w') \<and> unchanged Q w w' \<and> threads_emit w w') \<or>
    (\<exists>sem m v. message_queued Q m w v \<and> msg_out v m = out \<and>
       atc_urc_unregister I others False i out w =
         rbind (rbind (others v) (answered I sem sel_result out)) (\<lambda>(r, w). ok (r, w\<lparr>heap := (heap w)(out := None)\<rparr>)))"
proof -
  note keep = queue_contract_keeps [OF Q]
  let ?x = "O_Result ATC_ERROR"
  let ?w0 = "put out ?x w" and ?body = "unregister_body I others i out"
  have "(\<exists>w'. with_local out ?x ?body w = ok (ATC_ERROR, w') \<and> unchanged Q w w' \<and> threads_emit w w') \<or>
    (\<exists>sem m v. message_queued Q m w v \<and> msg_out v m = out \<and> with_local out ?x ?body w =
       rbind (rbind (others v) (answered I sem sel_result out)) (\<lambda>(r, w). ok (r, w\<lparr>heap := (heap w)(out := None)\<rparr>)))"
  proof (cases rule: os_malloc_cases [OF I, of sizeof_urc_unregister_msg ?w0, case_names fails fresh])
    case (fails s)
    have "?body ?w0 = ok (ATC_ERROR, ?w0\<lparr>os := s\<rparr>)" using fails by (simp add: unregister_body_def)
    from local_unchanged [where Q = Q and body = ?body, OF out(2) this] show ?thesis using os_malloc_keeps [OF keep fails] by simp
  next
    case (fresh a s)
    have a: "a \<noteq> out" "heap w a = None" using fresh(3) by (auto split: if_splits)
    have ks: "same_queues Q (os w) s" using os_malloc_keeps [OF keep fresh(1)] by simp
    have "?body ?w0 = post_msg I others MSG_TYPE_URC_UNREGISTER a sel_result out ATC_ERROR
        (put a (O_Unreg \<lparr>un_id = i, un_out_result = out\<rparr>) (?w0\<lparr>os := s\<rparr>))"
      using fresh(1,2) by (simp add: unregister_body_def)
    from message_steps [where body = ?body, OF I(1) Q out fresh(2) a ks _ this] show ?thesis by simp
  qed
  then show ?thesis unfolding unregister_unfold [OF I(1) i] .
qed

text \<open>
  The end of the call: the semaphore is deleted and the variable goes out of scope, which
  nothing refers to once the message has been served.
\<close>

lemma answered_elsewhere:
  assumes "complete I" and Q: "queue_contract I Q" and run: "answered I sem sel out w = ok (r, w')"
    and out: "heap w out = Some y" "is_caller y" "\<not> waited Q w out"
  shows "elsewhere I Q allowed w (w'\<lparr>heap := (heap w')(out := None)\<rparr>)"
proof -
  note keep = queue_contract_keeps [OF Q]
  obtain x s where t: "os_sem_take I sem ATC_TIMEOUT_MAX w = ok (x, emit (Ev_Take sem ATC_TIMEOUT_MAX) (w\<lparr>os := s\<rparr>))"
    using os_sem_take_ok [OF assms(1)] by blast
  let ?v = "emit (Ev_Take sem ATC_TIMEOUT_MAX) (w\<lparr>os := s\<rparr>)"
  obtain u where d: "os_sem_delete I sem ?v = ok (emit (Ev_Delete sem) (?v\<lparr>os := u\<rparr>))"
    using os_sem_delete_ok [OF assms(1)] by blast
  have q: "same_queues Q (os w) s" "same_queues Q s u"
    using os_sem_take_keeps [OF keep t] os_sem_delete_keeps [OF keep d] by simp_all
  have "w' = emit (Ev_Delete sem) (?v\<lparr>os := u\<rparr>)" using run t d by (auto simp: answered_def rbind_eq_ok)
  then show ?thesis using q out
    by (intro elsewhere.threads) (auto simp: threads_run_def kept_def same_queues_def)
qed

end
