(* ===== verification/Client_Spec.thy ===== *)
theory Client_Spec
  imports ATC_Types
begin

text \<open>
  What the library promises its users, without heap, buffers and threads: commands wait in
  the order in which they were queued, one at a time is under way, each is answered once.
  The specification is an executable transition function on a list of waiting commands and
  the current one; its actions say what is visible outside.  The second half is the rule by
  which an implementation is shown to follow it, as a locale.
\<close>

section \<open>Commands and actions\<close>

record command =
  cd_bytes :: "u8 list"
  cd_handler :: "response_handler option"
  cd_semaphore :: addr

record client =
  waiting :: "command list"
  running :: "command option"

datatype action =
    Enqueue command                       \<comment> \<open>a thread queues a command\<close>
  | Begin command                         \<comment> \<open>the oldest one is transmitted\<close>
  | Refuse command atc_result             \<comment> \<open>the transmission fails\<close>
  | Lose command                          \<comment> \<open>there is no memory for it\<close>
  | Answer command atc_result "u8 list"   \<comment> \<open>the current one ends, with a response\<close>
  | Other event                           \<comment> \<open>anything but a transmission or a response\<close>

fun quiet :: "event \<Rightarrow> bool" where
  "quiet (Ev_Send bs r) = False"
| "quiet (Ev_Response f r bs n) = False"
| "quiet _ = True"

text \<open>How the sender of a command learns of its end: its handler is called, or it is woken.\<close>

definition answer_events :: "command \<Rightarrow> atc_result \<Rightarrow> u8 list \<Rightarrow> event list" where
  "answer_events c r bs =
     (case cd_handler c of
        None \<Rightarrow> []
      | Some Sync_Response_Handler \<Rightarrow> if cd_semaphore c \<noteq> NULL then [Ev_Give (cd_semaphore c)] else []
      | Some (App_Response_Handler f) \<Rightarrow> [Ev_Response f r bs (of_nat (length bs))])"

fun action_events :: "action \<Rightarrow> event list" where
  "action_events (Begin c) = [Ev_Send (cd_bytes c) ATC_SUCCESS]"
| "action_events (Refuse c r) = Ev_Send (cd_bytes c) r # answer_events c ATC_HARDWARE_ERROR []"
| "action_events (Answer c r bs) = answer_events c r bs"
| "action_events (Other e) = [e]"
| "action_events _ = []"

definition next_is :: "client \<Rightarrow> command \<Rightarrow> bool" where
  "next_is s c \<longleftrightarrow> running s = None \<and> (case waiting s of [] \<Rightarrow> False | d # ds \<Rightarrow> d = c)"

fun client_step :: "client \<Rightarrow> action \<Rightarrow> client option" where
  "client_step s (Enqueue c) = Some (s\<lparr>waiting := waiting s @ [c]\<rparr>)"
| "client_step s (Begin c) = (if next_is s c then Some \<lparr>waiting = tl (waiting s), running = Some c\<rparr> else None)"
| "client_step s (Refuse c r) =
     (if next_is s c \<and> r \<noteq> ATC_SUCCESS then Some (s\<lparr>waiting := tl (waiting s)\<rparr>) else None)"
| "client_step s (Lose c) = (if next_is s c then Some (s\<lparr>waiting := tl (waiting s)\<rparr>) else None)"
| "client_step s (Answer c r bs) = (if running s = Some c then Some (s\<lparr>running := None\<rparr>) else None)"
| "client_step s (Other e) = (if quiet e then Some s else None)"

primrec run_actions :: "('s \<Rightarrow> 'a \<Rightarrow> 's option) \<Rightarrow> 's \<Rightarrow> 'a list \<Rightarrow> 's option" where
  "run_actions step s [] = Some s"
| "run_actions step s (a # as) = (case step s a of None \<Rightarrow> None | Some t \<Rightarrow> run_actions step t as)"

lemma run_actions_append: "run_actions step s (as @ bs) = (case run_actions step s as of None \<Rightarrow> None | Some t \<Rightarrow> run_actions step t bs)"
  by (induction as arbitrary: s) (auto split: option.split)

section \<open>What follows from the specification\<close>

definition enqueued :: "action list \<Rightarrow> command list" where
  "enqueued as = concat (map (\<lambda>a. case a of Enqueue c \<Rightarrow> [c] | _ \<Rightarrow> []) as)"

definition taken :: "action list \<Rightarrow> command list" where
  "taken as = concat (map (\<lambda>a. case a of Begin c \<Rightarrow> [c] | Refuse c r \<Rightarrow> [c] | Lose c \<Rightarrow> [c] | _ \<Rightarrow> []) as)"

definition sent :: "action list \<Rightarrow> command list" where
  "sent as = concat (map (\<lambda>a. case a of Begin c \<Rightarrow> [c] | Refuse c r \<Rightarrow> [c] | _ \<Rightarrow> []) as)"

definition ended :: "action list \<Rightarrow> command list" where
  "ended as = concat (map (\<lambda>a. case a of Answer c r bs \<Rightarrow> [c] | Refuse c r \<Rightarrow> [c] | _ \<Rightarrow> []) as)"

lemmas projection_defs = enqueued_def taken_def sent_def ended_def

lemma projections_append [simp]:
  "enqueued (as @ bs) = enqueued as @ enqueued bs" "taken (as @ bs) = taken as @ taken bs"
  "sent (as @ bs) = sent as @ sent bs" "ended (as @ bs) = ended as @ ended bs"
  by (simp_all add: projection_defs)

lemma projections_other [simp]:
  "enqueued (map Other es) = []" "taken (map Other es) = []" "sent (map Other es) = []" "ended (map Other es) = []"
  by (induction es) (simp_all add: projection_defs)

text \<open>First in, first out: none is lost track of, doubled or overtaken.\<close>

lemma next_isD: "next_is s c \<Longrightarrow> running s = None \<and> waiting s = c # tl (waiting s)"
  by (auto simp: next_is_def split: list.splits)

lemma client_fifo:
  "run_actions client_step s as = Some t \<Longrightarrow> waiting s @ enqueued as = taken as @ waiting t"
proof (induction as arbitrary: s)
  case (Cons a as)
  obtain u where u: "client_step s a = Some u" "run_actions client_step u as = Some t"
    using Cons.prems by (auto split: option.splits)
  have "waiting s @ enqueued [a] = taken [a] @ waiting u"
    using u(1) by (cases a) (auto simp: projection_defs split: if_splits dest!: next_isD)
  moreover have "waiting u @ enqueued as = taken as @ waiting t" by (rule Cons.IH [OF u(2)])
  ultimately show ?case using projections_append(1,2) [of "[a]" as] by (metis append.assoc append_Cons append_Nil)
qed (simp add: projection_defs)

text \<open>One at a time: a command is answered once, and before the next one begins.\<close>

definition current :: "client \<Rightarrow> command list" where
  "current s = (case running s of None \<Rightarrow> [] | Some c \<Rightarrow> [c])"

lemma client_one:
  "run_actions client_step s as = Some t \<Longrightarrow> current s @ sent as = ended as @ current t"
proof (induction as arbitrary: s)
  case (Cons a as)
  obtain u where u: "client_step s a = Some u" "run_actions client_step u as = Some t"
    using Cons.prems by (auto split: option.splits)
  have "current s @ sent [a] = ended [a] @ current u"
    using u(1) by (cases a) (auto simp: projection_defs current_def split: if_splits dest!: next_isD)
  moreover have "current u @ sent as = ended as @ current t" by (rule Cons.IH [OF u(2)])
  ultimately show ?case using projections_append(3,4) [of "[a]" as] by (metis append.assoc append_Cons append_Nil)
qed (simp add: projection_defs)

lemma sent_taken: "subseq (sent as) (taken as)"
  by (induction as) (auto simp: projection_defs split: action.split intro: subseq_order.order_trans)

text \<open>What is seen of a run: the bytes of the commands sent, and the calls of the handlers of those ended.\<close>

definition transmissions :: "event list \<Rightarrow> u8 list list" where
  "transmissions es = concat (map (\<lambda>e. case e of Ev_Send bs r \<Rightarrow> [bs] | _ \<Rightarrow> []) es)"

definition handler_calls :: "event list \<Rightarrow> addr list" where
  "handler_calls es = concat (map (\<lambda>e. case e of Ev_Response f r bs n \<Rightarrow> [f] | _ \<Rightarrow> []) es)"

definition app_handlers :: "command list \<Rightarrow> addr list" where
  "app_handlers cs = concat (map (\<lambda>c. case cd_handler c of Some (App_Response_Handler f) \<Rightarrow> [f] | _ \<Rightarrow> []) cs)"

lemmas seen_defs = transmissions_def handler_calls_def app_handlers_def

lemma seen_append [simp]:
  "transmissions (es @ fs) = transmissions es @ transmissions fs" "handler_calls (es @ fs) = handler_calls es @ handler_calls fs"
  "app_handlers (cs @ ds) = app_handlers cs @ app_handlers ds"
  by (simp_all add: seen_defs)

lemma quiet_unseen: "quiet e \<Longrightarrow> transmissions [e] = [] \<and> handler_calls [e] = []"
  by (cases e) (simp_all add: seen_defs)

lemma answer_seen: "transmissions (answer_events c r bs) = [] \<and> handler_calls (answer_events c r bs) = app_handlers [c]"
  by (auto simp: answer_events_def seen_defs split: option.split response_handler.split)

lemma action_seen:
  assumes "client_step s a = Some t"
  shows "transmissions (action_events a) = map cd_bytes (sent [a]) \<and> handler_calls (action_events a) = app_handlers (ended [a])"
proof (cases a)
  case (Refuse c r)
  have "action_events a = [Ev_Send (cd_bytes c) r] @ answer_events c ATC_HARDWARE_ERROR []" using Refuse by simp
  then show ?thesis using answer_seen Refuse by (simp only: seen_append) (simp add: projection_defs seen_defs)
next
  case (Other e)
  then have "quiet e" using assms by (simp split: if_splits)
  then show ?thesis using quiet_unseen [of e] Other by (simp add: projection_defs app_handlers_def)
qed (use answer_seen in \<open>simp_all add: projection_defs seen_defs\<close>)

lemma client_seen:
  "run_actions client_step s as = Some t \<Longrightarrow> transmissions (concat (map action_events as)) = map cd_bytes (sent as) \<and>
    handler_calls (concat (map action_events as)) = app_handlers (ended as)"
proof (induction as arbitrary: s)
  case (Cons a as)
  obtain u where u: "client_step s a = Some u" "run_actions client_step u as = Some t"
    using Cons.prems by (auto split: option.splits)
  then show ?case using action_seen [OF u(1)] Cons.IH [OF u(2)] projections_append(3,4) [of "[a]" as] by simp
qed (simp add: projection_defs seen_defs)

section \<open>How an implementation is shown to follow a specification\<close>

text \<open>
  Steps of an implementation against runs of a specification.  \<open>obs\<close> is what an observer has
  recorded in a state, and \<open>record_action\<close> what an action of the specification adds to it.
\<close>

locale action_refinement =
  fixes step :: "'c \<Rightarrow> 'c \<Rightarrow> bool" and good :: "'c \<Rightarrow> bool" and obs :: "'c \<Rightarrow> 'o"
    and spec :: "'s \<Rightarrow> 'a \<Rightarrow> 's option" and record_action :: "'o \<Rightarrow> 'a \<Rightarrow> 'o" and rel :: "'c \<Rightarrow> 's \<Rightarrow> bool"
  assumes good_kept: "good c \<Longrightarrow> step c d \<Longrightarrow> good d"
    and simulated: "good c \<Longrightarrow> step c d \<Longrightarrow> rel c s \<Longrightarrow>
      \<exists>as t. run_actions spec s as = Some t \<and> rel d t \<and> obs d = foldl record_action (obs c) as"
begin

lemma good_run: "step\<^sup>*\<^sup>* c d \<Longrightarrow> good c \<Longrightarrow> good d"
  by (induction rule: rtranclp_induct) (auto intro: good_kept)

lemma refines:
  assumes "step\<^sup>*\<^sup>* c d" and "good c" and "rel c s"
  shows "\<exists>as t. run_actions spec s as = Some t \<and> rel d t \<and> obs d = foldl record_action (obs c) as"
  using assms(1)
proof (induction rule: rtranclp_induct)
  case base
  then show ?case using assms(3) by (intro exI [of _ "[]"] exI [of _ s]) simp
next
  case (step d e)
  then obtain as t where t: "run_actions spec s as = Some t" "rel d t" "obs d = foldl record_action (obs c) as" by blast
  from simulated [OF good_run [OF step.hyps(1) assms(2)] step.hyps(2) t(2)] obtain bs u where
    u: "run_actions spec t bs = Some u" "rel e u" "obs e = foldl record_action (obs d) bs" by blast
  then show ?case using t by (intro exI [of _ "as @ bs"] exI [of _ u]) (simp add: run_actions_append)
qed

end

end
