(* ===== verification/Client_Refinement.thy ===== *)
theory Client_Refinement
  imports Loop_Props Client_Spec
begin

text \<open>
  The event loop follows the specification of a command client: every handler, whatever is
  queued, received or done by threads meanwhile, is simulated by actions of \<open>Client_Spec\<close>.
\<close>

section \<open>The state of the client in a state of the program\<close>

definition command_of :: "'os world \<Rightarrow> send_task \<Rightarrow> command" where
  "command_of w t = \<lparr>cd_bytes = task_bytes w t, cd_handler = tk_response_handler t, cd_semaphore = tk_semaphore t\<rparr>"

text \<open>The current task is that of command \<open>c\<close>, or there is none.\<close>

definition runs_command :: "'os world \<Rightarrow> command option \<Rightarrow> bool" where
  "runs_command w r \<longleftrightarrow>
     (case r of
        None \<Rightarrow> current_send_task (ctx w) = NULL
      | Some c \<Rightarrow> current_send_task (ctx w) \<noteq> NULL \<and>
          (\<exists>t. heap w (current_send_task (ctx w)) = Some (O_Task t) \<and>
             tk_response_handler t = cd_handler c \<and> tk_semaphore t = cd_semaphore c))"

definition client_rel :: "(addr \<Rightarrow> 'os \<Rightarrow> qitem list) \<Rightarrow> 'os world \<Rightarrow> client \<Rightarrow> bool" where
  "client_rel Q w s \<longleftrightarrow>
     (\<exists>ts. Q (send_queue (ctx w)) (os w) = map Q_Task ts \<and> waiting s = map (command_of w) ts) \<and> runs_command w (running s)"

text \<open>With the invariant of the receive path, the current task in terms of \<open>T\<close>.\<close>

lemma runs_command_none: "rx_inv I w es ip xs None \<Longrightarrow> runs_command w r \<longleftrightarrow> r = None"
  using no_task [of I w es ip xs] by (auto simp: runs_command_def split: option.splits)

lemma runs_command_some:
  "rx_inv I w es ip xs (Some t) \<Longrightarrow> runs_command w r \<longleftrightarrow>
    (\<exists>c. r = Some c \<and> tk_response_handler t = cd_handler c \<and> tk_semaphore t = cd_semaphore c)"
  using current_task [of I w es ip xs t] by (auto simp: runs_command_def split: option.splits)

lemma runs_command_heap:
  "runs_command w r \<Longrightarrow> heap w' = heap w \<Longrightarrow> current_send_task (ctx w') = current_send_task (ctx w) \<Longrightarrow> runs_command w' r"
  by (cases r) (simp_all add: runs_command_def)

section \<open>Progress of the current command\<close>

text \<open>
  The actions that do not touch the waiting commands: from \<open>w\<close> with the current command \<open>r\<close>
  to \<open>w'\<close> with \<open>r'\<close>.  The events that are not about that command are of the kind \<open>P\<close>.
\<close>

definition others_are :: "(event \<Rightarrow> bool) \<Rightarrow> action list \<Rightarrow> bool" where
  "others_are P as \<longleftrightarrow> (\<forall>e. Other e \<in> set as \<longrightarrow> P e)"

lemma others_are_simps [simp]:
  "others_are P []" "others_are P (as @ bs) \<longleftrightarrow> others_are P as \<and> others_are P bs"
  "others_are P [Answer c r bs']" "others_are P (map Other es) \<longleftrightarrow> list_all P es"
  by (auto simp: others_are_def list_all_iff)

definition moves :: "(event \<Rightarrow> bool) \<Rightarrow> 'os world \<Rightarrow> command option \<Rightarrow> 'os world \<Rightarrow> command option \<Rightarrow> bool" where
  "moves P w r w' r' \<longleftrightarrow> runs_command w' r' \<and>
     (\<exists>as. (\<forall>ws. run_actions client_step \<lparr>waiting = ws, running = r\<rparr> as = Some \<lparr>waiting = ws, running = r'\<rparr>) \<and>
        enqueued as = [] \<and> others_are P as \<and> trace w' = trace w @ concat (map action_events as))"

fun is_urc :: "event \<Rightarrow> bool" where
  "is_urc (Ev_Urc f l) = True"
| "is_urc _ = False"

lemma moves_trans:
  assumes "moves P u q v r" and "moves P v r w s"
  shows "moves P u q w s"
proof -
  obtain as where as: "\<And>ws. run_actions client_step \<lparr>waiting = ws, running = q\<rparr> as = Some \<lparr>waiting = ws, running = r\<rparr>"
      "enqueued as = []" "others_are P as" "trace v = trace u @ concat (map action_events as)" using assms(1) by (auto simp: moves_def)
  obtain bs where bs: "\<And>ws. run_actions client_step \<lparr>waiting = ws, running = r\<rparr> bs = Some \<lparr>waiting = ws, running = s\<rparr>"
      "enqueued bs = []" "others_are P bs" "trace w = trace v @ concat (map action_events bs)" "runs_command w s"
    using assms(2) by (auto simp: moves_def)
  show ?thesis
    unfolding moves_def using as bs by (intro conjI exI [of _ "as @ bs"]) (simp_all add: run_actions_append)
qed

lemma runs_others: "list_all quiet es \<Longrightarrow> run_actions client_step s (map Other es) = Some s"
  by (induction es) simp_all

lemma events_others [simp]: "concat (map action_events (map Other es)) = es"
  by (induction es) simp_all

lemma moves_quiet:
  assumes "runs_command w' r" and "trace w' = trace w @ es" and "list_all quiet es" and "list_all P es"
  shows "moves P w r w' r"
  unfolding moves_def using assms runs_others [OF assms(3)]
  by (intro conjI exI [of _ "map Other es"]) (simp_all only: events_others projections_other others_are_simps simp_thms)

lemma moves_same: "runs_command w' r \<Longrightarrow> trace w' = trace w \<Longrightarrow> moves P w r w' r"
  by (rule moves_quiet [where es = "[]"]) simp_all

lemma moves_end:
  assumes inv: "rx_inv I w es ip xs T" and r: "runs_command w r" and inv': "rx_inv I w' es' ip' xs' None"
    and tr: "trace w' = trace w @ task_events T res c" and len: "unat (response_length c) \<le> length (response c)"
  shows "moves P w r w' None"
proof (cases T)
  case None
  then have "r = None" using inv r runs_command_none by blast
  then show ?thesis using moves_same [of w' r w] tr None runs_command_none [OF inv'] by (simp add: task_events_def)
next
  case (Some t)
  then obtain d where d: "r = Some d" "tk_response_handler t = cd_handler d" "tk_semaphore t = cd_semaphore d"
    using inv r runs_command_some by blast
  let ?bs = "take (unat (response_length c)) (response c)"
  have "length ?bs = unat (response_length c)" using len by simp
  then have "end_events t res c = answer_events d res ?bs"
    using d by (auto simp: end_events_def answer_events_def split: option.split response_handler.split)
  then show ?thesis
    unfolding moves_def using d(1) tr Some runs_command_none [OF inv']
    by (intro conjI exI [of _ "[Answer d res ?bs]"]) (simp_all add: task_events_def enqueued_def)
qed

section \<open>The handlers that receive, end a command, or wait\<close>

lemma urc_calls_quiet: "list_all quiet (urc_calls line es)" "list_all is_urc (urc_calls line es)"
  by (auto simp: urc_calls_def list_all_iff)

lemma push_ctx_bound:
  assumes "rx_inv I w es ip xs T" "is_text_mode T" "length ln \<le> 255"
  shows "unat (response_length (push_ctx (ln @ [0]) (of_nat (length ln)) (ctx w))) \<le>
    length (response (push_ctx (ln @ [0]) (of_nat (length ln)) (ctx w)))"
proof -
  have "unat (of_nat (length ln) :: size_t) = length ln" using assms(3) by (simp add: unat_of_nat)
  then have "rx_inv I (upd_ctx (push_ctx (ln @ [0]) (of_nat (length ln))) w) es ip xs T"
    using rx_inv_push [OF assms(1,2)] assms(3) by simp
  from rx_inv_resp [OF this] show ?thesis by simp
qed

lemma line_moves:
  assumes inv: "rx_inv I w es ip xs T" "line_mode T" and r: "runs_command w r" and run: "handle_byte I b w = ok w'"
  shows "\<exists>r'. moves is_urc w r w' r'"
proof -
  let ?ln = "pending (ctx w) @ [10]"
  from byte_line_ok [OF inv(1) line_mode_text [OF inv(2)], of b] run have
    s: "if length (pending (ctx w)) = 255 then w' = w
     else if b \<noteq> 10
     then (\<exists>buf. w' = set_line buf (line_buffer_index (ctx w) + 1) w) \<and> pending (ctx w') = pending (ctx w) @ [b] \<and> rx_inv I w' es ip xs T
     else \<exists>buf v. line_effect I es ip T ?ln (set_line buf (line_buffer_index (ctx w) + 1) w) v \<and>
          w' = upd_ctx (\<lambda>c. c\<lparr>line_buffer_index := 0\<rparr>) v \<and> pending (ctx w') = [] \<and>
          rx_inv I w' es ip (if line_ends es ?ln = None then xs else []) (if line_ends es ?ln = None then T else None) \<and> spares I w w'"
    unfolding handle_byte_line [OF inv] by auto
  show ?thesis
  proof (cases "length (pending (ctx w)) = 255 \<or> b \<noteq> 10")
    case True
    then have "heap w' = heap w" "current_send_task (ctx w') = current_send_task (ctx w)" "trace w' = trace w"
      using s by (auto simp: set_line_def split: if_splits)
    then show ?thesis using moves_same [OF runs_command_heap [OF r], of w' w] by auto
  next
    case False
    then obtain buf v where v: "line_effect I es ip T ?ln (set_line buf (line_buffer_index (ctx w) + 1) w) v"
        "w' = upd_ctx (\<lambda>c. c\<lparr>line_buffer_index := 0\<rparr>) v"
        "rx_inv I w' es ip (if line_ends es ?ln = None then xs else []) (if line_ends es ?ln = None then T else None)"
      using s by auto
    let ?u = "set_line buf (line_buffer_index (ctx w) + 1) w"
    have u: "heap ?u = heap w" "trace ?u = trace w" "current_send_task (ctx ?u) = current_send_task (ctx w)"
      by (simp_all add: set_line_def)
    show ?thesis
    proof (cases "line_ends es ?ln")
      case None
      have "heap w' = heap w" "current_send_task (ctx w') = current_send_task (ctx w)"
          "\<exists>es. trace w' = trace w @ es \<and> list_all quiet es \<and> list_all is_urc es"
        using v(1) u None urc_calls_quiet unfolding line_effect_def v(2) by (auto split: if_splits)
      then show ?thesis using moves_quiet [OF runs_command_heap [OF r], of w' w] by blast
    next
      case (Some res)
      let ?c = "push_ctx (?ln @ [0]) (of_nat (length ?ln)) (ctx ?u)"
      have "trace w' = trace w @ task_events T res ?c" using v(1,2) u Some by (simp add: line_effect_def)
      moreover have "unat (response_length ?c) \<le> length (response ?c)"
      proof -
        have "length ?ln \<le> 255" using inv(1) False by (auto simp: rx_inv_def buf_ok_def pending_def)
        from push_ctx_bound [OF inv(1) line_mode_text [OF inv(2)] this] show ?thesis
          using push_ctx_response [of "ctx ?u" "ctx w"] by (simp add: set_line_def)
      qed
      moreover have "rx_inv I w' es ip [] None" using v(3) Some by simp
      ultimately show ?thesis using moves_end [OF inv(1) r] by blast
    qed
  qed
qed

lemma byte_moves:
  assumes g: "rx_good I es w" and r: "runs_command w r" and run: "handle_byte I b w = ok w'"
  shows "\<exists>r'. moves is_urc w r w' r'"
proof -
  obtain ip ys T where inv: "rx_inv I w es ip (stack_bytes ys) T" and p: "prompt_ready w T"
    using g by (auto simp: rx_good_def)
  show ?thesis
  proof (cases "line_mode T")
    case True
    then show ?thesis using line_moves [OF inv _ r run] by blast
  next
    case False
    then obtain t where t: "T = Some t" "tk_status t \<noteq> SEND_TASK_STATUS_LINE_RECV" by (auto simp: line_mode_def)
    note inv' = inv [unfolded t(1)]
    show ?thesis
    proof (cases "tk_status t")
      case SEND_TASK_STATUS_LINE_RECV
      then show ?thesis using t by simp
    next
      case SEND_TASK_STATUS_PROMPT
      then obtain q where q: "prompt_is w t q" "tk_need_recv_len t \<noteq> 0" using p t by (auto simp: prompt_ready_def)
      have "handle_byte I b w = byte_prompt_handle I b w" using handle_byte_mode [OF inv'] SEND_TASK_STATUS_PROMPT by simp
      with byte_prompt_ok [OF inv' q, of b] run have "trace w' = trace w" "runs_command w' r"
        using r runs_command_some [OF inv'] by (auto simp: runs_command_some split: if_splits)
      then show ?thesis using moves_same [of w' r w] by auto
    next
      case SEND_TASK_STATUS_BINARY
      have "handle_byte I b w = byte_binary_handle I b w" using handle_byte_mode [OF inv'] SEND_TASK_STATUS_BINARY by simp
      with byte_binary_ok [OF inv' SEND_TASK_STATUS_BINARY, of b] run have
        s: "if unat (response_length (ctx w)) = 512 then w' = w
         else if Suc (unat (response_length (ctx w))) \<ge> unat (tk_need_recv_len t)
         then rx_inv I w' es ip [] None \<and> trace w' = trace w @ end_events t ATC_SUCCESS (push_byte b (ctx w))
         else w' = upd_ctx (push_byte b) w" by (auto split: if_splits)
      have n: "unat (response_length (ctx w)) \<le> 512" "length (response (ctx w)) = 512" using rx_inv_resp [OF inv] by simp_all
      have same: "moves is_urc w r w' r" if "w' = w \<or> w' = upd_ctx (push_byte b) w"
        using that moves_same [OF runs_command_heap [OF r], of w' w] by (auto simp: push_byte_def)
      show ?thesis
      proof (cases "unat (response_length (ctx w)) \<noteq> 512 \<and> Suc (unat (response_length (ctx w))) \<ge> unat (tk_need_recv_len t)")
        case True
        have "unat (response_length (push_byte b (ctx w))) \<le> length (response (push_byte b (ctx w)))"
          using n True by (simp add: push_byte_def unat_word_ariths)
        moreover have "rx_inv I w' es ip [] None" "trace w' = trace w @ task_events (Some t) ATC_SUCCESS (push_byte b (ctx w))"
          using s True by (simp_all add: task_events_def)
        ultimately show ?thesis using moves_end [OF inv' r] by blast
      next
        case False
        then show ?thesis using s same by (auto split: if_splits)
      qed
    qed
  qed
qed

lemma run_moves:
  "rx_run I bs w w' \<Longrightarrow> rx_good I es w \<Longrightarrow> runs_command w r \<Longrightarrow> \<exists>r'. moves is_urc w r w' r'"
proof (induction arbitrary: r rule: rx_run.induct)
  case (rx_done w)
  then show ?case using moves_same [of w r w] by auto
next
  case (rx_arrive bs h w w')
  have "runs_command (with_rx h w) r" by (rule runs_command_heap [OF rx_arrive.prems(2)]) simp_all
  with rx_arrive.IH rx_arrive.prems(1) show ?case by (simp add: moves_def)
next
  case (rx_byte b w v bs w')
  from byte_moves [OF rx_byte.prems rx_byte.hyps(1)] obtain q where q: "moves is_urc w r v q" by blast
  then have "runs_command v q" by (simp add: moves_def)
  moreover have "rx_good I es v" using handle_byte_good [OF rx_byte.prems(1), of b] rx_byte.hyps(1) by auto
  ultimately show ?case using rx_byte.IH moves_trans [OF q] by blast
qed

lemma timeout_moves:
  assumes g: "rx_good I es w" and r: "runs_command w r" and run: "check_send_timeout I w = ok w'"
  shows "\<exists>r'. moves is_urc w r w' r'"
proof -
  obtain ip ys T where inv: "rx_inv I w es ip (stack_bytes ys) T" using g by (auto simp: rx_good_def)
  show ?thesis
  proof (cases T)
    case None
    then have "w' = w" using no_task [of I w es ip] inv run by (auto simp: check_send_timeout_def)
    then show ?thesis using moves_same [of w r w] r by auto
  next
    case (Some t)
    obtain now s where s: "atc_time_get I w = ok (now, w\<lparr>os := s\<rparr>)"
      using time_get_ok [OF conjunct1 [OF rx_inv_interface [OF inv]]] by blast
    have inv': "rx_inv I (w\<lparr>os := s\<rparr>) es ip (stack_bytes ys) (Some t)" using inv Some by simp
    have r': "runs_command (w\<lparr>os := s\<rparr>) r" by (rule runs_command_heap [OF r]) simp_all
    show ?thesis
    proof (cases "now - tk_timestamp t \<ge> tk_timeout t")
      case True
      with rx_end_ok [OF inv', of ATC_TIMEOUT] timeout_ok [OF inv [unfolded Some] s] run have
        "rx_inv I w' es ip [] None" "trace w' = trace w @ task_events (Some t) ATC_TIMEOUT (ctx w)" by auto
      moreover have "unat (response_length (ctx w)) \<le> length (response (ctx w))" using rx_inv_resp [OF inv] by simp
      ultimately show ?thesis using moves_end [OF inv [unfolded Some] r] by blast
    next
      case False
      then have "w' = w\<lparr>os := s\<rparr>" using timeout_ok [OF inv [unfolded Some] s] run by simp
      then show ?thesis using moves_same [OF r', of w] by auto
    qed
  qed
qed

text \<open>The waiting commands of a state are those of another with the same queue and buffers.\<close>

lemma task_bytes_spared:
  assumes "tasks_ok w ts" "spares I w w'" "t \<in> set ts"
  shows "command_of w' t = command_of w t"
proof -
  have t: "task_ready w t" and o: "own w \<inter> set (task_bufs t) = {}" using assms(1,3) by (auto simp: tasks_ok_def)
  obtain bs where bs: "heap w (tk_data t) = Some (O_Bytes bs)" using task_ready_bytes [OF t] by blast
  have "tk_data t \<in> set (task_bufs t)" using t by (auto simp: task_bufs_def task_ready_def)
  then have "heap w' (tk_data t) = Some (O_Bytes bs)" using o spares_heapD [OF assms(2) bs] by auto
  then show ?thesis using bs by (simp add: command_of_def task_bytes_def)
qed

definition same_waiting :: "(addr \<Rightarrow> 'os \<Rightarrow> qitem list) \<Rightarrow> 'os world \<Rightarrow> 'os world \<Rightarrow> bool" where
  "same_waiting Q w w' \<longleftrightarrow> Q (send_queue (ctx w')) (os w') = Q (send_queue (ctx w)) (os w) \<and>
     (\<forall>t. Q_Task t \<in> set (Q (send_queue (ctx w)) (os w)) \<longrightarrow> command_of w' t = command_of w t)"

text \<open>The program went from \<open>w\<close> to \<open>w'\<close>, and the specification can do the same; \<open>cs\<close> were queued.\<close>

definition follows :: "(addr \<Rightarrow> 'os \<Rightarrow> qitem list) \<Rightarrow> 'os world \<Rightarrow> client \<Rightarrow> command list \<Rightarrow> 'os world \<Rightarrow> bool" where
  "follows Q w s cs w' \<longleftrightarrow> (\<exists>as s'. run_actions client_step s as = Some s' \<and> client_rel Q w' s' \<and> enqueued as = cs \<and>
     trace w' = trace w @ concat (map action_events as))"

lemma moves_rel:
  assumes rel: "client_rel Q w s" and same: "same_waiting Q w w'" and m: "moves P w (running s) w' r'"
  shows "follows Q w s [] w'"
proof -
  obtain ts where ts: "Q (send_queue (ctx w)) (os w) = map Q_Task ts" "waiting s = map (command_of w) ts"
    using rel by (auto simp: client_rel_def)
  have "map (command_of w) ts = map (command_of w') ts" using same ts(1) by (simp add: same_waiting_def)
  then have "client_rel Q w' (s\<lparr>running := r'\<rparr>)"
    unfolding client_rel_def using same ts m by (auto simp: same_waiting_def moves_def)
  moreover obtain as where as: "\<And>ws. run_actions client_step \<lparr>waiting = ws, running = running s\<rparr> as = Some \<lparr>waiting = ws, running = r'\<rparr>"
      "enqueued as = []" "others_are P as" "trace w' = trace w @ concat (map action_events as)" using m by (auto simp: moves_def)
  have "run_actions client_step s as = Some (s\<lparr>running := r'\<rparr>)" using as(1) [of "waiting s"] by (cases s) simp
  ultimately show ?thesis using as(2,4) by (auto simp: follows_def)
qed

lemma spared_waiting:
  assumes "sys_inv I Q w" and "queue_contract I Q" and s: "spares I w w'"
  shows "same_waiting Q w w'"
proof -
  obtain es ts ms where i: "Q (send_queue (ctx w)) (os w) = map Q_Task ts" "tasks_ok w ts"
    using assms(1) unfolding sys_inv_def by blast
  have "same_queues Q (os w) (os w')" by (rule os_steps_queues [OF _ assms(2)]) (use s in \<open>simp add: spares_def\<close>)
  then show ?thesis using i task_bytes_spared [OF i(2) s] s by (auto simp: same_waiting_def same_queues_def spares_def)
qed

section \<open>Starting a command\<close>

lemma command_of_heap: "heap w' (tk_data t) = heap w (tk_data t) \<Longrightarrow> command_of w' t = command_of w t"
  by (simp add: command_of_def task_bytes_def)

lemma next_is_Cons [simp]: "next_is \<lparr>waiting = c # cs, running = None\<rparr> d \<longleftrightarrow> c = d"
  by (auto simp: next_is_def)

text \<open>The oldest waiting command is lost, refused or begun.\<close>

lemma next_moves:
  assumes i: "rx_good I es w" "rb_inv (rx_buffer (ctx w))" "send_queue (ctx w) \<noteq> external_api_queue (ctx w)"
      "Q (send_queue (ctx w)) (os w) = Q_Task t # map Q_Task us" "Q (external_api_queue (ctx w)) (os w) = map Q_Msg ms"
      "tasks_ok w (t # us)" "msgs_ok w ms"
    and Q: "queue_contract I Q" and inv: "rx_inv I w es ip (stack_bytes ys) None" and run: "send_msg_handle I w = ok w'"
  shows "\<exists>a r. client_step \<lparr>waiting = command_of w t # ws, running = None\<rparr> a = Some \<lparr>waiting = ws, running = r\<rparr> \<and>
    runs_command w' r \<and> enqueued [a] = [] \<and> trace w' = trace w @ action_events a \<and>
    Q (send_queue (ctx w')) (os w') = map Q_Task us \<and> map (command_of w') us = map (command_of w) us"
proof -
  have t: "task_ready w t" using i(6) by (simp add: tasks_ok_def)
  let ?c = "command_of w t"
  from send_handle_next [OF inv Q i(4) t] show ?thesis
  proof (elim exE conjE disjE)
    fix u assume u: "\<forall>x. Q x (os u) = (if x = send_queue (ctx w) then map Q_Task us else Q x (os w))"
      "send_msg_handle I w = ok u" "heap u = heap w" "ctx u = ctx w" "trace u = trace w"
    moreover have "w' = u" using u(2) run by simp
    moreover have "runs_command u None" using u(4) no_task [OF inv] by (simp add: runs_command_def)
    ultimately show ?thesis
      by (intro exI [of _ "Lose ?c"] exI [of _ None]) (simp add: enqueued_def command_of_def task_bytes_def)
  next
    fix u p now x assume u: "\<forall>x. Q x (os u) = (if x = send_queue (ctx w) then map Q_Task us else Q x (os w))"
      "p \<noteq> NULL" "heap w p = None" "rx_inv I u es ip (stack_bytes ys) (Some (t\<lparr>tk_timestamp := now\<rparr>))"
      "heap u = (heap w)(p \<mapsto> O_Task (t\<lparr>tk_timestamp := now\<rparr>))" "ctx u = started p (ctx w)"
      "trace u = trace w @ [Ev_Send (task_bytes w t) x]"
      "send_msg_handle I w = (if x = ATC_SUCCESS then ok u else command_end_handle I ATC_HARDWARE_ERROR u)"
    have cmds: "command_of u v = command_of w v" if "v \<in> set us" for v
    proof -
      have "task_ready w v" using i(6) that by (simp add: tasks_ok_def)
      then obtain bs where "heap w (tk_data v) = Some (O_Bytes bs)" using task_ready_bytes by blast
      then show ?thesis using u(3,5) by (intro command_of_heap) auto
    qed
    have qu: "Q (send_queue (ctx u)) (os u) = map Q_Task us" using u(1,6) by (simp add: started_def)
    let ?t = "t\<lparr>tk_timestamp := now\<rparr>"
    show ?thesis
    proof (cases "x = ATC_SUCCESS")
      case True
      have "runs_command u (Some ?c)" using runs_command_some [OF u(4)] by (simp add: command_of_def)
      then show ?thesis using u(7,8) True run qu cmds
        by (intro exI [of _ "Begin ?c"] exI [of _ "Some ?c"]) (simp add: enqueued_def command_of_def)
    next
      case False
      from rx_end_ok [OF u(4), of ATC_HARDWARE_ERROR] u(8) False run have e:
        "rx_inv I w' es ip [] None" "trace w' = trace u @ end_events ?t ATC_HARDWARE_ERROR (ctx u)" "spares I u w'"
        by (auto simp: task_events_def)
      have sysu: "sys_inv I Q u" by (rule started_sys(2) [where Q = Q, OF i u(1-6)])
      have "end_events ?t ATC_HARDWARE_ERROR (ctx u) = answer_events ?c ATC_HARDWARE_ERROR []"
        using u(6) by (auto simp: end_events_def answer_events_def command_of_def started_def split: option.split response_handler.split)
      then show ?thesis using u(7) e(2) False qu cmds spared_waiting [OF sysu Q e(3)] runs_command_none [OF e(1)]
        by (intro exI [of _ "Refuse ?c x"] exI [of _ None]) (auto simp: enqueued_def command_of_def same_waiting_def)
    qed
  qed
qed

lemma send_moves:
  assumes sys: "sys_inv I Q w" and Q: "queue_contract I Q" and rel: "client_rel Q w s" and run: "send_msg_handle I w = ok w'"
  shows "follows Q w s [] w'"
proof -
  obtain es ts ms where i: "rx_good I es w" "rb_inv (rx_buffer (ctx w))" "send_queue (ctx w) \<noteq> external_api_queue (ctx w)"
      "Q (send_queue (ctx w)) (os w) = map Q_Task ts" "Q (external_api_queue (ctx w)) (os w) = map Q_Msg ms"
      "tasks_ok w ts" "msgs_ok w ms"
    using sys unfolding sys_inv_def by blast
  obtain ip ys T where inv: "rx_inv I w es ip (stack_bytes ys) T" using i(1) by (auto simp: rx_good_def)
  have r: "runs_command w (running s)" and ws: "waiting s = map (command_of w) ts"
    using rel i(4) by (auto simp: client_rel_def inj_map_eq_map inj_on_def)
  consider t where "T = Some t" | "T = None" "ts = []" | t us where "T = None" "ts = t # us" by (cases T; cases ts) auto
  then show ?thesis
  proof cases
    case 1
    have "current_send_task (ctx w) \<noteq> NULL" using current_task [OF inv [unfolded 1]] by simp
    then have "w' = w" using send_handle_busy [of w I] run by simp
    then show ?thesis using rel by (auto simp: follows_def enqueued_def intro!: exI [of _ "[]"])
  next
    case 2
    from send_handle_idle [OF inv [unfolded 2(1)] Q] i(4) 2(2) run obtain u where
      u: "w' = w\<lparr>os := u\<rparr>" "same_queues Q (os w) u" by auto
    have "same_waiting Q w w'" using u by (simp add: same_waiting_def same_queues_def command_of_def task_bytes_def)
    moreover have "moves quiet w (running s) w' (running s)"
      using moves_same [OF runs_command_heap [OF r], of w' w] u(1) by simp
    ultimately show ?thesis by (rule moves_rel [OF rel])
  next
    case 3
    have s: "s = \<lparr>waiting = command_of w t # map (command_of w) us, running = None\<rparr>"
      using r ws 3 runs_command_none [of I w es ip "stack_bytes ys"] inv by (cases s) simp
    from next_moves [where Q = Q, OF i(1-3) _ i(5) _ i(7) Q inv [unfolded 3(1)] run, of t us "map (command_of w) us"] i(4,6) 3(2)
    obtain a r where "client_step s a = Some \<lparr>waiting = map (command_of w) us, running = r\<rparr>"
        "runs_command w' r" "enqueued [a] = []" "trace w' = trace w @ action_events a"
        "Q (send_queue (ctx w')) (os w') = map Q_Task us" "map (command_of w') us = map (command_of w) us"
      unfolding s by auto
    then show ?thesis unfolding follows_def
      by (intro exI [of _ "[a]"] exI [of _ "\<lparr>waiting = map (command_of w) us, running = r\<rparr>"]) (auto simp: client_rel_def)
  qed
qed

section \<open>The external queue, and what happens elsewhere\<close>

lemma in_use_commands:
  assumes "sys_inv I Q w" and k: "kept in_use w w'" and t: "Q_Task t \<in> set (Q (send_queue (ctx w)) (os w))"
  shows "command_of w' t = command_of w t"
proof -
  have "task_ready w t" using assms(1) t by (auto simp: sys_inv_def tasks_ok_def)
  then obtain bs where "heap w (tk_data t) = Some (O_Bytes bs)" using task_ready_bytes by blast
  then show ?thesis using keptD [OF k] by (intro command_of_heap) auto
qed

lemma in_use_waiting:
  "sys_inv I Q w \<Longrightarrow> kept in_use w w' \<Longrightarrow> Q (send_queue (ctx w')) (os w') = Q (send_queue (ctx w)) (os w) \<Longrightarrow>
    same_waiting Q w w'"
  using in_use_commands unfolding same_waiting_def by blast

lemma in_use_runs:
  "runs_command w r \<Longrightarrow> kept in_use w w' \<Longrightarrow> current_send_task (ctx w') = current_send_task (ctx w) \<Longrightarrow> runs_command w' r"
  using keptD [of in_use w w' "current_send_task (ctx w)"] by (fastforce simp: runs_command_def split: option.splits)

lemma extern_moves:
  assumes sys: "sys_inv I Q w" and Q: "queue_contract I Q" and rel: "client_rel Q w s" and run: "extern_msg_handle I w = ok w'"
  shows "follows Q w s [] w'"
proof -
  obtain es ts ms where i: "rx_good I es w" "send_queue (ctx w) \<noteq> external_api_queue (ctx w)"
      "Q (external_api_queue (ctx w)) (os w) = map Q_Msg ms" "msgs_ok w ms"
    using sys unfolding sys_inv_def by blast
  have u: "urc_inv I w es" using i(1) by (auto simp: rx_good_def rx_inv_def)
  from extern_loop [OF u Q i(3,4) table_room [OF i(1,4)]] run obtain es' where w': "all_served I ms es es' w w'"
      "\<forall>q. Q q (os w') = (if q = external_api_queue (ctx w) then [] else Q q (os w))" by auto
  obtain j where c: "ctx w' = (ctx w)\<lparr>urc_next_id := j\<rparr>" using w'(1) by (auto simp: all_served_def)
  note k = all_served_kept(1) [OF i(4) w'(1)]
  have "runs_command w' (running s)" by (rule in_use_runs [OF _ k]) (use rel c in \<open>simp_all add: client_rel_def\<close>)
  then have "moves quiet w (running s) w' (running s)"
    by (rule moves_quiet) (use w'(1) in \<open>auto simp: all_served_def list_all_iff\<close>)
  moreover have "same_waiting Q w w'" by (rule in_use_waiting [OF sys k]) (use w'(2) i(2) c in simp)
  ultimately show ?thesis using moves_rel [OF rel] by blast
qed

text \<open>What threads do is quiet; what they queue is new.\<close>

lemma threads_quiet:
  assumes "threads_emit w w'"
  obtains es where "trace w' = trace w @ es" "list_all quiet es"
proof -
  have "quiet e" if "thread_event e" for e using that by (cases e) simp_all
  then show thesis using assms that by (auto simp: threads_emit_def list_all_iff)
qed

lemma received_moves:
  assumes run: "atc_receive_data I (Some bs) len w = ok (n, w')" "unat len \<le> length bs"
    and sys: "sys_inv I Q w" and Q: "queue_contract I Q" and r: "runs_command w r"
  shows "moves quiet w r w' r \<and> same_waiting Q w w'"
proof (cases "len = 0")
  case True
  then have "w' = w" using run by (simp add: atc_receive_data_def)
  then show ?thesis using moves_same [OF r, of w] by (simp add: same_waiting_def)
next
  case False
  obtain es where g: "rx_good I es w" "rb_inv (rx_buffer (ctx w))" using sys by (auto simp: sys_inv_def)
  have I: "complete I" using g(1) rx_inv_interface unfolding rx_good_def by blast
  have "0 < unat len" using False by (simp add: unat_gt_0)
  from atc_receive_data_ok [OF I g(2) this run(2)] obtain k v h fits where
    v: "atc_receive_data I (Some bs) len w = ok (k, v)" "ctx v = (ctx w)\<lparr>rx_buffer := h\<rparr>" "heap v = heap w"
      "trace v = trace w @ (if fits then [Ev_Give_Isr (wake_semaphore (ctx w))] else [])" by blast
  have w': "w' = v" using run(1) v(1) by simp
  note keep = queue_contract_keeps [OF Q]
  have "same_queues Q (os w) (os w')"
    using receive_data_os [OF keep os_keeps_refl [OF keep], of w "Some bs" len] run(1) by (simp add: withinp_def)
  then have "same_waiting Q w w'"
    using v(2,3) w' by (simp add: same_waiting_def same_queues_def command_of_def task_bytes_def)
  moreover have "moves quiet w r v r"
    by (rule moves_quiet [OF runs_command_heap [OF r v(3)] v(4)]) (simp_all add: v(2))
  ultimately show ?thesis using w' by blast
qed

lemma command_moves:
  assumes cmd: "command_queued Q bs timeout h t w w'" and sys: "sys_inv I Q w" and rel: "client_rel Q w s"
  shows "Q (send_queue (ctx w')) (os w') = Q (send_queue (ctx w)) (os w) @ [Q_Task t]" and
    "follows Q w s [command_of w' t] w'"
proof -
  obtain ts where ts: "Q (send_queue (ctx w)) (os w) = map Q_Task ts" "waiting s = map (command_of w) ts"
      "runs_command w (running s)"
    using rel by (auto simp: client_rel_def)
  have t: "ctx w' = ctx w" "trace w' = trace w @ [Ev_Give (wake_semaphore (ctx w))]"
      "Q (send_queue (ctx w')) (os w') = Q (send_queue (ctx w)) (os w) @ [Q_Task t]"
    using cmd by (simp_all add: command_queued_def)
  then show "Q (send_queue (ctx w')) (os w') = Q (send_queue (ctx w)) (os w) @ [Q_Task t]" by simp
  have "heap w' a = Some ob" if "heap w a = Some ob" for a ob
    using cmd that unfolding command_queued_def by (metis option.distinct(1))
  then have k: "kept in_use w w'" by (simp add: kept_def)
  have "command_of w' v = command_of w v" if "v \<in> set ts" for v
    using in_use_commands [OF sys k] ts(1) that by simp
  then have ws: "map (command_of w') ts = map (command_of w) ts" by simp
  have "runs_command w' (running s)" by (rule in_use_runs [OF ts(3) k]) (simp add: t(1))
  then have "client_rel Q w' (s\<lparr>waiting := waiting s @ [command_of w' t]\<rparr>)"
    unfolding client_rel_def using t(3) ts(1,2) ws by (intro conjI exI [of _ "ts @ [t]"]) simp_all
  then show "follows Q w s [command_of w' t] w'"
    unfolding follows_def using t(2)
    by (intro exI [of _ "[Enqueue (command_of w' t), Other (Ev_Give (wake_semaphore (ctx w)))]"] exI conjI)
      (simp_all add: enqueued_def)
qed

lemma elsewhere_moves:
  assumes step: "elsewhere I Q expects_data w w'" and sys: "sys_inv I Q w" and Q: "queue_contract I Q" and rel: "client_rel Q w s"
  shows "\<exists>ts. Q (send_queue (ctx w')) (os w') = Q (send_queue (ctx w)) (os w) @ map Q_Task ts \<and>
    follows Q w s (map (command_of w') ts) w'"
proof -
  have r: "runs_command w (running s)" using rel by (simp add: client_rel_def)
  have same: ?thesis if "moves quiet w (running s) w' (running s)" "same_waiting Q w w'"
    using moves_rel [OF rel that(2,1)] that(2) by (intro exI [of _ "[]"]) (simp add: same_waiting_def)
  have quietly: ?thesis if k: "kept in_use w w'" and c: "ctx w' = ctx w" "threads_emit w w'"
      "Q (send_queue (ctx w')) (os w') = Q (send_queue (ctx w)) (os w)"
  proof -
    obtain es where "trace w' = trace w @ es" "list_all quiet es" using threads_quiet [OF c(2)] .
    then have "moves quiet w (running s) w' (running s)" using moves_quiet [OF in_use_runs [OF r k]] c(1) by simp
    then show ?thesis using in_use_waiting [OF sys k c(3)] by (rule same)
  qed
  show ?thesis
    using step
  proof cases
    case (received bs len n)
    then show ?thesis using received_moves [OF received sys Q r] same by blast
  next
    case (command bs timeout h t)
    then show ?thesis using command_moves [OF command(1) sys rel] by (intro exI [of _ "[t]"]) simp
  next
    case (message m)
    have "heap w' a = Some ob" if "heap w a = Some ob" for a ob
      using message that unfolding message_queued_def by (metis option.distinct(1))
    then have "kept in_use w w'" by (simp add: kept_def)
    then show ?thesis using message sys by (intro quietly) (auto simp: message_queued_def sys_inv_def)
  next
    case threads
    then have "kept in_use w w'" by (auto simp: threads_run_def kept_def elim!: in_use.elims(2))
    then show ?thesis using threads by (intro quietly) (simp_all add: threads_run_def same_queues_def)
  qed
qed

section \<open>The system as an implementation of the client\<close>

text \<open>
  A step of the loop or of its surroundings.  The observer notes the commands that arrive in
  the send queue, with the bytes, the handler and the semaphore they have there.
\<close>

fun system_step ::
  "'os atc_interface \<Rightarrow> (addr \<Rightarrow> 'os \<Rightarrow> qitem list) \<Rightarrow> command list \<times> pc \<times> 'os world \<Rightarrow> command list \<times> pc \<times> 'os world \<Rightarrow> bool" where
  "system_step I Q (cs, p, w) (cs', p', w') \<longleftrightarrow>
     run_handler p I w = ok w' \<and> p' = next_pc p \<and> cs' = cs \<or>
     elsewhere I Q expects_data w w' \<and> p' = p \<and>
       (\<exists>ts. Q (send_queue (ctx w')) (os w') = Q (send_queue (ctx w)) (os w) @ map Q_Task ts \<and>
          cs' = cs @ map (command_of w') ts)"

fun observed :: "command list \<times> pc \<times> 'os world \<Rightarrow> command list \<times> event list" where
  "observed (cs, p, w) = (cs, trace w)"

fun record_action :: "command list \<times> event list \<Rightarrow> action \<Rightarrow> command list \<times> event list" where
  "record_action (cs, es) a = (cs @ enqueued [a], es @ action_events a)"

lemma record_actions: "foldl record_action (cs, es) as = (cs @ enqueued as, es @ concat (map action_events as))"
  by (induction as arbitrary: cs es) (simp_all add: enqueued_def)

lemma handler_follows:
  assumes run: "run_handler p I w = ok w'" and sys: "sys_inv I Q w" and Q: "queue_contract I Q" and rel: "client_rel Q w s"
  shows "follows Q w s [] w'"
proof -
  obtain es where g: "rx_good I es w" "rb_inv (rx_buffer (ctx w))" using sys by (auto simp: sys_inv_def)
  have r: "runs_command w (running s)" using rel by (simp add: client_rel_def)
  note spared = moves_rel [OF rel spared_waiting [OF sys Q]]
  show ?thesis
  proof (cases p)
    case At_Extern
    then show ?thesis using extern_moves [OF sys Q rel] run by simp
  next
    case At_Send
    then show ?thesis using send_moves [OF sys Q rel] run by simp
  next
    case At_Recv
    then have run': "recv_data_handle I w = ok w'" using run by simp
    have "spares I w w'" using recv_data_ok [OF g] run' by auto
    then show ?thesis using run_moves [OF recv_data_run [OF g run'] g(1) r] spared by blast
  next
    case At_Timeout
    then have run': "check_send_timeout I w = ok w'" using run by simp
    have "spares I w w'" using timeout_good [OF g(1)] run' by auto
    then show ?thesis using timeout_moves [OF g(1) r run'] spared by blast
  next
    case At_Wait
    obtain u ms where u: "wait_step I w = ok (emit (Ev_Take (wake_semaphore (ctx w)) ms) (w\<lparr>os := u\<rparr>))" "os_steps I (os w) u"
      using wait_good [OF g(1)] by blast
    then have w': "w' = emit (Ev_Take (wake_semaphore (ctx w)) ms) (w\<lparr>os := u\<rparr>)" using At_Wait run by simp
    have "spares I w w'" using spares_os [OF u(2)] w' by simp
    moreover have "moves quiet w (running s) w' (running s)"
      by (rule moves_quiet [OF runs_command_heap [OF r], where es = "[Ev_Take (wake_semaphore (ctx w)) ms]"]) (simp_all add: w')
    ultimately show ?thesis using spared by blast
  qed
qed

lemma system_good:
  assumes "system_step I Q (cs, p, w) (cs', p', w')" and "queue_contract I Q" and "sys_inv I Q w"
  shows "sys_inv I Q w'"
  using assms handler_sys [OF assms(3,2), of p] elsewhere_sys [of I Q expects_data w w'] by auto

lemma system_follows:
  assumes step: "system_step I Q (cs, p, w) (cs', p', w')" and Q: "queue_contract I Q" and sys: "sys_inv I Q w"
    and rel: "client_rel Q w s"
  shows "\<exists>ds. cs' = cs @ ds \<and> follows Q w s ds w'"
  using step unfolding system_step.simps
proof (elim disjE conjE exE)
  assume "run_handler p I w = ok w'" "cs' = cs"
  then show ?thesis using handler_follows [OF _ sys Q rel] by (intro exI [of _ "[]"]) simp
next
  fix ts assume e: "elsewhere I Q expects_data w w'" "Q (send_queue (ctx w')) (os w') = Q (send_queue (ctx w)) (os w) @ map Q_Task ts"
    "cs' = cs @ map (command_of w') ts"
  from elsewhere_moves [OF e(1) sys Q rel] obtain us where
    "Q (send_queue (ctx w')) (os w') = Q (send_queue (ctx w)) (os w) @ map Q_Task us" "follows Q w s (map (command_of w') us) w'"
    by blast
  moreover from this(1) e(2) have "us = ts" by (simp add: inj_map_eq_map inj_on_def)
  ultimately show ?thesis using e(3) by blast
qed

interpretation system: action_refinement "system_step I Q" "\<lambda>(cs, p, w). queue_contract I Q \<and> sys_inv I Q w" observed
  client_step record_action "\<lambda>(cs, p, w). client_rel Q w" for I Q
proof
  show "case d of (cs, p, w) \<Rightarrow> queue_contract I Q \<and> sys_inv I Q w"
    if "case c of (cs, p, w) \<Rightarrow> queue_contract I Q \<and> sys_inv I Q w" "system_step I Q c d" for c d
  proof -
    obtain cs p w cs' p' w' where c: "c = (cs, p, w)" "d = (cs', p', w')" by (cases c; cases d) blast
    show ?thesis using system_good [of I Q cs p w cs' p' w'] that unfolding c by simp
  qed
  show "\<exists>as t. run_actions client_step s as = Some t \<and> (case d of (cs, p, w) \<Rightarrow> client_rel Q w) t \<and>
      observed d = foldl record_action (observed c) as"
    if "case c of (cs, p, w) \<Rightarrow> queue_contract I Q \<and> sys_inv I Q w" "system_step I Q c d"
      "(case c of (cs, p, w) \<Rightarrow> client_rel Q w) s" for c d s
  proof -
    obtain cs p w cs' p' w' where c: "c = (cs, p, w)" "d = (cs', p', w')" by (cases c; cases d) blast
    from system_follows [of I Q cs p w cs' p' w' s] that c show ?thesis
      by (auto simp: follows_def record_actions)
  qed
qed

text \<open>Every reachable state is reached by such steps.\<close>

lemma client_rel_exists:
  assumes "sys_inv I Q w"
  shows "\<exists>s. client_rel Q w s"
proof -
  obtain es ts where i: "rx_good I es w" "Q (send_queue (ctx w)) (os w) = map Q_Task ts"
    using assms unfolding sys_inv_def by blast
  obtain ip ys T where inv: "rx_inv I w es ip (stack_bytes ys) T" using i(1) by (auto simp: rx_good_def)
  have "runs_command w (map_option (command_of w) T)"
    using inv runs_command_none runs_command_some by (cases T) (fastforce simp: command_of_def)+
  then show ?thesis using i(2)
    by (intro exI [of _ "\<lparr>waiting = map (command_of w) ts, running = map_option (command_of w) T\<rparr>"]) (auto simp: client_rel_def)
qed

lemma reachable_observed:
  assumes "reachable I Q expects_data w0 p w" and "sys_inv I Q w0" and Q: "queue_contract I Q"
  shows "\<exists>cs. (system_step I Q)\<^sup>*\<^sup>* (cs0, At_Extern, w0) (cs, p, w)"
  using assms(1)
proof (induction rule: reachable.induct)
  case (handler p w w')
  then obtain cs where "(system_step I Q)\<^sup>*\<^sup>* (cs0, At_Extern, w0) (cs, p, w)" by blast
  moreover have "system_step I Q (cs, p, w) (cs, next_pc p, w')" using handler.hyps(2) by simp
  ultimately show ?case by (blast intro: rtranclp.rtrancl_into_rtrancl)
next
  case (elsewhere p w w')
  then obtain cs where cs: "(system_step I Q)\<^sup>*\<^sup>* (cs0, At_Extern, w0) (cs, p, w)" by blast
  have sys: "sys_inv I Q w" by (rule reachable_sys [OF elsewhere.hyps(1) assms(2) Q]) simp
  obtain s where s: "client_rel Q w s" using client_rel_exists [OF sys] by blast
  from elsewhere_moves [OF elsewhere.hyps(2) sys Q s] obtain ts where
    "Q (send_queue (ctx w')) (os w') = Q (send_queue (ctx w)) (os w) @ map Q_Task ts" by blast
  then have "system_step I Q (cs, p, w) (cs @ map (command_of w') ts, p, w')" using elsewhere.hyps(2) by auto
  then show ?case using rtranclp.rtrancl_into_rtrancl [OF cs] by blast
qed blast

section \<open>Properties\<close>

text \<open>The start: no command is current, and the observer knows those that are waiting.\<close>

definition at_rest :: "'os atc_interface \<Rightarrow> (addr \<Rightarrow> 'os \<Rightarrow> qitem list) \<Rightarrow> command list \<Rightarrow> 'os world \<Rightarrow> bool" where
  "at_rest I Q cs w \<longleftrightarrow> queue_contract I Q \<and> sys_inv I Q w \<and> current_send_task (ctx w) = NULL \<and>
     (\<exists>ts. Q (send_queue (ctx w)) (os w) = map Q_Task ts \<and> cs = map (command_of w) ts)"

lemma at_rest_refines:
  assumes "at_rest I Q cs0 w0" and "(system_step I Q)\<^sup>*\<^sup>* (cs0, At_Extern, w0) (cs, p, w)"
  shows "\<exists>as s. run_actions client_step \<lparr>waiting = cs0, running = None\<rparr> as = Some s \<and> client_rel Q w s \<and>
    cs = cs0 @ enqueued as \<and> trace w = trace w0 @ concat (map action_events as)"
proof -
  have "client_rel Q w0 \<lparr>waiting = cs0, running = None\<rparr>"
    using assms(1) by (auto simp: at_rest_def client_rel_def runs_command_def)
  with system.refines [OF assms(2)] assms(1) show ?thesis
    by (auto simp: at_rest_def record_actions)
qed

text \<open>
  C5: The event loop refines the client of \<open>Client_Spec\<close>: whatever the interleaving of
  handlers, interrupts and threads, whose commands with a prompt ask for data after it
  (\<open>expects_data\<close>), what has been queued and what is visible outside is a run
  of the specification, which ends with the same commands waiting, in the same order, and the
  same command under way.
\<close>

theorem loop_refines_client:
  assumes "at_rest I Q cs0 w0" and "reachable I Q expects_data w0 p w"
  shows "\<exists>cs as s. (system_step I Q)\<^sup>*\<^sup>* (cs0, At_Extern, w0) (cs, p, w) \<and>
    run_actions client_step \<lparr>waiting = cs0, running = None\<rparr> as = Some s \<and> client_rel Q w s \<and>
    cs = cs0 @ enqueued as \<and> trace w = trace w0 @ concat (map action_events as)"
proof -
  have "queue_contract I Q" "sys_inv I Q w0" using assms(1) by (simp_all add: at_rest_def)
  from reachable_observed [OF assms(2) this(2,1)] obtain cs where "(system_step I Q)\<^sup>*\<^sup>* (cs0, At_Extern, w0) (cs, p, w)" by blast
  with at_rest_refines [OF assms(1)] show ?thesis by blast
qed

text \<open>Two commands are queued, the first is sent and answered; no other thread does anything.\<close>

lemma demo_two_steps:
  "\<exists>w. (system_step platform_interface (\<lambda>q s. pl_queues s q))\<^sup>*\<^sup>* (cs, At_Extern, demo_two) (cs, At_Timeout, w) \<and>
    current_send_task (ctx w) = NULL \<and> pl_queues (os w) (send_queue (ctx w)) = [Q_Task second_task]"
proof -
  obtain u w where w: "run_handler At_Extern platform_interface demo_two = ok demo_two"
    "run_handler At_Send platform_interface demo_two = ok u" "run_handler At_Recv platform_interface u = ok w"
    "current_send_task (ctx w) = NULL" "pl_queues (os w) (send_queue (ctx w)) = [Q_Task second_task]" using demo_two_runs by blast
  let ?step = "system_step platform_interface (\<lambda>q s. pl_queues s q)"
  have "?step (cs, At_Extern, demo_two) (cs, At_Send, demo_two)" "?step (cs, At_Send, demo_two) (cs, At_Recv, u)"
    "?step (cs, At_Recv, u) (cs, At_Timeout, w)" using w(1-3) by simp_all
  then have "?step\<^sup>*\<^sup>* (cs, At_Extern, demo_two) (cs, At_Timeout, w)"
    by (meson converse_rtranclp_into_rtranclp r_into_rtranclp)
  then show ?thesis using w(4,5) by blast
qed

lemma demo_two_rest:
  "at_rest platform_interface (\<lambda>q s. pl_queues s q)
     (map (command_of demo_two) [demo_task SEND_TASK_STATUS_LINE_RECV 0, second_task]) demo_two"
  unfolding at_rest_def using platform_queues demo_two_sys
  by (intro conjI exI [of _ "[demo_task SEND_TASK_STATUS_LINE_RECV 0, second_task]"]) simp_all

theorem loop_refines_client_witness:
  "\<exists>(w :: platform world) as s. current_send_task (ctx w) = NULL \<and>
     run_actions client_step \<lparr>waiting = map (command_of demo_two) [demo_task SEND_TASK_STATUS_LINE_RECV 0, second_task],
       running = None\<rparr> as = Some s \<and>
     waiting s = [command_of w second_task] \<and> running s = None \<and> trace w = concat (map action_events as)"
proof -
  obtain w where w: "reachable platform_interface (\<lambda>q s. pl_queues s q) expects_data demo_two At_Timeout w" "current_send_task (ctx w) = NULL"
    "pl_queues (os w) (send_queue (ctx w)) = [Q_Task second_task]" using demo_two_reaches by blast
  from loop_refines_client [OF demo_two_rest w(1)] obtain as s where
    a: "run_actions client_step \<lparr>waiting = map (command_of demo_two) [demo_task SEND_TASK_STATUS_LINE_RECV 0, second_task],
       running = None\<rparr> as = Some s" "client_rel (\<lambda>q s. pl_queues s q) w s" "trace w = concat (map action_events as)" by auto
  have "waiting s = [command_of w second_task]" "running s = None"
    using a(2) w(2,3) by (auto simp: client_rel_def runs_command_def split: option.splits)
  then show ?thesis using a w(2) by blast
qed

text \<open>
  C6: Commands are served in the order in which they were queued, one at a time, each once, when
  those with a prompt ask for data after it, as \<open>system_step\<close> has it (\<open>expects_data\<close>):
  the transmissions are those of some of the commands taken from the queue, in order; those
  still in the queue are the rest; every command sent has been ended, by a call of its
  handler if it has one, but for the one that is under way.
\<close>

theorem commands_in_order:
  assumes "at_rest I Q cs0 w0" and "(system_step I Q)\<^sup>*\<^sup>* (cs0, At_Extern, w0) (cs, p, w)"
  shows "\<exists>es ts gone sent_cs ended_cs. trace w = trace w0 @ es \<and> Q (send_queue (ctx w)) (os w) = map Q_Task ts \<and>
    cs = gone @ map (command_of w) ts \<and> subseq sent_cs gone \<and>
    transmissions es = map cd_bytes sent_cs \<and> handler_calls es = app_handlers ended_cs \<and>
    (if current_send_task (ctx w) = NULL then sent_cs = ended_cs else \<exists>c. sent_cs = ended_cs @ [c] \<and> runs_command w (Some c))"
proof -
  from at_rest_refines [OF assms] obtain as s where
    a: "run_actions client_step \<lparr>waiting = cs0, running = None\<rparr> as = Some s" "client_rel Q w s" "cs = cs0 @ enqueued as"
      "trace w = trace w0 @ concat (map action_events as)" by blast
  obtain ts where ts: "Q (send_queue (ctx w)) (os w) = map Q_Task ts" "waiting s = map (command_of w) ts" "runs_command w (running s)"
    using a(2) by (auto simp: client_rel_def)
  have "cs = taken as @ map (command_of w) ts" using client_fifo [OF a(1)] a(3) ts(2) by simp
  moreover have "sent as = ended as @ current s" using client_one [OF a(1)] by (simp add: current_def)
  then have "if current_send_task (ctx w) = NULL then sent as = ended as
      else \<exists>c. sent as = ended as @ [c] \<and> runs_command w (Some c)"
    using ts(3) by (auto simp: runs_command_def current_def split: option.splits)
  ultimately show ?thesis
    using a(4) ts(1) client_seen [OF a(1)] sent_taken [of as]
    by (intro exI [of _ "concat (map action_events as)"] exI [of _ ts] exI [of _ "taken as"] exI [of _ "sent as"] exI [of _ "ended as"])
      simp
qed

theorem commands_in_order_witness:
  "\<exists>(w :: platform world) cs. current_send_task (ctx w) = NULL \<and> transmissions (trace w) = map cd_bytes cs \<and>
     handler_calls (trace w) = app_handlers cs \<and> subseq cs [command_of demo_two (demo_task SEND_TASK_STATUS_LINE_RECV 0)]"
proof -
  let ?cs = "map (command_of demo_two) [demo_task SEND_TASK_STATUS_LINE_RECV 0, second_task]"
  obtain w where w: "(system_step platform_interface (\<lambda>q s. pl_queues s q))\<^sup>*\<^sup>* (?cs, At_Extern, demo_two) (?cs, At_Timeout, w)"
    "current_send_task (ctx w) = NULL" "pl_queues (os w) (send_queue (ctx w)) = [Q_Task second_task]"
    using demo_two_steps by blast
  from commands_in_order [OF demo_two_rest w(1)] obtain es ts gone sent_cs ended_cs where
    c: "trace w = trace demo_two @ es" "pl_queues (os w) (send_queue (ctx w)) = map Q_Task ts" "?cs = gone @ map (command_of w) ts"
      "subseq sent_cs gone" "transmissions es = map cd_bytes sent_cs" "handler_calls es = app_handlers ended_cs"
      "if current_send_task (ctx w) = NULL then sent_cs = ended_cs else \<exists>c. sent_cs = ended_cs @ [c] \<and> runs_command w (Some c)"
    by blast
  then have "ts = [second_task]" "sent_cs = ended_cs" using w(2,3) by auto
  moreover from this c(3) have "gone = [command_of demo_two (demo_task SEND_TASK_STATUS_LINE_RECV 0)]" by auto
  ultimately show ?thesis using w(2) c(1,4-6) by auto
qed

lemma current_of_sys:
  assumes "sys_inv I Q w" and "current_send_task (ctx w) \<noteq> NULL"
  shows "\<exists>t. heap w (current_send_task (ctx w)) = Some (O_Task t)"
  using assms by (auto simp: sys_inv_def rx_good_def rx_inv_def task_state_def task_ok_def split: option.splits)

text \<open>Without commands to begin, the current one is answered once, and what else happens is of the kind \<open>P\<close>.\<close>

lemma idle_actions:
  "run_actions client_step \<lparr>waiting = [], running = None\<rparr> as = Some s \<Longrightarrow> enqueued as = [] \<Longrightarrow> others_are P as \<Longrightarrow>
    running s = None \<and> list_all P (concat (map action_events as))"
proof (induction as)
  case (Cons a as)
  then obtain e where "a = Other e" by (cases a) (auto simp: next_is_def enqueued_def split: if_splits)
  then show ?case using Cons by (auto simp: others_are_def enqueued_def split: if_splits)
qed auto

lemma answered_once:
  "run_actions client_step \<lparr>waiting = [], running = Some c\<rparr> as = Some \<lparr>waiting = [], running = None\<rparr> \<Longrightarrow>
    enqueued as = [] \<Longrightarrow> others_are P as \<Longrightarrow>
    \<exists>pre r bs post. list_all P pre \<and> list_all P post \<and> concat (map action_events as) = pre @ answer_events c r bs @ post"
proof (induction as)
  case (Cons a as)
  consider r bs where "a = Answer c r bs" | e where "a = Other e" "quiet e"
    using Cons.prems by (cases a) (auto simp: next_is_def enqueued_def split: if_splits)
  then show ?case
  proof cases
    case (1 r bs)
    then have "run_actions client_step \<lparr>waiting = [], running = None\<rparr> as = Some \<lparr>waiting = [], running = None\<rparr>" "enqueued as = []"
        "others_are P as"
      using Cons.prems by (simp_all add: others_are_def enqueued_def)
    from conjunct2 [OF idle_actions [OF this]] show ?thesis
      using 1 by (intro exI [of _ "[]"] exI [of _ r] exI [of _ bs] exI [of _ "concat (map action_events as)"]) simp
  next
    case (2 e)
    then have "run_actions client_step \<lparr>waiting = [], running = Some c\<rparr> as = Some \<lparr>waiting = [], running = None\<rparr>" "enqueued as = []"
        "others_are P as" "P e"
      using Cons.prems by (simp_all add: others_are_def enqueued_def)
    from Cons.IH [OF this(1-3)] obtain pre r bs post where
      "list_all P pre" "list_all P post" "concat (map action_events as) = pre @ answer_events c r bs @ post" by blast
    then show ?thesis using 2(1) \<open>P e\<close>
      by (intro exI [of _ "e # pre"] exI [of _ r] exI [of _ bs] exI [of _ post]) simp
  qed
qed simp

text \<open>Receiving and then looking at the time, without anything elsewhere in between.\<close>

lemma recv_timeout_moves:
  assumes sys: "sys_inv I Q w" and Q: "queue_contract I Q" and r: "runs_command w r"
    and u: "recv_data_handle I w = ok u" and v: "check_send_timeout I u = ok v"
  shows "(\<exists>r'. moves is_urc w r v r') \<and> spares I w v"
proof -
  obtain es where g: "rx_good I es w" "rb_inv (rx_buffer (ctx w))" using sys by (auto simp: sys_inv_def)
  have gu: "rx_good I es u" "spares I w u" using recv_data_ok [OF g] u by auto
  have "spares I u v" using timeout_good [OF gu(1)] v by auto
  then have "spares I w v" using spares_trans [OF gu(2)] by blast
  moreover from run_moves [OF recv_data_run [OF g u] g(1) r] obtain q where q: "moves is_urc w r u q" by blast
  then have "runs_command u q" by (simp add: moves_def)
  with timeout_moves [OF gu(1) _ v] moves_trans [OF q] have "\<exists>r'. moves is_urc w r v r'" by blast
  ultimately show ?thesis by blast
qed

text \<open>
  C40: The end of a command does not start the next one.  When the current command ends in an
  iteration, by its response or by its timeout, while another is queued, the loop does nothing
  visible but to answer the one and to call URC handlers, and then waits for the wake semaphore
  with \<open>ATC_TIMEOUT_MAX\<close>: the other is still in the queue, nothing was transmitted, and no
  semaphore was given but that of the answered caller.  The number of times the wake semaphore was
  given is not modelled: the wait returns at once when it had been given since it was last taken,
  and otherwise only when somebody else gives it.
\<close>

theorem queued_command_waits:
  assumes "queue_contract I Q" and "sys_inv I Q w" and "current_send_task (ctx w) \<noteq> NULL"
    and "heap w (current_send_task (ctx w)) = Some (O_Task t)"
    and "run_handler At_Recv I w = ok u" and "run_handler At_Timeout I u = ok v" and "current_send_task (ctx v) = NULL"
    and "Q (send_queue (ctx w)) (os w) = Q_Task n # rest"
  shows "\<exists>w' pre r bs post. run_handler At_Wait I v = ok w' \<and>
    trace w' = trace w @ pre @ answer_events (command_of w t) r bs @ post @ [Ev_Take (wake_semaphore (ctx w)) 0xFFFFFFFF] \<and>
    list_all is_urc pre \<and> list_all is_urc post \<and>
    current_send_task (ctx w') = NULL \<and> Q (send_queue (ctx w')) (os w') = Q_Task n # rest"
proof -
  let ?c = "command_of w t"
  have c: "runs_command w (Some ?c)" using assms(3,4) by (simp add: runs_command_def command_of_def)
  from recv_timeout_moves [OF assms(2,1) c, of u v] assms(5,6) obtain r' where
    m: "moves is_urc w (Some ?c) v r'" "spares I w v" by auto
  then have "r' = None" using assms(7) by (auto simp: moves_def runs_command_def split: option.splits)
  with m(1) obtain as where as: "run_actions client_step \<lparr>waiting = [], running = Some ?c\<rparr> as = Some \<lparr>waiting = [], running = None\<rparr>"
      "enqueued as = []" "others_are is_urc as" "trace v = trace w @ concat (map action_events as)"
    by (auto simp: moves_def)
  from answered_once [OF as(1-3)] obtain pre r bs post where e: "list_all is_urc pre" "list_all is_urc post"
      "trace v = trace w @ pre @ answer_events ?c r bs @ post" using as(4) by auto
  have k: "wake_semaphore (ctx v) = wake_semaphore (ctx w)" "send_queue (ctx v) = send_queue (ctx w)"
    using m(2) by (simp_all add: spares_def)
  have q: "same_queues Q (os w) (os v)" by (rule os_steps_queues [OF _ assms(1)]) (use m(2) in \<open>simp add: spares_def\<close>)
  have I: "complete I" using assms(2) rx_good_interface unfolding sys_inv_def by blast
  obtain x s where s: "os_sem_take I (wake_semaphore (ctx v)) ATC_TIMEOUT_MAX v =
      ok (x, emit (Ev_Take (wake_semaphore (ctx v)) ATC_TIMEOUT_MAX) (v\<lparr>os := s\<rparr>))"
    using os_sem_take_ok [OF I] by blast
  have "same_queues Q (os v) s" using os_sem_take_keeps [OF queue_contract_keeps [OF assms(1)] s] by simp
  then show ?thesis using s e k q assms(7,8)
    by (intro exI [of _ "emit (Ev_Take (wake_semaphore (ctx v)) ATC_TIMEOUT_MAX) (v\<lparr>os := s\<rparr>)"] exI [of _ pre] exI [of _ r]
        exI [of _ bs] exI [of _ post]) (simp add: wait_step_def wait_time_def same_queues_def atc_constants)
qed

theorem queued_command_waits_witness:
  "\<exists>(w :: platform world) v w'. current_send_task (ctx w) \<noteq> NULL \<and> current_send_task (ctx v) = NULL \<and>
     rbind (run_handler At_Recv platform_interface w) (run_handler At_Timeout platform_interface) = ok v \<and>
     run_handler At_Wait platform_interface v = ok w' \<and> Ev_Take 5 0xFFFFFFFF \<in> set (trace w') \<and>
     pl_queues (os w') (send_queue (ctx w')) = [Q_Task second_task]"
proof -
  let ?Q = "\<lambda>q s. pl_queues s q"
  obtain u w where w: "run_handler At_Extern platform_interface demo_two = ok demo_two"
    "run_handler At_Send platform_interface demo_two = ok u" "run_handler At_Recv platform_interface u = ok w"
    "current_send_task (ctx u) \<noteq> NULL" "pl_queues (os u) (send_queue (ctx u)) = [Q_Task second_task]"
    "current_send_task (ctx w) = NULL" "wake_semaphore (ctx u) = 5"
    using demo_two_runs by blast
  have sys: "sys_inv platform_interface ?Q u" using handler_sys [OF demo_two_sys platform_queues, of At_Send] w(2) by auto
  obtain t where t: "heap u (current_send_task (ctx u)) = Some (O_Task t)" using current_of_sys [OF sys w(4)] by blast
  have v: "run_handler At_Timeout platform_interface w = ok w" using w(6) by (simp add: check_send_timeout_def)
  from queued_command_waits [OF platform_queues sys w(4) t w(3) v w(6,5)] show ?thesis using w(3,4,6,7) v by auto
qed

end
