(* ===== verification/Spec2Isabelle.thy ===== *)
theory Spec2Isabelle
  imports Ring_Buffer_Spsc Recv_Status Prompt_Props Api_Steps Client_Refinement
begin

text \<open>
  A verification library for ATCortex, an AT-command client for embedded systems.  One thread,
  the event loop of \<open>ATCortex.c\<close>, owns the command in progress; application threads queue
  commands (\<open>atc_send_*\<close>) and registrations (\<open>atc_urc_*\<close>); the receive interrupt puts bytes
  into a ring.  Memory, queues, semaphores, the tick counter and the serial port are functions
  that the application injects (\<open>struct atc_interface\<close>).

  \<^bold>\<open>How the program is modelled.\<close>  A \<open>world\<close> is the heap (a map from 32-bit addresses to typed
  objects), the context \<open>struct atc_context\<close>, the state behind the injected functions, and a
  trace of what is visible outside: bytes sent, handlers called, semaphores given, taken and
  deleted.  A function that can fail is \<open>'a res\<close>: \<open>None\<close> is a run that does not return,
  \<open>Some (Inl u)\<close> undefined behaviour of kind \<open>u\<close> (an access outside an array, a null or
  dangling pointer, an uninitialised value, a pointer to an object of another type),
  \<open>Some (Inr x)\<close> a result.  So \<open>f x = ok y\<close> says at once that \<open>f\<close> terminates and is safe.
  Loops are \<open>partial_function\<close>s over \<open>option\<close>, without fuel.  \<open>int\<close>, \<open>size_t\<close> and pointers
  have 32 bits (ILP32, as on the targets of the library) and a plain \<open>char\<close> is unsigned.  A pointer parameter that may be null
  is an \<open>option\<close>; the test \<open>context == NULL\<close> is a boolean parameter.

  \<^bold>\<open>The injected functions\<close> are parameters.  Named hypotheses state what the code relies on:
  \<open>complete\<close> (all registered), \<open>malloc_fresh\<close> (\<open>malloc\<close> answers null or an unused address,
  and null to a request of \<open>2^31\<close> bytes or more),
  \<open>queue_contract\<close> (bounded FIFO queues that nothing else changes), \<open>create_contract\<close> (a new
  queue is empty).  \<open>platform_interface\<close> is a concrete instance that satisfies all of them; the
  witnesses run on it.

  \<^bold>\<open>The theories.\<close>
  \<^item> \<open>ATC_Prelude\<close>: results, C strings and arrays, lists; the methods' rule collections.
  \<^item> \<open>Ring_Buffer\<close> (\<open>ring_buffer.c\<close>): the five operations; refinement of a bounded FIFO, stated
    as a locale of byte queues and interpreted on the ring; the data count.
    \<open>Ring_Buffer_Spsc\<close>: the two operations cut into their accesses to the indices (the cut
    steps of each side, run to the end, are the operation of \<open>Ring_Buffer\<close>), and every
    interleaving of the interrupt with the event loop.
  \<^item> \<open>ATC_Types\<close>, \<open>ATC_Interface\<close> (\<open>ATCortex.h\<close>, \<open>interface.c\<close>): structures, the heap, the calls
    through the function pointers, registration of the interface.  \<open>OS_Contract\<close>: the
    hypotheses on queues, and relations that whole functions keep behind the interface.
  \<^item> \<open>Logging\<close> (\<open>log.h\<close>): the log macros and byte dumps, statements of all the handlers below.  A
    log statement is undefined when no log function is registered or when a string argument
    does not end inside its array; so the results on the handlers also say that the response,
    the received line and the prefixes they print are terminated.
  \<^item> \<open>Stack\<close> (\<open>stack.c\<close>): all operations, and the window of the last elements that prompt
    matching uses, as a locale interpreted on the stack.
  \<^item> \<open>Slist\<close> (\<open>slist.c\<close>): all operations, pointer by pointer, against lists.
  \<^item> \<open>Urc_Handle\<close> (\<open>urc_handle.c\<close>): dispatch of unsolicited lines, the cyclic search for an
    identifier, registration, removal, against a table of entries.
  \<^item> \<open>Command_End\<close>, \<open>Recv_Line\<close>, \<open>Recv_Prompt\<close>, \<open>Recv_Data\<close> (\<open>recv_data_handle.c\<close>, and
    \<open>sync_response_handler\<close>): the end of a command, the three modes of reception, the loop over
    the ring, the interrupt entry.  \<open>rx_inv\<close> is the invariant of the receive path; \<open>rx_run\<close>
    relates the states before and after a sequence of received bytes, whatever the moments at
    which they arrive.  \<open>Recv_Scenarios\<close>: whole responses, prompts with binary data, and the
    inputs that wedge the receiver.  \<open>Recv_Status\<close>: the order of the task's statuses.
  \<^item> \<open>Send_Msg\<close>, \<open>Send_Start\<close> (\<open>send_msg_handle.c\<close>): the four sending calls, and the step that
    starts the next command.
  \<^item> \<open>Extern_Msg\<close>, \<open>Extern_Api\<close> (\<open>extern_msg_handle.c\<close>): the loop that serves registrations, as
    a refinement of an abstract service \<open>serves\<close>; the two calls from entry to return.
  \<^item> \<open>Event_Loop\<close>, \<open>Loop_Safety\<close> (\<open>ATCortex.c\<close>): initialisation, the timeout, the loop; the
    invariant \<open>sys_inv\<close> of the system and its preservation by every handler.
  \<^item> \<open>System\<close>: the loop as a state machine whose steps are the handlers, interleaved with
    interrupts, calls of other threads and changes of their variables.  \<open>Api_Steps\<close>: that
    the calls of the library are such steps.  \<open>Loop_Props\<close>: the properties of the loop as a
    whole, and a command from the asynchronous call to its response.  \<open>Sync_Props\<close>: the same
    for the blocking call, with what the caller finds in its variables.  \<open>Prompt_Props\<close>: both
    for the calls that wait for a prompt and then take binary data.
  \<^item> \<open>Client_Spec\<close>: an executable specification of the library as its users see it (commands
    that wait, one under way, each ended once), what follows from it, and the rule of
    refinement as a locale.  \<open>Client_Refinement\<close>: the event loop with everything around it,
    as an interpretation of that locale.

  \<^bold>\<open>What the lemmas show.\<close>  Lemmas \<open>*_rep\<close> and \<open>*_inv\<close> relate heap structures to lists and keep
  invariants; \<open>*_ok\<close> give the complete effect of an operation from states with the invariant,
  its safety and termination included, \<open>*_exact\<close> also what was allocated and freed and which
  branch was taken; \<open>*_os\<close> say what it does behind the interface; \<open>kept*\<close>,
  \<open>spares*\<close> and \<open>callers_kept*\<close> are frame rules; \<open>*_sys\<close> keep the invariant of the system.
  The collection \<open>within_os\<close> follows a function down to its calls of the interface; \<open>sample_run\<close>
  evaluates calls on the sample platform.  Lemmas \<open>demo_*\<close> and \<open>platform_*\<close> build the concrete
  worlds of the witnesses.

  \<^bold>\<open>Bounds.\<close>  The response has 512 bytes, the line buffer 256, the prompt stack 20, as in
  \<open>ATCortex.h\<close>.  The table of URC handlers cannot outgrow the identifiers, because two cells
  per entry and per message have to fit into the address space (\<open>table_room\<close>).

  \<^bold>\<open>Not modelled.\<close>  The injected functions themselves; the log function is taken not to change
  the state behind the others, and what it prints is not represented.  Response and URC handlers of the application are events of the trace:
  they are taken to return and not to call the library.  The handlers of the loop are atomic in
  \<open>System\<close>; for the ring, the only data the interrupt shares with the loop, \<open>Ring_Buffer_Spsc\<close>
  has the finer steps.  The counts of semaphores are not modelled: a wait may end at any time
  (as it does at once when the semaphore was given since the last take), and \<open>sleep\<close> and \<open>wait\<close>
  below are the call of \<open>atc_semaphore_take\<close> with its timeout, which the trace shows.
  What other threads do while a call is blocked is its parameter \<open>others\<close>.  The moment of a
  give is modelled: \<open>atc_semaphore_give\<close> is handed the memory as it is then, so what was
  written before a thread is woken differs from what is written after.

  \<^bold>\<open>Excluded from the results on the loop.\<close>  \<open>ATCortex.h\<close> (218, 233) documents calls with a
  prompt and \<open>recv_len = 0\<close>.  When their prompt is recognised the loop dereferences a null
  pointer (\<open>prompt_without_data_crashes\<close>), so no result can promise safety when some thread
  makes such a call.  The steps of other threads (\<open>elsewhere\<close>, \<open>reachable\<close>) have the set of
  tasks that may be queued as a parameter \<open>allowed\<close>: \<open>loop_safe\<close> has the exclusion as a
  hypothesis on it, \<open>loop_refines_client\<close> and \<open>commands_in_order\<close> use \<open>expects_data\<close>.  \<open>Api_Steps\<close>
  shows that all the calls, these included, are steps of the relation that allows their tasks.
\<close>

end
